(* ===== verification/Rust_Prelude.thy ===== *)
theory Rust_Prelude
  imports Main "HOL-Library.Word"
begin

text \<open>
  Shared ground of the development: the machine integers of the sources, Rust's
  \<open>Result\<close>, the outcome of a call that may panic, slices with their bounds checks, the
  big- and little-endian byte encodings of \<open>to_be_bytes\<close> and \<open>from_be_bytes\<close>, and the
  generic lemmas on lists and words the components use.

  Lengths and positions (\<open>usize\<close>) are natural numbers: every position of the sources is
  bounded by the length of a slice, and a Rust slice is never longer than \<open>isize::MAX\<close>,
  so the position arithmetic of the code does not wrap.  Where a \<open>usize\<close> or a wider value
  is narrowed (\<open>as u8\<close>) or an operation may wrap, the model uses words of that width.
\<close>

unbundle bit_operations_syntax

section \<open>Types\<close>

type_synonym u8 = "8 word"
type_synonym u16 = "16 word"
type_synonym u32 = "32 word"
type_synonym u64 = "64 word"
type_synonym u128 = "128 word"
type_synonym bytes = "u8 list"

text \<open>
  Rust's \<open>Result<T, E>\<close>, and the outcome of a call.  The reasons for not returning are the
  panics the sources raise (a failed \<open>unwrap\<close>, \<open>expect\<close> or assertion, an index or slice out
  of range, an arithmetic overflow, an explicit \<open>panic!\<close>), and reaching
  \<open>unreachable_unchecked\<close>.  Debug assertions count as assertions.  A message is the text of the source up to the
  values it prints.
\<close>

datatype ('e, 'a) result = Err 'e | Ok 'a

datatype panic =
    Unwrap_Failed
  | Assert_Failed
  | Out_Of_Bounds
  | Overflow
  | Message string
  | Undefined_Behaviour

datatype 'a outcome = Panic panic | Return 'a

section \<open>Collections of facts\<close>

named_theorems rust_simps \<open>definitions of the checked primitives, unfolded by the component proofs\<close>
named_theorems byte_list \<open>rewrite rules on blocks and slices as lists of bytes\<close>

section \<open>Sequencing\<close>

primrec and_then :: "'a outcome \<Rightarrow> ('a \<Rightarrow> 'b outcome) \<Rightarrow> 'b outcome" where
  "and_then (Panic p) f = Panic p"
| "and_then (Return x) f = f x"

primrec returns :: "'a outcome \<Rightarrow> bool" where
  "returns (Panic p) = False"
| "returns (Return x) = True"

primrec unwrap :: "('e, 'a) result \<Rightarrow> 'a outcome" where
  "unwrap (Err e) = Panic Unwrap_Failed"
| "unwrap (Ok x) = Return x"

definition rust_assert :: "bool \<Rightarrow> panic \<Rightarrow> unit outcome" where
  "rust_assert b p = (if b then Return () else Panic p)"

lemma and_then_eq_Return [simp]:
  "and_then m f = Return y \<longleftrightarrow> (\<exists>x. m = Return x \<and> f x = Return y)"
  by (cases m) auto

lemma and_then_assoc: "and_then (and_then m f) g = and_then m (\<lambda>x. and_then (f x) g)"
  by (cases m) auto

lemma and_then_Return_right [simp]: "and_then m Return = m"
  by (cases m) auto

lemma and_then_cong [fundef_cong]:
  "m = m' \<Longrightarrow> (\<And>x. m' = Return x \<Longrightarrow> f x = g x) \<Longrightarrow> and_then m f = and_then m' g"
  by (cases m') auto

lemma unwrap_eq_Return [simp]: "unwrap r = Return x \<longleftrightarrow> r = Ok x"
  by (cases r) auto

lemma rust_assert_True [simp]: "rust_assert True p = Return ()"
  by (simp add: rust_assert_def)

lemma rust_assert_False [simp]: "rust_assert False p = Panic p"
  by (simp add: rust_assert_def)

lemma rust_assert_eq_Return [simp]: "rust_assert b p = Return u \<longleftrightarrow> b"
  by (simp add: rust_assert_def)

lemma returns_iff: "returns m \<longleftrightarrow> (\<exists>x. m = Return x)"
  by (cases m) auto

text \<open>A \<open>for\<close> loop whose body may panic, over the state it changes.\<close>

fun for_each :: "('a \<Rightarrow> 's \<Rightarrow> 's outcome) \<Rightarrow> 'a list \<Rightarrow> 's \<Rightarrow> 's outcome" where
  "for_each f [] s = Return s"
| "for_each f (x # xs) s = and_then (f x s) (for_each f xs)"

lemma for_each_append: "for_each f (xs @ ys) s = and_then (for_each f xs s) (for_each f ys)"
  by (induction xs arbitrary: s) (simp_all add: and_then_assoc cong: and_then_cong)

lemma for_each_concat: "for_each f (concat xss) s = for_each (for_each f) xss s"
  by (induction xss arbitrary: s) (simp_all add: for_each_append cong: and_then_cong)

lemma for_each_map: "for_each f (map g xs) s = for_each (\<lambda>x. f (g x)) xs s"
  by (induction xs arbitrary: s) (simp_all cong: and_then_cong)

lemma for_each_maps: "for_each f (map g xs) = for_each (\<lambda>x. f (g x)) xs"
  by (simp add: fun_eq_iff for_each_map)

lemma for_each_concats: "for_each f (concat xss) = for_each (for_each f) xss"
  by (simp add: fun_eq_iff for_each_concat)

lemma for_each_cong:
  "xs = ys \<Longrightarrow> (\<And>x s. x \<in> set ys \<Longrightarrow> f x s = g x s) \<Longrightarrow> for_each f xs s = for_each g ys s"
  by (induction ys arbitrary: xs s) (simp_all cong: and_then_cong)

lemma for_each_filter:
  "for_each f (filter P xs) s = for_each (\<lambda>x s. if P x then f x s else Return s) xs s"
  by (induction xs arbitrary: s) (simp_all cong: and_then_cong)

text \<open>An iterator pipeline that may panic: \<open>map\<close> and \<open>filter\<close>.\<close>

fun try_map :: "('a \<Rightarrow> 'b outcome) \<Rightarrow> 'a list \<Rightarrow> 'b list outcome" where
  "try_map f [] = Return []"
| "try_map f (x # xs) = and_then (f x) (\<lambda>y. and_then (try_map f xs) (\<lambda>ys. Return (y # ys)))"

fun try_filter :: "('a \<Rightarrow> bool outcome) \<Rightarrow> 'a list \<Rightarrow> 'a list outcome" where
  "try_filter f [] = Return []"
| "try_filter f (x # xs) =
     and_then (f x) (\<lambda>b. and_then (try_filter f xs) (\<lambda>ys. Return (if b then x # ys else ys)))"

lemma try_map_Return:
  "try_map f xs = Return ys \<longleftrightarrow> length ys = length xs \<and> (\<forall>i < length xs. f (xs ! i) = Return (ys ! i))"
proof (induction xs arbitrary: ys)
  case (Cons x xs)
  show ?case
    by (cases ys) (auto simp: Cons.IH less_Suc_eq_0_disj)
qed auto

lemma try_map_pure: "(\<And>x. x \<in> set xs \<Longrightarrow> f x = Return (g x)) \<Longrightarrow> try_map f xs = Return (map g xs)"
  by (induction xs) auto

lemma returns_try_map: "returns (try_map f xs) \<longleftrightarrow> (\<forall>x \<in> set xs. returns (f x))"
proof (induction xs)
  case (Cons x xs)
  then show ?case by (cases "f x"; cases "try_map f xs") auto
qed simp

lemma try_filter_Return:
  "try_filter f xs = Return ys \<longleftrightarrow>
   (\<forall>x \<in> set xs. returns (f x)) \<and> ys = filter (\<lambda>x. f x = Return True) xs"
proof (induction xs arbitrary: ys)
  case (Cons x xs)
  then show ?case by (cases "f x") (auto simp: returns_iff)
qed auto

section \<open>Slices\<close>

text \<open>
  \<open>xs[i]\<close>, \<open>&xs[a..b]\<close>, \<open>&xs[a..]\<close> with their bounds checks; the loop
  \<open>for b in &mut xs[a..z] { *b = v; }\<close>; and \<open>xs[a..][..n].copy_from_slice(src)\<close>, whose
  lengths must agree.
\<close>

definition index_at :: "'a list \<Rightarrow> nat \<Rightarrow> 'a outcome" where
  "index_at xs i = (if i < length xs then Return (xs ! i) else Panic Out_Of_Bounds)"

definition slice :: "'a list \<Rightarrow> nat \<Rightarrow> nat \<Rightarrow> 'a list outcome" where
  "slice xs a b =
     (if a \<le> b \<and> b \<le> length xs then Return (take (b - a) (drop a xs))
      else Panic Out_Of_Bounds)"

definition slice_from :: "'a list \<Rightarrow> nat \<Rightarrow> 'a list outcome" where
  "slice_from xs a = slice xs a (length xs)"

definition slice_to :: "'a list \<Rightarrow> nat \<Rightarrow> 'a list outcome" where
  "slice_to xs b = slice xs 0 b"

definition fill_range :: "'a list \<Rightarrow> nat \<Rightarrow> nat \<Rightarrow> 'a \<Rightarrow> 'a list outcome" where
  "fill_range xs a b v =
     (if a \<le> b \<and> b \<le> length xs
      then Return (take a xs @ map (\<lambda>_. v) (take (b - a) (drop a xs)) @ drop b xs)
      else Panic Out_Of_Bounds)"

definition set_at :: "'a list \<Rightarrow> nat \<Rightarrow> 'a \<Rightarrow> 'a list outcome" where
  "set_at xs i v = (if i < length xs then Return (xs[i := v]) else Panic Out_Of_Bounds)"

definition overwrite :: "'a list \<Rightarrow> nat \<Rightarrow> 'a list \<Rightarrow> 'a list" where
  "overwrite xs a src = take a xs @ src @ drop (a + length src) xs"

definition copy_at :: "'a list \<Rightarrow> nat \<Rightarrow> nat \<Rightarrow> 'a list \<Rightarrow> 'a list outcome" where
  "copy_at xs a b src =
     (if a \<le> b \<and> b \<le> length xs \<and> length src = b - a then Return (overwrite xs a src)
      else Panic Out_Of_Bounds)"

definition checked_sub :: "nat \<Rightarrow> nat \<Rightarrow> nat outcome" where
  "checked_sub a b = (if b \<le> a then Return (a - b) else Panic Overflow)"

definition split_at :: "'a list \<Rightarrow> nat \<Rightarrow> ('a list \<times> 'a list) outcome" where
  "split_at xs mid =
     (if mid \<le> length xs then Return (take mid xs, drop mid xs) else Panic Out_Of_Bounds)"

lemmas slice_defs [rust_simps] =
  index_at_def slice_def slice_from_def slice_to_def fill_range_def set_at_def copy_at_def
  checked_sub_def split_at_def

lemma length_overwrite [simp]:
  "a + length src \<le> length xs \<Longrightarrow> length (overwrite xs a src) = length xs"
  by (simp add: overwrite_def)

lemma overwrite_nth:
  "a + length src \<le> length xs \<Longrightarrow> i < length xs \<Longrightarrow>
   overwrite xs a src ! i = (if a \<le> i \<and> i < a + length src then src ! (i - a) else xs ! i)"
  by (auto simp: overwrite_def nth_append min_def)

lemma take_overwrite [byte_list]:
  "n \<le> a \<Longrightarrow> a \<le> length xs \<Longrightarrow> take n (overwrite xs a src) = take n xs"
  by (simp add: overwrite_def min_def)

lemma take_overwrite_end [byte_list]:
  "a \<le> length xs \<Longrightarrow> take (a + length src) (overwrite xs a src) = take a xs @ src"
  by (simp add: overwrite_def)

lemma overwrite_all [simp]:
  "a + length src = length xs \<Longrightarrow> overwrite xs a src = take a xs @ src"
  by (simp add: overwrite_def)

lemma fill_range_to_end:
  "a \<le> length xs \<Longrightarrow>
   fill_range xs a (length xs) v = Return (take a xs @ replicate (length xs - a) v)"
  by (simp add: fill_range_def map_replicate_const)

lemma fill_range_Return:
  "fill_range xs a b v = Return ys \<longleftrightarrow>
   a \<le> b \<and> b \<le> length xs \<and> ys = take a xs @ replicate (b - a) v @ drop b xs"
  by (auto simp: fill_range_def map_replicate_const min_def)

section \<open>Lists\<close>

lemma all_set_replicate: "(\<forall>x \<in> set xs. x = v) \<longleftrightarrow> xs = replicate (length xs) v"
  by (metis in_set_replicate replicate_length_same)

lemma drop_update_here: "n < length xs \<Longrightarrow> drop n (xs[n := b]) = b # drop (Suc n) xs"
  by (metis Cons_nth_drop_Suc drop_update_cancel length_list_update lessI nth_list_update_eq)

text \<open>The filler of a block before its last byte: \<open>block[s..bs - 1]\<close> and \<open>block[bs - 1]\<close>.\<close>

lemma drop_split_last:
  "b \<noteq> [] \<Longrightarrow> s < length b \<Longrightarrow> drop s b = take (length b - 1 - s) (drop s b) @ [last b]"
  by (cases b rule: rev_cases) auto

lemma filler_iff:
  assumes "b \<noteq> []" and "s < length b"
  shows "(\<forall>x \<in> set (take (length b - 1 - s) (drop s b)). x = v) \<longleftrightarrow>
         drop s b = replicate (length b - 1 - s) v @ [last b]"
proof -
  have "(\<forall>x \<in> set (take (length b - 1 - s) (drop s b)). x = v) \<longleftrightarrow>
        take (length b - 1 - s) (drop s b) = replicate (length b - 1 - s) v"
    using assms by (simp add: all_set_replicate)
  also have "\<dots> \<longleftrightarrow> drop s b = replicate (length b - 1 - s) v @ [last b]"
    by (metis assms drop_split_last append_same_eq)
  finally show ?thesis .
qed

lemma concat_all_length:
  "(\<And>x. x \<in> set xss \<Longrightarrow> length x = n) \<Longrightarrow> length (concat xss) = length xss * n"
  by (induction xss) auto

lemma take_concat_blocks:
  assumes "\<And>x. x \<in> set xss \<Longrightarrow> length x = n" and "k \<le> length xss"
  shows "take (k * n) (concat xss) = concat (take k xss)"
  using assms
proof (induction xss arbitrary: k)
  case (Cons x xss)
  show ?case
  proof (cases k)
    case (Suc j)
    with Cons have "take (j * n) (concat xss) = concat (take j xss)" by simp
    with Suc Cons.prems show ?thesis by simp
  qed simp
qed simp

text \<open>
  The view of a byte region as an array of \<open>n\<close> blocks of \<open>bs\<close> bytes, as the pointer casts
  to \<open>*const GenericArray<u8, N>\<close> give it.
\<close>

fun chunks_of :: "nat \<Rightarrow> nat \<Rightarrow> 'a list \<Rightarrow> 'a list list" where
  "chunks_of bs 0 xs = []"
| "chunks_of bs (Suc n) xs = take bs xs # chunks_of bs n (drop bs xs)"

lemma length_chunks_of [simp]: "length (chunks_of bs n xs) = n"
  by (induction bs n xs rule: chunks_of.induct) auto

lemma concat_chunks_of: "n * bs \<le> length xs \<Longrightarrow> concat (chunks_of bs n xs) = take (n * bs) xs"
proof (induction bs n xs rule: chunks_of.induct)
  case (2 bs n xs)
  then have "concat (chunks_of bs (Suc n) xs) = take bs xs @ take (n * bs) (drop bs xs)"
    by simp
  also have "\<dots> = take (Suc n * bs) xs"
    by (simp add: take_add)
  finally show ?case .
qed simp

lemma chunks_of_block_length:
  "n * bs \<le> length xs \<Longrightarrow> b \<in> set (chunks_of bs n xs) \<Longrightarrow> length b = bs"
  by (induction bs n xs rule: chunks_of.induct) auto

lemma chunks_of_concat:
  "(\<And>x. x \<in> set xss \<Longrightarrow> length x = bs) \<Longrightarrow> chunks_of bs (length xss) (concat xss @ ys) = xss"
  by (induction xss) auto

lemma chunks_of_nth:
  "i < n \<Longrightarrow> chunks_of bs n xs ! i = take bs (drop (i * bs) xs)"
proof (induction bs n xs arbitrary: i rule: chunks_of.induct)
  case (2 bs n xs)
  then show ?case by (cases i) (simp_all add: add.commute)
qed simp

section \<open>Bytes\<close>

lemma unat_u8_lt [simp]: "unat (b :: u8) < 256"
  using unsigned_less [of b] by simp

lemma unat_u8_le [simp]: "unat (b :: u8) \<le> 255"
  using unat_u8_lt [of b] by linarith

lemma unat_u8_of_nat [simp]: "n < 256 \<Longrightarrow> unat (of_nat n :: u8) = n"
  by (simp add: unat_of_nat)

lemma u8_eq_0_iff: "(b :: u8) = 0 \<longleftrightarrow> unat b = 0"
  by (simp add: unat_eq_zero)

text \<open>Widening casts (\<open>as\<close>) lose nothing.\<close>

lemma ucast_up_down [simp]:
  "LENGTH('a) \<le> LENGTH('b) \<Longrightarrow> ucast (ucast (x :: 'a::len word) :: 'b::len word) = x"
  by (rule bit_word_eqI) (simp add: bit_simps)

lemma ucast_up_eq_0 [simp]:
  "LENGTH('a) \<le> LENGTH('b) \<Longrightarrow> (ucast (x :: 'a::len word) :: 'b::len word) = 0 \<longleftrightarrow> x = 0"
  using ucast_up_down [of x, where 'b = 'b] by (metis unsigned_0)

lemma uint_ucast_up:
  "LENGTH('a) \<le> LENGTH('b) \<Longrightarrow> uint (ucast (x :: 'a::len word) :: 'b::len word) = uint x"
  by (rule bit_eqI) (auto simp: bit_simps dest: bit_imp_le_length)

text \<open>\<open>to_be_bytes\<close>, \<open>to_le_bytes\<close> and \<open>from_be_bytes\<close> of the integer types.\<close>

definition to_le_bytes :: "'a::len word \<Rightarrow> bytes" where
  "to_le_bytes w = map (\<lambda>i. ucast (drop_bit (8 * i) w)) [0..<LENGTH('a) div 8]"

definition to_be_bytes :: "'a::len word \<Rightarrow> bytes" where
  "to_be_bytes w = rev (to_le_bytes w)"

definition from_be_bytes :: "bytes \<Rightarrow> 'a::len word" where
  "from_be_bytes bs = foldl (\<lambda>acc b. push_bit 8 acc OR ucast b) 0 bs"

lemma length_to_le_bytes [simp]: "length (to_le_bytes (w :: 'a::len word)) = LENGTH('a) div 8"
  by (simp add: to_le_bytes_def)

lemma length_to_be_bytes [simp]: "length (to_be_bytes (w :: 'a::len word)) = LENGTH('a) div 8"
  by (simp add: to_be_bytes_def)

lemma bit_from_be_bytes:
  "bit (from_be_bytes bs :: 'a::len word) k \<longleftrightarrow>
   k < LENGTH('a) \<and> k < 8 * length bs \<and> bit (rev bs ! (k div 8)) (k mod 8)"
proof (induction bs arbitrary: k rule: rev_induct)
  case Nil
  then show ?case by (simp add: from_be_bytes_def)
next
  case (snoc b bs)
  have eq: "from_be_bytes (bs @ [b]) = push_bit 8 (from_be_bytes bs :: 'a word) OR ucast b"
    by (simp add: from_be_bytes_def)
  show ?case
  proof (cases "k < 8")
    case True
    then show ?thesis
      by (auto simp: eq bit_simps dest: bit_imp_le_length)
  next
    case False
    then have "k div 8 = Suc ((k - 8) div 8)" "k mod 8 = (k - 8) mod 8"
      by (simp_all add: le_div_geq le_mod_geq)
    moreover have "\<not> bit b k"
      using False by (auto dest: bit_imp_le_length)
    ultimately show ?thesis
      using False snoc.IH [of "k - 8"] by (auto simp: eq bit_simps)
  qed
qed

lemma to_be_bytes_from_be_bytes:
  assumes "8 * length bs = LENGTH('a)"
  shows "to_be_bytes (from_be_bytes bs :: 'a::len word) = bs"
proof -
  have "to_le_bytes (from_be_bytes bs :: 'a word) = rev bs"
  proof (rule nth_equalityI)
    fix i assume "i < length (to_le_bytes (from_be_bytes bs :: 'a word))"
    then have i: "i < length bs" using assms by simp
    show "to_le_bytes (from_be_bytes bs :: 'a word) ! i = rev bs ! i"
    proof (rule bit_word_eqI)
      fix k assume "k < LENGTH(8)"
      moreover from this i assms have "8 * i + k < LENGTH('a)" by simp
      ultimately show "bit (to_le_bytes (from_be_bytes bs :: 'a word) ! i) k = bit (rev bs ! i) k"
        using i assms by (simp add: to_le_bytes_def bit_simps bit_from_be_bytes)
    qed
  qed (use assms in simp)
  then show ?thesis by (simp add: to_be_bytes_def)
qed

lemma from_be_bytes_to_be_bytes:
  assumes "LENGTH('a) mod 8 = 0"
  shows "from_be_bytes (to_be_bytes w) = (w :: 'a::len word)"
proof (rule bit_word_eqI)
  fix k assume k: "k < LENGTH('a)"
  have len: "8 * (LENGTH('a) div 8) = LENGTH('a)" using assms by auto
  with k have "k div 8 < LENGTH('a) div 8" by linarith
  with k len show "bit (from_be_bytes (to_be_bytes w) :: 'a word) k = bit w k"
    by (simp add: bit_from_be_bytes to_be_bytes_def to_le_bytes_def bit_simps)
qed

end
