(* ===== verification/Fiat_Constify.thy ===== *)
theory Fiat_Constify
  imports Rust_Prelude "HOL-Library.Char_ord" "HOL-Library.List_Lexorder"
begin

text \<open>
  The crate \<^verbatim>\<open>fiat-constify\<close> (\<^verbatim>\<open>fiat-constify/src/main.rs\<close>): it rewrites the functions of a generated field implementation, which
  write their results through mutable references, as \<open>const fn\<close>s that return them.

  The syntax trees are those parts of \<^verbatim>\<open>syn\<close>'s that the code builds or matches; other expressions are an
  operator with its operands.  Parsing and printing are left out.  This theory holds the rewriting, when it ends, and
  what becomes of the items of a file; \<^verbatim>\<open>Fiat_Semantics\<close> shows what it preserves.
\<close>

section \<open>Syntax\<close>

datatype un_op = Deref | UnNot | UnNeg

datatype expr =
    EPath "string list"
  | EReference bool expr
  | EUnary un_op expr
  | ECall expr "expr list"
  | EAssign expr expr
  | ELit int
  | ERepeat expr expr
  | ETuple "expr list"
  | EOther string "expr list"

datatype rust_type =
    TArray rust_type expr
  | TPath "string list"
  | TReference bool rust_type
  | TTuple "rust_type list"
  | TOther

datatype pat = PIdent bool string | PType pat rust_type | PTuple "pat list" | POther

datatype stmt = SLocal pat "expr option" | SSemi expr | SExpr expr | SItem

datatype fn_arg = FReceiver | FTyped pat rust_type

record item_fn =
  fn_ident :: string
  constness :: bool
  fn_inputs :: "fn_arg list"
  fn_output :: "rust_type option"
  fn_block :: "stmt list"

datatype item = IFn item_fn | IType string rust_type | IOther

record rust_file =
  file_attrs :: "(string list \<times> string list list) list"
  file_items :: "item list"

section \<open>Ordered maps of identifiers\<close>

text \<open>\<open>BTreeMap<Ident, Type>\<close>: entries in the order of the identifiers; \<open>insert\<close> gives back what it replaced.\<close>

fun btree_put :: "string \<Rightarrow> 'v \<Rightarrow> (string \<times> 'v) list \<Rightarrow> (string \<times> 'v) list" where
  "btree_put k v [] = [(k, v)]"
| "btree_put k v ((k', v') # m) =
     (if k < k' then (k, v) # (k', v') # m
      else if k = k' then (k, v) # m
      else (k', v') # btree_put k v m)"

definition registry_add ::
  "string \<Rightarrow> rust_type \<Rightarrow> (string \<times> rust_type) list \<Rightarrow> (string \<times> rust_type) list outcome" where
  "registry_add ident ty self =
     (if map_of self ident \<noteq> None then Panic (Message (''duplicate type name: '' @ ident))
      else Return (btree_put ident ty self))"

definition registry_get :: "(string \<times> rust_type) list \<Rightarrow> string \<Rightarrow> rust_type option" where
  "registry_get self ident = map_of self ident"

definition outputs_add ::
  "string \<Rightarrow> rust_type \<Rightarrow> (string \<times> rust_type) list \<Rightarrow> (string \<times> rust_type) list outcome" where
  "outputs_add name ty self =
     (if map_of self name \<noteq> None then Panic (Message (''duplicate output name: '' @ name))
      else Return (btree_put name ty self))"

section \<open>Default values\<close>

definition zero :: expr where
  "zero = ELit 0"

text \<open>The recursion follows type aliases, so on a cyclic alias it does not end: the value is \<open>None\<close> then.\<close>

partial_function (option) default_for :: "(string \<times> rust_type) list \<Rightarrow> rust_type \<Rightarrow> expr outcome option" where
  "default_for registry ty =
     (case ty of
        TArray elem len \<Rightarrow> Some (Return (ERepeat zero len))
      | TPath segments \<Rightarrow>
          if length segments \<noteq> 1 then Some (Panic Assert_Failed)
          else
            let ident = hd segments in
            (case registry_get registry ident of
               Some registry_ty \<Rightarrow> default_for registry registry_ty
             | None \<Rightarrow>
                 if ident = ''u8'' \<or> ident = ''u32'' \<or> ident = ''u64'' then Some (Return zero)
                 else Some (Panic (Message ''unsupported type'')))
      | _ \<Rightarrow> Some (Panic (Message ''don't know how to build default value'')))"

section \<open>Outputs\<close>

fun to_let_bindings ::
  "(string \<times> rust_type) list \<Rightarrow> (string \<times> rust_type) list \<Rightarrow> stmt list outcome option" where
  "to_let_bindings registry [] = Some (Return [])"
| "to_let_bindings registry ((ident, ty) # outputs) =
     (case default_for registry ty of
        None \<Rightarrow> None
      | Some (Panic p) \<Rightarrow> Some (Panic p)
      | Some (Return e) \<Rightarrow>
          map_option (\<lambda>r. and_then r (\<lambda>stmts. Return (SLocal (PType (PIdent True ident) ty) (Some e) # stmts)))
            (to_let_bindings registry outputs))"

definition to_return_type :: "(string \<times> rust_type) list \<Rightarrow> rust_type option outcome" where
  "to_return_type self =
     (case self of
        [] \<Rightarrow> Panic (Message ''expected at least one output'')
      | [(_, ty)] \<Rightarrow> Return (Some ty)
      | _ \<Rightarrow> Return (Some (TTuple (map snd self))))"

definition to_return_value :: "(string \<times> rust_type) list \<Rightarrow> stmt" where
  "to_return_value self =
     (let elems = map (\<lambda>(ident, _). EPath [ident]) self in
      if length elems = 1 then SExpr (hd elems) else SExpr (ETuple elems))"

section \<open>Rewriting\<close>

definition get_ident_from_pat :: "pat \<Rightarrow> string outcome" where
  "get_ident_from_pat pat =
     (case pat of PIdent _ ident \<Rightarrow> Return ident | _ \<Rightarrow> Panic (Message ''unexpected `Pat`''))"

text \<open>One argument of a call: kept, or a variable to bind.\<close>

definition rewrite_fn_arg :: "expr \<Rightarrow> expr list \<times> pat list \<Rightarrow> (expr list \<times> pat list) outcome" where
  "rewrite_fn_arg arg acc =
     (case (arg, acc) of
        (EReference True (EPath segments), (args, output)) \<Rightarrow>
          and_then (rust_assert (length segments = 1) Assert_Failed) (\<lambda>_.
            Return (args, output @ [PIdent False (hd segments)]))
      | (EReference True _, _) \<Rightarrow> Panic (Message ''unexpected expr in fn arg'')
      | (_, (args, output)) \<Rightarrow> Return (args @ [arg], output))"

definition rewrite_fn_call :: "expr \<Rightarrow> expr list \<Rightarrow> stmt outcome" where
  "rewrite_fn_call func call_args =
     and_then (for_each rewrite_fn_arg call_args ([], [])) (\<lambda>(args, output).
       Return (SLocal (PTuple output) (Some (ECall func args))))"

definition rewrite_fn_stmt :: "stmt \<Rightarrow> stmt outcome" where
  "rewrite_fn_stmt stmt =
     (case stmt of
        SSemi (EAssign left right) \<Rightarrow>
          (case left of
             EUnary op e \<Rightarrow> if op = Deref then Return (SSemi (EAssign e right)) else Return stmt
           | _ \<Rightarrow> Return stmt)
      | SSemi (ECall func args) \<Rightarrow> rewrite_fn_call func args
      | _ \<Rightarrow> Return stmt)"

definition rewrite_fn_body ::
  "stmt list \<Rightarrow> (string \<times> rust_type) list \<Rightarrow> (string \<times> rust_type) list \<Rightarrow> stmt list outcome option" where
  "rewrite_fn_body statements outputs registry =
     map_option (\<lambda>r. and_then r (\<lambda>lets.
       and_then (try_map rewrite_fn_stmt statements) (\<lambda>stmts.
         Return (lets @ stmts @ [to_return_value outputs]))))
       (to_let_bindings registry outputs)"

definition split_input ::
  "fn_arg \<Rightarrow> fn_arg list \<times> (string \<times> rust_type) list \<Rightarrow> (fn_arg list \<times> (string \<times> rust_type) list) outcome" where
  "split_input arg acc =
     (case (arg, acc) of
        (FTyped pat (TReference True elem), (inputs, outputs)) \<Rightarrow>
          and_then (get_ident_from_pat pat) (\<lambda>ident.
          and_then (outputs_add ident elem outputs) (\<lambda>outputs. Return (inputs, outputs)))
      | (_, (inputs, outputs)) \<Rightarrow> Return (inputs @ [arg], outputs))"

definition rewrite_fn_as_const :: "(string \<times> rust_type) list \<Rightarrow> item_fn \<Rightarrow> item_fn outcome option" where
  "rewrite_fn_as_const registry func =
     (case for_each split_input (fn_inputs func) ([], []) of
        Panic p \<Rightarrow> Some (Panic p)
      | Return (inputs, outputs) \<Rightarrow>
          (case to_return_type outputs of
             Panic p \<Rightarrow> Some (Panic p)
           | Return output \<Rightarrow>
               map_option (\<lambda>r. and_then r (\<lambda>block.
                 Return (func\<lparr>constness := True, fn_inputs := inputs, fn_output := output, fn_block := block\<rparr>)))
                 (rewrite_fn_body (fn_block func) outputs registry)))"

section \<open>The file\<close>

definition is_sep :: "string \<Rightarrow> bool" where
  "is_sep s \<longleftrightarrow> take 2 s = ''::''"

fun split_path :: "string \<Rightarrow> string \<Rightarrow> string list" where
  "split_path seg [] = [seg]"
| "split_path seg (c # cs) =
     (if is_sep (c # cs) then seg # split_path [] (tl cs) else split_path (seg @ [c]) cs)"

definition build_path :: "string \<Rightarrow> string list" where
  "build_path path = split_path [] path"

definition build_attribute :: "string \<Rightarrow> string list \<Rightarrow> string list \<times> string list list" where
  "build_attribute name values = (build_path name, map build_path values)"

fun constify_items ::
  "item list \<Rightarrow> (string \<times> rust_type) list \<Rightarrow> item list outcome option" where
  "constify_items [] registry = Some (Return [])"
| "constify_items (IFn func # items) registry =
     (case rewrite_fn_as_const registry func of
        None \<Rightarrow> None
      | Some (Panic p) \<Rightarrow> Some (Panic p)
      | Some (Return func) \<Rightarrow>
          map_option (\<lambda>r. and_then r (\<lambda>items. Return (IFn func # items))) (constify_items items registry))"
| "constify_items (IType ident ty # items) registry =
     (case registry_add ident ty registry of
        Panic p \<Rightarrow> Some (Panic p)
      | Return registry \<Rightarrow>
          map_option (\<lambda>r. and_then r (\<lambda>items. Return (IType ident ty # items))) (constify_items items registry))"
| "constify_items (IOther # items) registry =
     map_option (\<lambda>r. and_then r (\<lambda>items. Return (IOther # items))) (constify_items items registry)"

definition constify_file :: "rust_file \<Rightarrow> rust_file outcome option" where
  "constify_file ast =
     (let ast = ast\<lparr>file_attrs := file_attrs ast @ [build_attribute ''allow''
        [''clippy::identity_op'', ''clippy::unnecessary_cast'', ''dead_code'', ''rustdoc::broken_intra_doc_links'',
         ''unused_assignments'', ''unused_mut'', ''unused_variables'']]\<rparr> in
      map_option (\<lambda>r. and_then r (\<lambda>items. Return (ast\<lparr>file_items := items\<rparr>))) (constify_items (file_items ast) []))"

text \<open>
  The program: its arguments, the file it reads, the parser and the printer of \<^verbatim>\<open>syn\<close> and \<^verbatim>\<open>quote\<close>, and the lines it prints.
\<close>

definition doc_line :: string where
  "doc_line = ''#![doc = \" fiat-crypto output postprocessed by fiat-constify: https://github.com/rustcrypto/utils\"]''"

definition fiat_main ::
  "(string \<Rightarrow> ('e, string) result) \<Rightarrow> (string \<Rightarrow> ('e, rust_file) result) \<Rightarrow> (rust_file \<Rightarrow> string) \<Rightarrow> string list
     \<Rightarrow> ('e, string list) result outcome option" where
  "fiat_main read_to_string parse_file tokens args =
     (if length args \<noteq> 2 then Some (Panic (Message ''Usage: fiat-constify /path/to/field_impl.rs''))
      else case read_to_string (args ! 1) of
          Err e \<Rightarrow> Some (Return (Err e))
        | Ok code \<Rightarrow>
            (case parse_file code of
               Err e \<Rightarrow> Some (Return (Err e))
             | Ok ast \<Rightarrow> map_option (\<lambda>r. and_then r (\<lambda>ast. Return (Ok [doc_line, tokens ast]))) (constify_file ast)))"

text \<open>Nothing is printed unless every function of the file is rewritten.\<close>

lemma fiat_main_prints:
  "fiat_main read_to_string parse_file tokens args = Some (Return (Ok out)) \<longleftrightarrow>
     (\<exists>prog path code ast ast'. args = [prog, path] \<and> read_to_string path = Ok code \<and> parse_file code = Ok ast \<and>
        constify_file ast = Some (Return ast') \<and> out = [doc_line, tokens ast'])"
  by (auto simp: fiat_main_def length_Suc_conv numeral_2_eq_2 split: result.splits)

section \<open>Parameters and outputs\<close>

text \<open>The parameters: an output is a mutable reference.\<close>

fun in_names :: "fn_arg list \<Rightarrow> string list" where
  "in_names (FTyped p (TReference True ty) # args) = in_names args"
| "in_names (FTyped (PIdent m x) ty # args) = x # in_names args"
| "in_names (_ # args) = in_names args"
| "in_names [] = []"

fun out_params :: "fn_arg list \<Rightarrow> (string \<times> rust_type) list" where
  "out_params (FTyped (PIdent m x) (TReference True ty) # args) = (x, ty) # out_params args"
| "out_params (_ # args) = out_params args"
| "out_params [] = []"

lemma btree_put_keys: "k \<notin> fst ` set m \<Longrightarrow> map fst (btree_put k v m) = insort k (map fst m)"
  by (induction m) (auto simp: less_le_not_le)

lemma btree_put_get: "sorted (map fst m) \<Longrightarrow> map_of (btree_put k v m) = (map_of m)(k \<mapsto> v)"
  by (induction m) (auto simp: fun_eq_iff)

lemma outputs_add_Return:
  "outputs_add name ty self = Return outs \<longleftrightarrow> name \<notin> fst ` set self \<and> outs = btree_put name ty self"
  by (auto simp: outputs_add_def map_of_eq_None_iff)

lemma in_names_append: "in_names (xs @ ys) = in_names xs @ in_names ys"
  by (induction xs rule: in_names.induct) auto

lemma split_input_out:
  "split_input (FTyped p (TReference True ty)) (ins, outs) = Return io \<longleftrightarrow>
     (\<exists>m x. p = PIdent m x \<and> x \<notin> fst ` set outs \<and> io = (ins, btree_put x ty outs))"
  by (auto simp: split_input_def get_ident_from_pat_def outputs_add_Return split: pat.splits)

lemma split_input_kept:
  assumes "\<nexists>p ty. arg = FTyped p (TReference True ty)"
  shows "split_input arg (ins, outs) = Return (ins @ [arg], outs)" and "out_params (arg # args) = out_params args"
  using assms
  by (auto simp: split_input_def split: fn_arg.splits rust_type.splits bool.splits)
    (cases "arg # args" rule: out_params.cases; auto)

lemma split_inputs:
  assumes "for_each split_input args (ins0, outs0) = Return (ins, outs)" and "sorted (map fst outs0)"
  shows "in_names ins = in_names ins0 @ in_names args \<and> sorted (map fst outs) \<and>
    fst ` set outs = fst ` set (out_params args) \<union> fst ` set outs0 \<and>
    map_of outs = map_of outs0 ++ map_of (rev (out_params args)) \<and>
    (distinct (map fst outs0) \<longrightarrow> distinct (map fst outs) \<and> distinct (map fst (out_params args) @ map fst outs0))"
  using assms
proof (induction args arbitrary: ins0 outs0)
  case (Cons arg args)
  show ?case
  proof (cases "\<exists>p ty. arg = FTyped p (TReference True ty)")
    case True
    then obtain p ty where arg: "arg = FTyped p (TReference True ty)" by blast
    with Cons.prems(1) obtain m x where x: "p = PIdent m x" "x \<notin> fst ` set outs0"
      "for_each split_input args (ins0, btree_put x ty outs0) = Return (ins, outs)"
      by (auto simp: split_input_out)
    have keys: "map fst (btree_put x ty outs0) = insort x (map fst outs0)"
      by (rule btree_put_keys[OF x(2)])
    with Cons.prems(2) have "sorted (map fst (btree_put x ty outs0))"
      by (simp add: sorted_insort)
    note IH = Cons.IH[OF x(3) this]
    have "fst ` set (btree_put x ty outs0) = insert x (fst ` set outs0)"
      using arg_cong[OF keys, of set] by (simp add: set_insort_key)
    with IH arg x keys Cons.prems(2) show ?thesis
      by (auto simp: btree_put_get distinct_insort set_insort_key fun_upd_def map_add_def fun_eq_iff split: option.splits)
  next
    case False
    with split_input_kept[OF this] Cons.IH[of "ins0 @ [arg]" outs0] Cons.prems in_names_append[of "[arg]" args] show ?thesis
      by (simp add: in_names_append)
  qed
qed auto

lemma map_of_rev: "distinct (map fst xs) \<Longrightarrow> map_of (rev xs) = map_of xs"
  by (subst map_of_inject_set) (auto simp: rev_map[symmetric])

lemma split_outputs:
  assumes "for_each split_input args ([], []) = Return (ins, outs)"
  shows "in_names ins = in_names args" and "sorted (map fst outs)" and "fst ` set outs = fst ` set (out_params args)"
    and "distinct (map fst outs)" and "distinct (map fst (out_params args))" and "map_of outs = map_of (out_params args)"
    and "set outs = set (out_params args)" and "sort (map fst (out_params args)) = map fst outs"
proof -
  show *: "in_names ins = in_names args" "sorted (map fst outs)" "fst ` set outs = fst ` set (out_params args)"
    "distinct (map fst outs)" "distinct (map fst (out_params args))" "map_of outs = map_of (out_params args)"
    using split_inputs[OF assms] by (simp_all add: map_of_rev)
  then show "set outs = set (out_params args)" using map_of_inject_set by blast
  show "sort (map fst (out_params args)) = map fst outs"
    using * by (intro sorted_distinct_set_unique) simp_all
qed

lemma rewrite_fn_as_constE:
  assumes "rewrite_fn_as_const registry func = Some (Return func')"
  obtains ins outs rt block where "for_each split_input (fn_inputs func) ([], []) = Return (ins, outs)"
    and "to_return_type outs = Return rt" and "rewrite_fn_body (fn_block func) outs registry = Some (Return block)"
    and "func' = func\<lparr>constness := True, fn_inputs := ins, fn_output := rt, fn_block := block\<rparr>"
  using assms by (auto simp: rewrite_fn_as_const_def split: outcome.splits prod.splits)

lemmas constify_simps = rewrite_fn_as_const_def rewrite_fn_body_def split_input_def get_ident_from_pat_def
  outputs_add_def to_return_type_def to_return_value_def rewrite_fn_stmt_def rewrite_fn_call_def rewrite_fn_arg_def

text \<open>An example: one output through a call and an index, the other through a dereference.\<close>

definition example_fn :: "string \<Rightarrow> string \<Rightarrow> item_fn" where
  "example_fn a b =
     \<lparr>fn_ident = ''f'', constness = False,
      fn_inputs = [FTyped (PIdent False a) (TReference True (TPath [''limbs''])),
        FTyped (PIdent False b) (TReference True (TPath [''u8''])),
        FTyped (PIdent False ''arg1'') (TPath [''u64''])],
      fn_output = None,
      fn_block =
        [SLocal (PType (PIdent True ''x1'') (TPath [''u64''])) (Some (ELit 0)),
         SSemi (ECall (EPath [''inc'']) [EReference True (EPath [''x1'']), EPath [''arg1'']]),
         SSemi (EAssign (EOther ''index'' [EPath [a], ELit 0]) (EPath [''x1''])),
         SSemi (EAssign (EUnary Deref (EPath [b])) (EPath [''arg1'']))]\<rparr>"

definition example_registry :: "(string \<times> rust_type) list" where
  "example_registry = [(''limbs'', TArray (TPath [''u64'']) (ELit 2))]"

section \<open>Termination\<close>

text \<open>Induction over the aliases a call follows; a call that follows none is decided at once.\<close>

definition follows :: "(string \<times> rust_type) list \<Rightarrow> rust_type \<Rightarrow> rust_type option" where
  "follows registry ty = (case ty of TPath [x] \<Rightarrow> registry_get registry x | _ \<Rightarrow> None)"

lemma follows_Some: "follows registry ty = Some t \<longleftrightarrow> (\<exists>x. ty = TPath [x] \<and> registry_get registry x = Some t)"
  by (auto simp: follows_def split: rust_type.splits list.splits)

lemma default_for_follows:
  "default_for registry ty =
     (case follows registry ty of
        Some t \<Rightarrow> default_for registry t
      | None \<Rightarrow>
          Some (case ty of
            TArray elem len \<Rightarrow> Return (ERepeat zero len)
          | TPath [x] \<Rightarrow>
              if x \<in> {''u8'', ''u32'', ''u64''} then Return zero else Panic (Message ''unsupported type'')
          | TPath _ \<Rightarrow> Panic Assert_Failed
          | _ \<Rightarrow> Panic (Message ''don't know how to build default value'')))"
  by (subst default_for.simps)
    (auto simp: follows_def Let_def length_Suc_conv split: rust_type.splits list.splits option.splits)

lemma default_for_follow_induct [consumes 1, case_names follow stop]:
  assumes "default_for registry ty = Some r"
    and follow: "\<And>ty t r. follows registry ty = Some t \<Longrightarrow> Q t r \<Longrightarrow> Q ty r"
    and stop: "\<And>ty r. follows registry ty = None \<Longrightarrow> default_for registry ty = Some r \<Longrightarrow> Q ty r"
  shows "Q ty r"
proof -
  have "registry = registry \<longrightarrow> Q ty r"
  proof (rule default_for.raw_induct[where P = "\<lambda>reg ty r. reg = registry \<longrightarrow> Q ty r", OF _ assms(1)])
    fix rec :: "(string \<times> rust_type) list \<Rightarrow> rust_type \<Rightarrow> expr outcome option" and reg ty r
    assume IH: "\<And>reg ty r. rec reg ty = Some r \<Longrightarrow> reg = registry \<longrightarrow> Q ty r"
      and r: "(case ty of TArray elem len \<Rightarrow> Some (Return (ERepeat zero len))
        | TPath segments \<Rightarrow>
            if length segments \<noteq> 1 then Some (Panic Assert_Failed)
            else let ident = hd segments in
              (case registry_get reg ident of
                 Some t \<Rightarrow> rec reg t
               | None \<Rightarrow>
                   if ident = ''u8'' \<or> ident = ''u32'' \<or> ident = ''u64'' then Some (Return zero)
                   else Some (Panic (Message ''unsupported type'')))
        | _ \<Rightarrow> Some (Panic (Message ''don't know how to build default value''))) = Some r"
    show "reg = registry \<longrightarrow> Q ty r"
    proof (cases "follows registry ty")
      case None
      with r have "reg = registry \<Longrightarrow> default_for registry ty = Some r"
        by (subst default_for.simps)
          (auto simp: follows_def Let_def length_Suc_conv split: rust_type.splits list.splits option.splits)
      with None show ?thesis by (auto intro: stop)
    next
      case (Some t)
      then obtain x where "ty = TPath [x]" "registry_get registry x = Some t" by (auto simp: follows_Some)
      with r IH Some show ?thesis by (auto intro: follow)
    qed
  qed
  then show ?thesis by simp
qed

lemma default_for_induct [consumes 1, case_names arr ali prim]:
  assumes "default_for registry ty = Some (Return e)"
    and arr: "\<And>elem len. Q (TArray elem len) (ERepeat zero len)"
    and ali: "\<And>x t e. registry_get registry x = Some t \<Longrightarrow> Q t e \<Longrightarrow> Q (TPath [x]) e"
    and prim: "\<And>x. registry_get registry x = None \<Longrightarrow> x \<in> {''u8'', ''u32'', ''u64''} \<Longrightarrow> Q (TPath [x]) zero"
  shows "Q ty e"
proof -
  have "Return e = Return e' \<longrightarrow> Q ty e'" for e'
    using assms(1)
  proof (induction rule: default_for_follow_induct)
    case (follow ty t r)
    then show ?case by (auto simp: follows_Some intro: ali)
  next
    case (stop ty r)
    then show ?case
      by (subst (asm) default_for_follows)
        (auto simp: follows_def intro: arr prim split: rust_type.splits list.splits if_splits)
  qed
  then show ?thesis by simp
qed

text \<open>Whether the recursion ends depends on the aliases only.\<close>

definition alias_step :: "(string \<times> rust_type) list \<Rightarrow> (string \<times> string) set" where
  "alias_step registry = {(y, x). registry_get registry x = Some (TPath [y])}"

lemma default_for_total:
  assumes "wf (alias_step registry)"
  shows "\<exists>r. default_for registry ty = Some r"
proof -
  have path: "\<exists>r. default_for registry (TPath [x]) = Some r" for x
    using assms
  proof (induction x rule: wf_induct_rule)
    case (less x)
    have "\<exists>r. default_for registry t = Some r" if "registry_get registry x = Some t" for t
    proof (cases "follows registry t")
      case None
      then show ?thesis by (subst default_for_follows) simp
    next
      case (Some u)
      with that less show ?thesis by (auto simp: alias_step_def follows_Some)
    qed
    then show ?case by (subst default_for_follows) (auto split: option.splits simp: follows_Some)
  qed
  show ?thesis
  proof (cases "follows registry ty")
    case None
    then show ?thesis by (subst default_for_follows) simp
  qed (use path in \<open>auto simp: follows_Some\<close>)
qed

lemma default_for_cyclic:
  assumes "(x, x) \<in> (alias_step registry)\<^sup>+"
  shows "default_for registry (TPath [x]) = None"
proof -
  have "ty = TPath [x] \<longrightarrow> (x, x) \<notin> (alias_step registry)\<^sup>+" if "default_for registry ty = Some r" for ty r x
    using that
  proof (induction arbitrary: x rule: default_for_follow_induct)
    case (follow ty t r)
    show ?case
    proof safe
      assume ty: "ty = TPath [x]" and "(x, x) \<in> (alias_step registry)\<^sup>+"
      then obtain z where z: "(x, z) \<in> (alias_step registry)\<^sup>*" "(z, x) \<in> alias_step registry"
        by (meson tranclD2)
      then have "(z, z) \<in> (alias_step registry)\<^sup>+" by (meson rtrancl_into_trancl2)
      moreover have "t = TPath [z]" using z(2) follow(1) ty by (simp add: alias_step_def follows_def)
      ultimately show False using follow(2) by blast
    qed
  next
    case (stop ty r)
    then show ?case by (auto simp: alias_step_def follows_def dest: tranclD2)
  qed
  with assms show ?thesis by (cases "default_for registry (TPath [x])") auto
qed

lemma registry_add_Return:
  assumes "registry_add ident ty self = Return self'" and "sorted (map fst self)"
  shows "sorted (map fst self')" and "registry_get self' = (registry_get self)(ident \<mapsto> ty)"
proof -
  from assms have new: "ident \<notin> fst ` set self" and self': "self' = btree_put ident ty self"
    by (auto simp: registry_add_def map_of_eq_None_iff split: if_splits)
  show "sorted (map fst self')" using assms(2) by (simp add: self' btree_put_keys[OF new] sorted_insort)
  show "registry_get self' = (registry_get self)(ident \<mapsto> ty)"
    using assms(2) by (auto simp: registry_get_def self' btree_put_get fun_eq_iff)
qed

lemma to_let_bindings_total:
  "wf (alias_step registry) \<Longrightarrow> \<exists>r. to_let_bindings registry outs = Some r"
proof (induction outs)
  case (Cons out outs)
  obtain x ty where "out = (x, ty)" by force
  with Cons default_for_total[OF Cons.prems, of ty] show ?case by (auto split: outcome.splits)
qed simp

lemma rewrite_fn_as_const_total:
  "wf (alias_step registry) \<Longrightarrow> \<exists>r. rewrite_fn_as_const registry func = Some r"
  using to_let_bindings_total[of registry]
  by (fastforce simp: rewrite_fn_as_const_def rewrite_fn_body_def split: outcome.splits prod.splits)

text \<open>The aliases of a file.\<close>

definition alias_pairs :: "item list \<Rightarrow> (string \<times> string) list" where
  "alias_pairs items = concat (map (\<lambda>i. case i of IType x (TPath [y]) \<Rightarrow> [(y, x)] | _ \<Rightarrow> []) items)"

lemma alias_pairs_Cons: "set (alias_pairs (i # items)) =
    (case i of IType x (TPath [y]) \<Rightarrow> {(y, x)} | _ \<Rightarrow> {}) \<union> set (alias_pairs items)"
  by (auto simp: alias_pairs_def split: item.splits rust_type.splits list.splits)

lemma constify_items_total:
  "\<lbrakk>sorted (map fst registry); alias_step registry \<subseteq> A; set (alias_pairs items) \<subseteq> A; wf A\<rbrakk> \<Longrightarrow>
     \<exists>r. constify_items items registry = Some r"
proof (induction items registry rule: constify_items.induct)
  case (2 func items registry)
  obtain r where r: "rewrite_fn_as_const registry func = Some r"
    using rewrite_fn_as_const_total wf_subset "2.prems" by blast
  show ?case
  proof (cases r)
    case (Return func')
    with "2.IH"[OF r Return] "2.prems" r show ?thesis by (auto simp: alias_pairs_Cons)
  qed (simp add: r)
next
  case (3 ident ty items registry)
  show ?case
  proof (cases "registry_add ident ty registry")
    case (Return self)
    note add = registry_add_Return[OF Return "3.prems"(1)]
    have "alias_step self \<subseteq> A"
      using "3.prems"(2,3) by (auto simp: alias_step_def add(2) alias_pairs_Cons split: if_splits)
    with "3.IH"[OF Return add(1)] "3.prems" Return show ?thesis
      by (auto simp: alias_pairs_Cons)
  qed simp
qed (auto simp: alias_pairs_Cons)

text \<open>
  (C28) The tool ends, with a file or a panic, on every file whose type aliases are not circular; on a circular alias the
  search for a default value does not end.
\<close>

theorem constify_file_terminates:
  "(acyclic (set (alias_pairs (file_items ast))) \<longrightarrow> (\<exists>r. constify_file ast = Some r)) \<and>
   ((x, x) \<in> (alias_step registry)\<^sup>+ \<longrightarrow> default_for registry (TPath [x]) = None)"
proof -
  have "\<exists>r. constify_items (file_items ast) [] = Some r" if "acyclic (set (alias_pairs (file_items ast)))"
    using that by (intro constify_items_total[of _ "set (alias_pairs (file_items ast))"] finite_acyclic_wf)
      (auto simp: alias_step_def registry_get_def)
  then show ?thesis
    by (auto simp: constify_file_def Let_def default_for_cyclic)
qed

theorem constify_file_terminates_witness:
  "(\<exists>r. constify_file \<lparr>file_attrs = [], file_items =
       [IType ''a'' (TPath [''b'']), IType ''b'' (TPath [''u64'']),
        IFn (example_fn ''out1'' ''out2'')]\<rparr> = Some r) \<and>
   default_for [(''a'', TPath [''a''])] (TPath [''a'']) = None"
proof -
  have "alias_pairs [IType ''a'' (TPath [''b'']), IType ''b'' (TPath [''u64'']), IFn (example_fn ''out1'' ''out2'')] =
      [(''b'', ''a''), (''u64'', ''b'')]"
    by (simp add: alias_pairs_def)
  moreover have "acyclic {(''b'', ''a''), (''u64'', ''b'')}"
    by (rule acyclic_subset[OF wf_acyclic[OF wf_measure[of "\<lambda>x. if x = ''a'' then 2 else if x = ''b'' then 1 else (0 :: nat)"]]])
      auto
  moreover have "(''a'', ''a'') \<in> (alias_step [(''a'', TPath [''a''])])\<^sup>+"
    by (auto simp: alias_step_def registry_get_def)
  ultimately show ?thesis
    using constify_file_terminates[of "\<lparr>file_attrs = [], file_items =
       [IType ''a'' (TPath [''b'']), IType ''b'' (TPath [''u64'']), IFn (example_fn ''out1'' ''out2'')]\<rparr>"
       "''a''" "[(''a'', TPath [''a''])]"] by simp
qed

section \<open>The rewritten file\<close>

definition is_mut_ref :: "fn_arg \<Rightarrow> bool" where
  "is_mut_ref arg = (case arg of FTyped _ (TReference m _) \<Rightarrow> m | _ \<Rightarrow> False)"

text \<open>What becomes of an item: a function loses its mutable references and returns its outputs; the rest stays.\<close>

definition item_rewritten :: "item \<Rightarrow> item \<Rightarrow> bool" where
  "item_rewritten i i' =
     (case (i, i') of
        (IFn func, IFn func') \<Rightarrow>
          fn_ident func' = fn_ident func \<and> constness func' \<and>
          fn_inputs func' = filter (Not \<circ> is_mut_ref) (fn_inputs func) \<and>
          out_params (fn_inputs func) \<noteq> [] \<and> distinct (map fst (out_params (fn_inputs func))) \<and>
          (\<exists>outs. map fst outs = sort (map fst (out_params (fn_inputs func))) \<and> set outs = set (out_params (fn_inputs func)) \<and>
            fn_output func' = Some (if length outs = 1 then snd (hd outs) else TTuple (map snd outs)) \<and>
            length (fn_block func') = length outs + length (fn_block func) + 1 \<and>
            last (fn_block func') = to_return_value outs)
      | _ \<Rightarrow> i' = i \<and> (\<forall>func. i \<noteq> IFn func))"

lemma split_inputs_kept:
  "for_each split_input args (ins0, outs0) = Return (ins, outs) \<Longrightarrow> ins = ins0 @ filter (Not \<circ> is_mut_ref) args"
proof (induction args arbitrary: ins0 outs0)
  case (Cons arg args)
  show ?case
  proof (cases "\<exists>p ty. arg = FTyped p (TReference True ty)")
    case True
    with Cons show ?thesis by (auto simp: is_mut_ref_def split_input_out)
  next
    case False
    then have "\<not> is_mut_ref arg" by (auto simp: is_mut_ref_def split: fn_arg.splits rust_type.splits)
    with split_input_kept(1)[OF False] Cons.IH[of "ins0 @ [arg]" outs0] Cons.prems show ?thesis by simp
  qed
qed simp

lemma to_let_bindings_length: "to_let_bindings registry outs = Some (Return lets) \<Longrightarrow> length lets = length outs"
  by (induction registry outs arbitrary: lets rule: to_let_bindings.induct) (auto split: option.splits outcome.splits)

lemma rewrite_fn_as_const_shape:
  assumes "rewrite_fn_as_const registry func = Some (Return func')"
  shows "item_rewritten (IFn func) (IFn func')"
proof -
  from assms obtain ins outs rt block where
    outs: "for_each split_input (fn_inputs func) ([], []) = Return (ins, outs)" "to_return_type outs = Return rt"
    "rewrite_fn_body (fn_block func) outs registry = Some (Return block)"
    and func': "func' = func\<lparr>constness := True, fn_inputs := ins, fn_output := rt, fn_block := block\<rparr>"
    by (rule rewrite_fn_as_constE)
  note names = split_outputs[OF outs(1)]
  from outs(3) obtain lets ss where
    "to_let_bindings registry outs = Some (Return lets)" "try_map rewrite_fn_stmt (fn_block func) = Return ss"
    "block = lets @ ss @ [to_return_value outs]"
    by (auto simp: rewrite_fn_body_def)
  then have "length block = length outs + length (fn_block func) + 1" "last block = to_return_value outs"
    by (auto simp: to_let_bindings_length try_map_Return)
  moreover have "outs \<noteq> []" "rt = Some (if length outs = 1 then snd (hd outs) else TTuple (map snd outs))"
    using outs(2) by (auto simp: to_return_type_def split: list.splits)
  moreover from this(1) names(7) have "out_params (fn_inputs func) \<noteq> []" by auto
  ultimately show ?thesis
    using names split_inputs_kept[OF outs(1)] by (auto simp: item_rewritten_def func' intro!: exI[of _ outs])
qed

text \<open>
  A file that is rewritten keeps its items and their order; every function of it has at least one output, becomes a
  \<open>const fn\<close> without mutable references, and its return type lists the outputs in the order of the value it returns.
\<close>

theorem constify_file_shape:
  assumes "constify_file ast = Some (Return ast')"
  shows "list_all2 item_rewritten (file_items ast) (file_items ast') \<and>
    (\<exists>attr. file_attrs ast' = file_attrs ast @ [attr] \<and> fst attr = [''allow''])"
proof -
  have "list_all2 item_rewritten items items'" if "constify_items items registry = Some (Return items')" for items registry items'
    using that
  proof (induction items registry arbitrary: items' rule: constify_items.induct)
    case (2 func items registry)
    then show ?case by (auto split: option.splits outcome.splits intro: rewrite_fn_as_const_shape)
  qed (auto simp: item_rewritten_def split: option.splits outcome.splits)
  with assms show ?thesis
    by (auto simp: constify_file_def Let_def build_attribute_def build_path_def is_sep_def)
qed

theorem constify_file_shape_witness:
  "\<exists>func'. constify_file \<lparr>file_attrs = [], file_items = [IType ''limbs'' (TArray (TPath [''u64'']) (ELit 2)),
       IFn (example_fn ''out1'' ''out2'')]\<rparr> =
     Some (Return \<lparr>file_attrs = [build_attribute ''allow''
        [''clippy::identity_op'', ''clippy::unnecessary_cast'', ''dead_code'', ''rustdoc::broken_intra_doc_links'',
         ''unused_assignments'', ''unused_mut'', ''unused_variables'']],
       file_items = [IType ''limbs'' (TArray (TPath [''u64'']) (ELit 2)), IFn func']\<rparr>) \<and>
     item_rewritten (IFn (example_fn ''out1'' ''out2'')) (IFn func')"
proof -
  obtain func' where f: "rewrite_fn_as_const example_registry (example_fn ''out1'' ''out2'') = Some (Return func')"
    by (simp add: constify_simps example_fn_def example_registry_def default_for.simps registry_get_def)
  have "constify_file \<lparr>file_attrs = [], file_items = [IType ''limbs'' (TArray (TPath [''u64'']) (ELit 2)),
       IFn (example_fn ''out1'' ''out2'')]\<rparr> =
     Some (Return \<lparr>file_attrs = [build_attribute ''allow''
        [''clippy::identity_op'', ''clippy::unnecessary_cast'', ''dead_code'', ''rustdoc::broken_intra_doc_links'',
         ''unused_assignments'', ''unused_mut'', ''unused_variables'']],
       file_items = [IType ''limbs'' (TArray (TPath [''u64'']) (ELit 2)), IFn func']\<rparr>)"
    using f by (simp add: constify_file_def registry_add_def example_registry_def)
  with constify_file_shape[OF this] show ?thesis by auto
qed

end
