(* ===== verification/Fiat_Semantics.thy ===== *)
theory Fiat_Semantics
  imports Fiat_Constify
begin

text \<open>
  What the rewriting of \<^verbatim>\<open>fiat-constify\<close> preserves.  Statements and functions are given a meaning, by reference before
  the rewriting and by value after it; a statement, a function and a whole file are shown to compute the same.  The
  default values are shown to have the type of the output they initialise.
\<close>

section \<open>Meaning of the statements\<close>

text \<open>
  Values are integers, arrays and tuples.  A program text sees variables in three ways: those it can read by their
  name, those it can index, and references it can read with \<open>*\<close>.  Before the rewriting an output parameter is a
  reference, indexed through but not a value; after it, a variable as any other.  Operators (\<open>P\<close>) and functions that
  return a value (\<open>F\<close>) are arguments.  \<open>None\<close> stands for everything that has no meaning here: a failing operation,
  code that the compiler refuses, and statements the rewriting leaves alone (nested blocks, items, macros).
  Types, mutability and borrows are not checked.
\<close>

datatype val = VInt int | VArr "val list" | VTuple "val list"

type_synonym env = "string \<rightharpoonup> val"
type_synonym prims = "string \<Rightarrow> val list \<Rightarrow> val option"

record view =
  readable :: env
  indexed :: env
  dereferenced :: env

definition elem_at :: "val \<Rightarrow> val \<Rightarrow> val option" where
  "elem_at a i =
     (case (a, i) of (VArr vs, VInt n) \<Rightarrow> if 0 \<le> n \<and> nat n < length vs then Some (vs ! nat n) else None | _ \<Rightarrow> None)"

definition set_elem :: "val \<Rightarrow> val \<Rightarrow> val \<Rightarrow> val option" where
  "set_elem a i v =
     (case (a, i) of
        (VArr vs, VInt n) \<Rightarrow> if 0 \<le> n \<and> nat n < length vs then Some (VArr (vs[nat n := v])) else None
      | _ \<Rightarrow> None)"

definition repeated :: "val \<Rightarrow> val \<Rightarrow> val option" where
  "repeated v n = (case n of VInt k \<Rightarrow> if 0 \<le> k then Some (VArr (replicate (nat k) v)) else None | _ \<Rightarrow> None)"

fun path_var :: "expr \<Rightarrow> string option" where
  "path_var (EPath [x]) = Some x"
| "path_var e = None"

fun eval :: "prims \<Rightarrow> prims \<Rightarrow> view \<Rightarrow> expr \<Rightarrow> val option" where
  "eval P F V (EPath segments) = Option.bind (path_var (EPath segments)) (readable V)"
| "eval P F V (EReference m e) = (if m then None else eval P F V e)"
| "eval P F V (EUnary op e) =
     (case op of
        Deref \<Rightarrow> Option.bind (path_var e) (dereferenced V)
      | UnNot \<Rightarrow> Option.bind (eval P F V e) (\<lambda>v. P ''!'' [v])
      | UnNeg \<Rightarrow> Option.bind (eval P F V e) (\<lambda>v. P ''-'' [v]))"
| "eval P F V (ECall f es) =
     Option.bind (path_var f) (\<lambda>f. Option.bind (those (map (eval P F V) es)) (F f))"
| "eval P F V (EAssign l r) = None"
| "eval P F V (ELit n) = Some (VInt n)"
| "eval P F V (ERepeat e len) =
     Option.bind (eval P F V e) (\<lambda>v. Option.bind (eval P F V len) (repeated v))"
| "eval P F V (ETuple es) = map_option VTuple (those (map (eval P F V) es))"
| "eval P F V (EOther op es) =
     (case (op = ''index'', es) of
        (True, [EPath [x], i]) \<Rightarrow>
          Option.bind (indexed V x) (\<lambda>a. Option.bind (eval P F V i) (elem_at a))
      | _ \<Rightarrow> Option.bind (those (map (eval P F V) es)) (P op))"

text \<open>A one-element pattern in parentheses is printed without a trailing comma: it is the pattern itself.\<close>

fun bind_pat :: "pat \<Rightarrow> val \<Rightarrow> env \<Rightarrow> env option"
  and bind_pats :: "pat list \<Rightarrow> val list \<Rightarrow> env \<Rightarrow> env option" where
  "bind_pat (PIdent m x) v \<rho> = Some (\<rho>(x \<mapsto> v))"
| "bind_pat (PType p ty) v \<rho> = bind_pat p v \<rho>"
| "bind_pat (PTuple ps) v \<rho> =
     (case (ps, v) of
        ([p], _) \<Rightarrow> bind_pat p v \<rho>
      | (_, VTuple vs) \<Rightarrow> bind_pats ps vs \<rho>
      | _ \<Rightarrow> None)"
| "bind_pat POther v \<rho> = None"
| "bind_pats [] [] \<rho> = Some \<rho>"
| "bind_pats (p # ps) (v # vs) \<rho> = Option.bind (bind_pat p v \<rho>) (bind_pats ps vs)"
| "bind_pats _ _ \<rho> = None"

definition pack :: "val list \<Rightarrow> val" where
  "pack vs = (if length vs = 1 then hd vs else VTuple vs)"

text \<open>
  The original: \<open>L\<close> are the parameters and variables, \<open>R\<close> what the output parameters refer to; a call \<open>C f\<close> takes the
  values of its other arguments and those of the variables lent to it, and gives the new values of the latter.
\<close>

definition ref_view :: "env \<Rightarrow> env \<Rightarrow> view" where
  "ref_view L R = \<lparr>readable = L, indexed = R ++ L, dereferenced = R |` (- dom L)\<rparr>"

definition lent_var :: "expr \<Rightarrow> string option" where
  "lent_var arg = (case arg of EReference True e \<Rightarrow> path_var e | _ \<Rightarrow> None)"

definition is_lent :: "expr \<Rightarrow> bool" where
  "is_lent arg = (case arg of EReference m _ \<Rightarrow> m | _ \<Rightarrow> False)"

definition call_ref ::
  "prims \<Rightarrow> prims \<Rightarrow> (string \<Rightarrow> val list \<Rightarrow> val list \<Rightarrow> val list option) \<Rightarrow> string \<Rightarrow> expr list \<Rightarrow> env \<Rightarrow> env \<Rightarrow> env option" where
  "call_ref P F C f args L R =
     Option.bind (those (map (eval P F (ref_view L R)) (filter (Not \<circ> is_lent) args))) (\<lambda>ins.
     Option.bind (those (map lent_var (filter is_lent args))) (\<lambda>xs.
     Option.bind (those (map L xs)) (\<lambda>outs.
     Option.bind (C f ins outs) (\<lambda>outs'.
       if distinct xs \<and> length outs' = length xs then Some (L(xs [\<mapsto>] outs')) else None))))"

definition assign_ref :: "prims \<Rightarrow> prims \<Rightarrow> expr \<Rightarrow> val \<Rightarrow> env \<Rightarrow> env \<Rightarrow> (env \<times> env) option" where
  "assign_ref P F place v L R =
     (case place of
        EPath [x] \<Rightarrow> if L x \<noteq> None then Some (L(x \<mapsto> v), R) else None
      | EUnary Deref (EPath [x]) \<Rightarrow> if L x = None \<and> R x \<noteq> None then Some (L, R(x \<mapsto> v)) else None
      | EOther op [EPath [x], i] \<Rightarrow>
          if op \<noteq> ''index'' then None
          else
            Option.bind (eval P F (ref_view L R) i) (\<lambda>i.
            Option.bind ((R ++ L) x) (\<lambda>a.
            Option.bind (set_elem a i v) (\<lambda>a.
              if L x \<noteq> None then Some (L(x \<mapsto> a), R) else Some (L, R(x \<mapsto> a)))))
      | _ \<Rightarrow> None)"

definition exec_ref ::
  "prims \<Rightarrow> prims \<Rightarrow> (string \<Rightarrow> val list \<Rightarrow> val list \<Rightarrow> val list option) \<Rightarrow> stmt \<Rightarrow> env \<times> env \<Rightarrow> (env \<times> env) option" where
  "exec_ref P F C s LR =
     (case LR of (L, R) \<Rightarrow>
       (case s of
          SLocal p (Some e) \<Rightarrow>
            Option.bind (eval P F (ref_view L R) e) (\<lambda>v. map_option (\<lambda>L. (L, R)) (bind_pat p v L))
        | SSemi (EAssign place e) \<Rightarrow>
            Option.bind (eval P F (ref_view L R) e) (\<lambda>v. assign_ref P F place v L R)
        | SSemi (ECall (EPath [f]) args) \<Rightarrow> map_option (\<lambda>L. (L, R)) (call_ref P F C f args L R)
        | _ \<Rightarrow> None))"

text \<open>The rewritten function: variables only, and a last expression that is its value.\<close>

definition val_view :: "env \<Rightarrow> view" where
  "val_view \<rho> = \<lparr>readable = \<rho>, indexed = \<rho>, dereferenced = Map.empty\<rparr>"

definition assign_val :: "prims \<Rightarrow> prims \<Rightarrow> expr \<Rightarrow> val \<Rightarrow> env \<Rightarrow> env option" where
  "assign_val P F place v \<rho> =
     (case place of
        EPath [x] \<Rightarrow> if \<rho> x \<noteq> None then Some (\<rho>(x \<mapsto> v)) else None
      | EOther op [EPath [x], i] \<Rightarrow>
          if op \<noteq> ''index'' then None
          else
            Option.bind (eval P F (val_view \<rho>) i) (\<lambda>i.
            Option.bind (\<rho> x) (\<lambda>a. map_option (\<lambda>a. \<rho>(x \<mapsto> a)) (set_elem a i v)))
      | _ \<Rightarrow> None)"

definition exec_val :: "prims \<Rightarrow> prims \<Rightarrow> stmt \<Rightarrow> env \<Rightarrow> env option" where
  "exec_val P F s \<rho> =
     (case s of
        SLocal p (Some e) \<Rightarrow> Option.bind (eval P F (val_view \<rho>) e) (\<lambda>v. bind_pat p v \<rho>)
      | SSemi (EAssign place e) \<Rightarrow> Option.bind (eval P F (val_view \<rho>) e) (\<lambda>v. assign_val P F place v \<rho>)
      | _ \<Rightarrow> None)"

fun exec_all :: "('s \<Rightarrow> 'e \<Rightarrow> 'e option) \<Rightarrow> 's list \<Rightarrow> 'e \<Rightarrow> 'e option" where
  "exec_all step [] \<rho> = Some \<rho>"
| "exec_all step (s # ss) \<rho> = Option.bind (step s \<rho>) (exec_all step ss)"

definition run_ref ::
  "prims \<Rightarrow> prims \<Rightarrow> (string \<Rightarrow> val list \<Rightarrow> val list \<Rightarrow> val list option) \<Rightarrow> item_fn \<Rightarrow> val list \<Rightarrow> val list \<Rightarrow> val list option" where
  "run_ref P F C func ins outs =
     (let names = map fst (out_params (fn_inputs func)) in
      Option.bind (exec_all (exec_ref P F C) (fn_block func)
        ([in_names (fn_inputs func) [\<mapsto>] ins], [names [\<mapsto>] outs])) (\<lambda>(L, R). those (map R names)))"

definition run_val :: "prims \<Rightarrow> prims \<Rightarrow> item_fn \<Rightarrow> val list \<Rightarrow> val option" where
  "run_val P F func ins =
     (case rev (fn_block func) of
        SExpr e # ss \<Rightarrow>
          Option.bind (exec_all (exec_val P F) (rev ss) [in_names (fn_inputs func) [\<mapsto>] ins]) (\<lambda>\<rho>. eval P F (val_view \<rho>) e)
      | _ \<Rightarrow> None)"

text \<open>What a body must not do: read an output with \<open>*\<close>, or declare a variable with the name of one.\<close>

fun derefs :: "expr \<Rightarrow> bool" where
  "derefs (EReference m e) = derefs e"
| "derefs (EUnary op e) = (op = Deref \<or> derefs e)"
| "derefs (ECall f es) = list_ex derefs es"
| "derefs (ERepeat e len) = (derefs e \<or> derefs len)"
| "derefs (ETuple es) = list_ex derefs es"
| "derefs (EOther op es) = list_ex derefs es"
| "derefs _ = False"

fun pat_vars :: "pat \<Rightarrow> string list" where
  "pat_vars (PIdent m x) = [x]"
| "pat_vars (PType p ty) = pat_vars p"
| "pat_vars (PTuple ps) = concat (map pat_vars ps)"
| "pat_vars POther = []"

fun writes_only :: "string list \<Rightarrow> stmt \<Rightarrow> bool" where
  "writes_only outs (SLocal p (Some e)) = (\<not> derefs e \<and> list_all (\<lambda>x. x \<notin> set outs) (pat_vars p))"
| "writes_only outs (SSemi (EAssign (EOther op es) e)) = (\<not> list_ex derefs es \<and> \<not> derefs e)"
| "writes_only outs (SSemi (EAssign place e)) = (\<not> derefs e)"
| "writes_only outs (SSemi (ECall f args)) = (\<not> list_ex derefs args)"
| "writes_only outs _ = True"

section \<open>One statement\<close>

lemma those_eq_Some: "those xs = Some ys \<longleftrightarrow> xs = map Some ys"
proof (induction xs arbitrary: ys)
  case (Cons x xs)
  then show ?case by (cases ys) (auto split: option.splits)
qed auto

lemma those_map_mono:
  assumes "those (map f xs) = Some ys" and "\<And>x y. x \<in> set xs \<Longrightarrow> f x = Some y \<Longrightarrow> g x = Some y"
  shows "those (map g xs) = Some ys"
proof -
  have "length ys = length xs" "\<And>i. i < length xs \<Longrightarrow> f (xs ! i) = Some (ys ! i)"
    using assms(1) unfolding those_eq_Some by (auto simp: list_eq_iff_nth_eq)
  with assms(2) show ?thesis
    unfolding those_eq_Some by (auto simp: list_eq_iff_nth_eq)
qed

lemma those_map_dom: "those (map m xs) = Some ys \<Longrightarrow> set xs \<subseteq> dom m"
  by (induction xs arbitrary: ys) (auto split: option.splits)

lemma those_map_zip:
  "those (map m xs) = Some ys \<Longrightarrow> distinct xs \<Longrightarrow> x \<in> set xs \<Longrightarrow> m x = Some (the (map_of (zip xs ys) x))"
  by (induction xs arbitrary: ys) (auto split: option.splits)

lemma those_map_Some: "(\<And>x. x \<in> set xs \<Longrightarrow> m x = Some (f x)) \<Longrightarrow> those (map m xs) = Some (map f xs)"
  by (induction xs) auto

lemma those_map_the: "those (map m xs) = Some ys \<Longrightarrow> ys = map (the \<circ> m) xs"
  by (induction xs arbitrary: ys) (auto split: option.splits)

lemma those_zip_values:
  assumes "those (map m xs) = Some ys" and "distinct xs"
  shows "map (\<lambda>x. the (map_of (zip xs ys) x)) xs = ys"
  using those_map_the[OF assms(1)] those_map_zip[OF assms] by auto

lemma eval_index:
  "eval P F V (EOther ''index'' [EPath [x], i]) =
     Option.bind (indexed V x) (\<lambda>a. Option.bind (eval P F V i) (elem_at a))"
  by simp

lemma case_operator:
  "\<not> (\<exists>x i. c \<and> es = [EPath [x], i]) \<Longrightarrow> (case (c, es) of (True, [EPath [x], i]) \<Rightarrow> A x i | _ \<Rightarrow> B) = B"
  by (auto split: list.splits expr.splits bool.splits)

lemma eval_operator:
  assumes "\<not> (\<exists>x i. op = ''index'' \<and> es = [EPath [x], i])"
  shows "eval P F V (EOther op es) = Option.bind (those (map (eval P F V) es)) (P op)"
  using case_operator[OF assms] by (simp only: eval.simps)

lemma map_le_Some: "m \<subseteq>\<^sub>m m' \<Longrightarrow> m x = Some y \<Longrightarrow> m' x = Some y"
  by (metis domI map_le_def)

text \<open>More variables and functions do not change a value.\<close>

lemma eval_mono:
  assumes "eval P F V e = Some v"
    and le: "readable V \<subseteq>\<^sub>m readable V'" "indexed V \<subseteq>\<^sub>m indexed V'"
    and "derefs e \<Longrightarrow> dereferenced V \<subseteq>\<^sub>m dereferenced V'"
    and F: "\<And>f vs w. F f vs = Some w \<Longrightarrow> F' f vs = Some w" and P: "\<And>f vs w. P f vs = Some w \<Longrightarrow> P' f vs = Some w"
  shows "eval P' F' V' e = Some v"
  using assms(1,4)
proof (induction e arbitrary: v)
  case (EPath segs)
  with le show ?case by (auto simp: bind_eq_Some_conv intro: map_le_Some)
next
  case (EUnary op e)
  then show ?case by (cases op) (auto simp: bind_eq_Some_conv intro: map_le_Some P)
next
  case (ECall f es)
  then obtain g vs where g: "path_var f = Some g" "those (map (eval P F V) es) = Some vs" "F g vs = Some v"
    by (auto simp: bind_eq_Some_conv)
  have "those (map (eval P' F' V') es) = Some vs"
    using ECall by (intro those_map_mono[OF g(2)]) (auto simp: list_ex_iff)
  with g F show ?case by simp
next
  case (ERepeat e len)
  then show ?case by (fastforce simp: bind_eq_Some_conv)
next
  case (ETuple es)
  then obtain vs where g: "those (map (eval P F V) es) = Some vs" "v = VTuple vs"
    by auto
  have "those (map (eval P' F' V') es) = Some vs"
    using ETuple by (intro those_map_mono[OF g(1)]) (auto simp: list_ex_iff)
  with g show ?case by simp
next
  case (EOther op es)
  show ?case
  proof (cases "\<exists>x i. op = ''index'' \<and> es = [EPath [x], i]")
    case True
    then obtain x i where x: "op = ''index''" "es = [EPath [x], i]" by blast
    with EOther.prems(1) obtain a j where
      a: "indexed V x = Some a" "eval P F V i = Some j" "elem_at a j = Some v"
      by (auto simp: bind_eq_Some_conv)
    have "indexed V' x = Some a" by (rule map_le_Some[OF le(2) a(1)])
    moreover have "eval P' F' V' i = Some j"
      using x EOther.prems by (intro EOther.IH) (auto simp: a)
    ultimately show ?thesis using x a by simp
  next
    case False
    then obtain vs where g: "those (map (eval P F V) es) = Some vs" "P op vs = Some v"
      using EOther.prems(1) by (auto simp: eval_operator bind_eq_Some_conv simp del: eval.simps)
    have "those (map (eval P' F' V') es) = Some vs"
      using EOther by (intro those_map_mono[OF g(1)]) (auto simp: list_ex_iff simp del: eval.simps)
    with g P show ?thesis by (simp add: eval_operator[OF False] del: eval.simps)
  qed
qed (auto split: if_splits)

lemma eval_ref_val:
  assumes "eval P F (ref_view L R) e = Some v" and "\<not> derefs e" and "\<And>f vs w. F f vs = Some w \<Longrightarrow> F' f vs = Some w"
  shows "eval P F' (val_view (R ++ L)) e = Some v"
  using assms by (elim eval_mono) (auto simp: ref_view_def val_view_def map_le_map_add)

lemma bind_pat_add:
  "bind_pat p v L = Some L' \<Longrightarrow> bind_pat p v (R ++ L) = Some (R ++ L') \<and> dom L' \<subseteq> dom L \<union> set (pat_vars p)"
  "bind_pats ps vs L = Some L' \<Longrightarrow>
     bind_pats ps vs (R ++ L) = Some (R ++ L') \<and> dom L' \<subseteq> dom L \<union> set (concat (map pat_vars ps))"
proof (induction p v L and ps vs L arbitrary: L' and L' rule: bind_pat_bind_pats.induct)
  case (3 ps v \<rho>)
  show ?case
  proof (cases "\<exists>p. ps = [p]")
    case True
    with 3 show ?thesis by fastforce
  next
    case False
    with "3.prems" obtain vs where "v = VTuple vs" "bind_pats ps vs \<rho> = Some L'"
      by (auto split: list.splits val.splits)
    with 3 False show ?thesis by (auto split: list.splits)
  qed
next
  case (6 p ps v vs \<rho>)
  from "6.prems" obtain \<rho>' where "bind_pat p v \<rho> = Some \<rho>'" "bind_pats ps vs \<rho>' = Some L'"
    by (auto simp: bind_eq_Some_conv)
  with "6.IH"(1)[of \<rho>'] "6.IH"(2)[of \<rho>' L'] have
    "bind_pats (p # ps) (v # vs) (R ++ \<rho>) = Some (R ++ L')" "dom \<rho>' \<subseteq> dom \<rho> \<union> set (pat_vars p)"
    "dom L' \<subseteq> dom \<rho>' \<union> set (concat (map pat_vars ps))"
    by simp_all
  moreover from this(2,3) have "dom L' \<subseteq> dom \<rho> \<union> set (concat (map pat_vars (p # ps)))"
    by (simp del: set_concat) blast
  ultimately show ?case by blast
qed auto

lemma bind_lent:
  assumes "length outs = length xs"
  shows "bind_pat (PTuple (map (PIdent False) xs)) (pack outs) \<rho> = Some (\<rho>(xs [\<mapsto>] outs))"
proof -
  have *: "length outs = length xs \<Longrightarrow> bind_pats (map (PIdent False) xs) outs \<rho> = Some (\<rho>(xs [\<mapsto>] outs))" for xs outs \<rho>
    by (induction xs arbitrary: outs \<rho>) (auto simp: length_Suc_conv)
  show ?thesis
  proof (cases xs)
    case (Cons x ys)
    with assms *[of outs xs \<rho>] show ?thesis by (cases ys; cases outs) (auto simp: pack_def)
  qed (use assms in \<open>auto simp: pack_def\<close>)
qed

lemma rewrite_fn_arg_lent:
  "is_lent arg \<Longrightarrow> lent_var arg = Some x \<Longrightarrow>
     rewrite_fn_arg arg (args, pats) = Return (args, pats @ [PIdent False x])"
  by (auto simp: is_lent_def lent_var_def rewrite_fn_arg_def split: expr.splits bool.splits elim!: path_var.elims)

lemma rewrite_fn_arg_kept:
  "\<not> is_lent arg \<Longrightarrow> rewrite_fn_arg arg (args, pats) = Return (args @ [arg], pats)"
  by (auto simp: is_lent_def rewrite_fn_arg_def split: expr.splits bool.splits)

lemma rewrite_fn_args:
  "those (map lent_var (filter is_lent call_args)) = Some xs \<Longrightarrow>
   for_each rewrite_fn_arg call_args (args, pats) =
     Return (args @ filter (Not \<circ> is_lent) call_args, pats @ map (PIdent False) xs)"
proof (induction call_args arbitrary: args pats xs)
  case (Cons a as)
  then show ?case
    by (cases "is_lent a") (auto simp: rewrite_fn_arg_lent rewrite_fn_arg_kept split: option.splits)
qed simp

lemma merged_upds: "R ++ L(xs [\<mapsto>] vs) = (R ++ L)(xs [\<mapsto>] vs)"
  by (simp add: map_upds_def)

text \<open>Rewritten callees return what the original ones write, packed; other functions are the same.\<close>

definition constified ::
  "prims \<Rightarrow> (string \<Rightarrow> val list \<Rightarrow> val list \<Rightarrow> val list option) \<Rightarrow> prims \<Rightarrow> bool" where
  "constified F C F' \<longleftrightarrow>
     (\<forall>f ins v. F f ins = Some v \<longrightarrow> F' f ins = Some v) \<and>
     (\<forall>f ins outs outs'. C f ins outs = Some outs' \<longrightarrow> F' f ins = Some (pack outs'))"

lemma call_ref_val:
  assumes "call_ref P F C f args L R = Some L'" and "\<not> list_ex derefs args" and ok: "constified F C F'"
  obtains s where "rewrite_fn_call (EPath [f]) args = Return s"
    and "exec_val P F' s (R ++ L) = Some (R ++ L')" and "dom L' = dom L"
proof -
  from assms(1) obtain ins xs outs outs' where
    ins: "those (map (eval P F (ref_view L R)) (filter (Not \<circ> is_lent) args)) = Some ins" and
    xs: "those (map lent_var (filter is_lent args)) = Some xs" and outs: "those (map L xs) = Some outs" and
    C: "C f ins outs = Some outs'" and len: "length outs' = length xs" and L': "L' = L(xs [\<mapsto>] outs')"
    by (auto simp: call_ref_def bind_eq_Some_conv split: if_splits)
  have "those (map (eval P F' (val_view (R ++ L))) (filter (Not \<circ> is_lent) args)) = Some ins"
    using assms(2) ok
    by (intro those_map_mono[OF ins]) (auto simp: list_ex_iff constified_def intro: eval_ref_val)
  moreover have "F' f ins = Some (pack outs')" using ok C by (simp add: constified_def)
  moreover have "set xs \<subseteq> dom L"
    by (rule those_map_dom[OF outs])
  ultimately show ?thesis
    using that rewrite_fn_args[OF xs, of "[]" "[]"]
    by (auto simp: rewrite_fn_call_def exec_val_def bind_lent[OF len] L' merged_upds len simp del: bind_pat.simps)
qed

lemma assign_ref_val:
  assumes "assign_ref P F place v L R = Some (L', R')" and "writes_only outs (SSemi (EAssign place e))"
    and ok: "constified F C F'"
  obtains place' where "rewrite_fn_stmt (SSemi (EAssign place e)) = Return (SSemi (EAssign place' e))"
    and "assign_val P F' place' v (R ++ L) = Some (R' ++ L')" and "dom L' = dom L" and "dom R' = dom R"
proof -
  note mono = eval_ref_val[where F = F and F' = F']
  show ?thesis
  proof (cases place)
    case (EPath segs)
    with assms(1) obtain x where "segs = [x]" "L x \<noteq> None" "L' = L(x \<mapsto> v)" "R' = R"
      by (auto simp: assign_ref_def split: list.splits if_splits)
    with EPath that[of place] show ?thesis
      by (auto simp: rewrite_fn_stmt_def assign_val_def map_add_Some_iff)
  next
    case (EUnary op e')
    with assms(1) obtain x where "op = Deref" "e' = EPath [x]" "L x = None" "R x \<noteq> None" "L' = L" "R' = R(x \<mapsto> v)"
      by (auto simp: assign_ref_def split: un_op.splits expr.splits list.splits if_splits)
    with EUnary that[of e'] show ?thesis
      by (auto simp: rewrite_fn_stmt_def assign_val_def map_add_Some_iff domIff map_add_upd_left)
  next
    case (EOther op es)
    with assms(1) obtain x i j a b where
      i: "op = ''index''" "es = [EPath [x], i]" "eval P F (ref_view L R) i = Some j" "(R ++ L) x = Some a"
        "set_elem a j v = Some b"
      and upd: "if L x \<noteq> None then L' = L(x \<mapsto> b) \<and> R' = R else L' = L \<and> R' = R(x \<mapsto> b)"
      by (auto simp: assign_ref_def bind_eq_Some_conv split: list.splits expr.splits if_splits)
    have "eval P F' (val_view (R ++ L)) i = Some j"
      using i EOther assms(2) ok by (intro mono) (auto simp: constified_def)
    moreover have "R' ++ L' = (R ++ L)(x \<mapsto> b)"
      using upd by (auto simp: map_add_upd_left domIff split: if_splits)
    moreover have "dom L' = dom L" "dom R' = dom R"
      using upd i(4) by (auto simp: map_add_Some_iff split: if_splits)
    ultimately show ?thesis
      using EOther i that[of place] by (auto simp: rewrite_fn_stmt_def assign_val_def)
  qed (use assms(1) in \<open>auto simp: assign_ref_def\<close>)
qed

lemma path_var_Some: "path_var e = Some x \<longleftrightarrow> e = EPath [x]"
  by (cases e rule: path_var.cases) auto

lemma exec_ref_call:
  "exec_ref P F C (SSemi (ECall f args)) (L, R) =
     Option.bind (path_var f) (\<lambda>g. map_option (\<lambda>L. (L, R)) (call_ref P F C g args L R))"
  by (cases f rule: path_var.cases) (simp_all add: exec_ref_def)

lemma step_ref_val:
  assumes exec: "exec_ref P F C s (L, R) = Some (L', R')" and w: "writes_only outs s"
    and dom: "dom R = set outs" "dom L \<inter> dom R = {}" and ok: "constified F C F'"
  obtains s' where "rewrite_fn_stmt s = Return s'" and "exec_val P F' s' (R ++ L) = Some (R' ++ L')"
    and "dom R' = set outs" and "dom L' \<inter> dom R' = {}"
proof -
  have F: "F f vs = Some v \<Longrightarrow> F' f vs = Some v" for f vs v
    using ok by (simp add: constified_def)
  show ?thesis
  proof (cases s)
    case (SLocal p init)
    with exec obtain e v where e: "init = Some e" "eval P F (ref_view L R) e = Some v" "bind_pat p v L = Some L'" "R' = R"
      by (auto simp: exec_ref_def bind_eq_Some_conv split: option.splits)
    have "eval P F' (val_view (R ++ L)) e = Some v"
      using e w SLocal F by (auto intro: eval_ref_val)
    moreover note b = bind_pat_add(1)[OF e(3), of R]
    moreover have "set (pat_vars p) \<inter> set outs = {}"
      using w SLocal e by (auto simp: list_all_iff)
    with b dom have "dom L' \<inter> set outs = {}" by blast
    ultimately show ?thesis
      using that[of s] SLocal e dom by (auto simp: rewrite_fn_stmt_def exec_val_def)
  next
    case (SSemi e)
    show ?thesis
    proof (cases e)
      case (EAssign place r)
      with SSemi exec obtain v where
        v: "eval P F (ref_view L R) r = Some v" "assign_ref P F place v L R = Some (L', R')"
        by (auto simp: exec_ref_def bind_eq_Some_conv)
      from v(2) w SSemi EAssign obtain place' where
        place: "rewrite_fn_stmt s = Return (SSemi (EAssign place' r))"
        "assign_val P F' place' v (R ++ L) = Some (R' ++ L')" "dom L' = dom L" "dom R' = dom R"
        using assign_ref_val[OF v(2) _ ok] by metis
      have "\<not> derefs r" using w SSemi EAssign by (cases place) auto
      with v F have "eval P F' (val_view (R ++ L)) r = Some v" by (auto intro: eval_ref_val)
      with place dom that show ?thesis by (auto simp: exec_val_def)
    next
      case (ECall f args)
      with SSemi exec have "exec_ref P F C (SSemi (ECall f args)) (L, R) = Some (L', R')" by simp
      then obtain g where g: "f = EPath [g]" "call_ref P F C g args L R = Some L'" "R' = R"
        by (auto simp: exec_ref_call bind_eq_Some_conv path_var_Some)
      have "\<not> list_ex derefs args" using w SSemi ECall by simp
      then obtain s' where s': "rewrite_fn_call (EPath [g]) args = Return s'"
        "exec_val P F' s' (R ++ L) = Some (R ++ L')" "dom L' = dom L"
        by (rule call_ref_val[OF g(2) _ ok])
      with g SSemi ECall have "rewrite_fn_stmt s = Return s'" by (simp add: rewrite_fn_stmt_def)
      with s' g dom that show ?thesis by simp
    qed (use exec SSemi in \<open>auto simp: exec_ref_def\<close>)
  qed (use exec in \<open>auto simp: exec_ref_def\<close>)
qed

lemma steps_ref_val:
  assumes "exec_all (exec_ref P F C) ss (L, R) = Some (L', R')" and "list_all (writes_only outs) ss"
    and "dom R = set outs" "dom L \<inter> dom R = {}" and ok: "constified F C F'"
  shows "\<exists>ss'. try_map rewrite_fn_stmt ss = Return ss' \<and> exec_all (exec_val P F') ss' (R ++ L) = Some (R' ++ L') \<and>
    dom R' = set outs \<and> dom L' \<inter> dom R' = {}"
  using assms(1-4)
proof (induction ss arbitrary: L R)
  case (Cons s ss)
  from Cons.prems(1) obtain L1 R1 where
    1: "exec_ref P F C s (L, R) = Some (L1, R1)" "exec_all (exec_ref P F C) ss (L1, R1) = Some (L', R')"
    by (auto simp: bind_eq_Some_conv)
  from Cons.prems(2) have w: "writes_only outs s" "list_all (writes_only outs) ss" by simp_all
  obtain s' where s': "rewrite_fn_stmt s = Return s'" "exec_val P F' s' (R ++ L) = Some (R1 ++ L1)"
    "dom R1 = set outs" "dom L1 \<inter> dom R1 = {}"
    by (rule step_ref_val[OF 1(1) w(1) Cons.prems(3,4) ok])
  from Cons.IH[OF 1(2) w(2) s'(3,4)] s' show ?case by auto
qed auto

text \<open>The value an output starts with: that of its default expression, which uses no variable, operator or function.\<close>

definition no_prims :: prims where
  "no_prims f vs = None"

definition zero_of :: "(string \<times> rust_type) list \<Rightarrow> rust_type \<Rightarrow> val option" where
  "zero_of registry ty =
     (case default_for registry ty of
        Some (Return e) \<Rightarrow> eval no_prims no_prims (val_view Map.empty) e
      | _ \<Rightarrow> None)"

lemma zero_of_eval:
  assumes "zero_of registry ty = Some v"
  obtains e where "default_for registry ty = Some (Return e)" and "\<And>P F V. eval P F V e = Some v"
proof -
  from assms obtain e where e: "default_for registry ty = Some (Return e)"
    "eval no_prims no_prims (val_view Map.empty) e = Some v"
    by (auto simp: zero_of_def split: option.splits outcome.splits)
  have "eval P F V e = Some v" for P F V
    by (rule eval_mono[OF e(2)]) (auto simp: val_view_def no_prims_def)
  with e(1) that show ?thesis by blast
qed

lemma exec_val_let: "exec_val P F (SLocal p (Some e)) \<rho> = Option.bind (eval P F (val_view \<rho>) e) (\<lambda>v. bind_pat p v \<rho>)"
  by (simp add: exec_val_def)

lemma let_bindings_run:
  assumes "those (map (\<lambda>(_, ty). zero_of registry ty) outs) = Some zeros"
  shows "\<exists>lets. to_let_bindings registry outs = Some (Return lets) \<and>
    exec_all (exec_val P F) lets \<rho> = Some (\<rho>(map fst outs [\<mapsto>] zeros))"
  using assms
proof (induction outs arbitrary: zeros \<rho>)
  case (Cons out outs)
  obtain x ty where out: "out = (x, ty)" by force
  with Cons.prems obtain v vs where v: "zero_of registry ty = Some v"
    and vs: "those (map (\<lambda>(_, ty). zero_of registry ty) outs) = Some vs" and zeros: "zeros = v # vs"
    by (auto split: option.splits)
  obtain e where e: "default_for registry ty = Some (Return e)" "\<And>P F V. eval P F V e = Some v"
    by (rule zero_of_eval[OF v]) (rule that)
  from Cons.IH[OF vs, of "\<rho>(x \<mapsto> v)"] obtain lets where
    "to_let_bindings registry outs = Some (Return lets)"
    "exec_all (exec_val P F) lets (\<rho>(x \<mapsto> v)) = Some (\<rho>(x \<mapsto> v, map fst outs [\<mapsto>] vs))"
    by blast
  with out zeros e show ?case
    by (simp add: exec_val_let)
qed auto

text \<open>Names in any order, each with its value.\<close>

lemma upds_same:
  assumes "distinct (map fst xs)" "distinct (map fst ys)" "map_of xs = map_of ys"
  shows "\<rho>(map fst xs [\<mapsto>] map (f \<circ> snd) xs) = \<rho>(map fst ys [\<mapsto>] map (f \<circ> snd) ys)"
proof -
  have *: "\<rho>(map fst zs [\<mapsto>] map (f \<circ> snd) zs) = \<rho> ++ (map_option f \<circ> map_of zs)" if "distinct (map fst zs)" for zs
  proof -
    have "zip (map fst zs) (map (f \<circ> snd) zs) = map (\<lambda>(k, v). (k, f v)) zs"
      by (induction zs) auto
    moreover have "distinct (map fst (map (\<lambda>(k, v). (k, f v)) zs))"
      using that by (simp add: case_prod_unfold comp_def)
    ultimately show ?thesis by (simp add: map_upds_def map_of_rev map_of_map)
  qed
  show ?thesis using assms by (simp add: *)
qed

lemma return_value_eval:
  assumes "those (map \<rho> (map fst outs)) = Some vs"
  shows "\<exists>e. to_return_value outs = SExpr e \<and> eval P F (val_view \<rho>) e = Some (pack vs)"
proof -
  have *: "those (map (eval P F (val_view \<rho>)) (map (\<lambda>(x, _). EPath [x]) outs)) = Some vs"
    using assms by (simp add: case_prod_unfold comp_def val_view_def)
  have len: "length vs = length outs"
    using assms unfolding those_eq_Some by (metis length_map)
  show ?thesis
  proof (cases "length outs = 1")
    case True
    then obtain x ty where "outs = [(x, ty)]" by (cases outs) auto
    with assms len show ?thesis
      by (auto simp: to_return_value_def pack_def val_view_def split: option.splits)
  next
    case False
    with * len show ?thesis by (auto simp: to_return_value_def pack_def simp del: map_map)
  qed
qed

lemma exec_all_append: "exec_all step (xs @ ys) s = Option.bind (exec_all step xs s) (exec_all step ys)"
  by (induction xs arbitrary: s) (auto simp: bind_assoc split: Option.bind_split)

lemma run_rewritten:
  assumes "rewrite_fn_body stmts outs registry = Some (Return block)"
    and "to_let_bindings registry outs = Some (Return lets)" and "try_map rewrite_fn_stmt stmts = Return ss"
    and "exec_all (exec_val P F) lets [in_names ins [\<mapsto>] vs] = Some \<rho>" and "exec_all (exec_val P F) ss \<rho> = Some \<rho>'"
    and "those (map \<rho>' (map fst outs)) = Some ws"
    and "fn_inputs func = ins" and "fn_block func = block"
  shows "run_val P F func vs = Some (pack ws)"
proof -
  obtain e where e: "to_return_value outs = SExpr e" "eval P F (val_view \<rho>') e = Some (pack ws)"
    using return_value_eval[OF assms(6)] by blast
  have "block = lets @ ss @ [SExpr e]"
    using assms(1-3) e by (auto simp: rewrite_fn_body_def)
  then show ?thesis
    using assms(4,5,7,8) e(2) by (simp add: run_val_def exec_all_append)
qed

text \<open>The new bindings start the outputs with what the original is given.\<close>

lemma initial_env:
  assumes "for_each split_input args ([], []) = Return (ins, outs)"
    and "those (map (\<lambda>(_, ty). zero_of registry ty) (out_params args)) = Some zeros"
    and "dom \<rho> \<inter> fst ` set (out_params args) = {}"
  obtains lets where "dom [map fst (out_params args) [\<mapsto>] zeros] = set (map fst (out_params args))"
    and "dom \<rho> \<inter> dom [map fst (out_params args) [\<mapsto>] zeros] = {}"
    and "to_let_bindings registry outs = Some (Return lets)"
    and "exec_all (exec_val P F) lets \<rho> = Some ([map fst (out_params args) [\<mapsto>] zeros] ++ \<rho>)"
proof -
  let ?ps = "out_params args" and ?zero = "the \<circ> zero_of registry"
  note names = split_outputs[OF assms(1)]
  have z: "zeros = map (?zero \<circ> snd) ?ps"
    using those_map_the[OF assms(2)] by (simp add: case_prod_unfold comp_def)
  have zo: "those (map (\<lambda>(_, ty). zero_of registry ty) outs) = Some (map (?zero \<circ> snd) outs)"
    using those_map_dom[OF assms(2)[folded map_map]] names(7) by (intro those_map_Some) (auto simp: z)
  have dom: "dom [map fst ?ps [\<mapsto>] zeros] = set (map fst ?ps)" "dom \<rho> \<inter> dom [map fst ?ps [\<mapsto>] zeros] = {}"
    using assms(3) by (auto simp: z)
  have "[map fst ?ps [\<mapsto>] zeros] ++ \<rho> = \<rho>(map fst outs [\<mapsto>] map (?zero \<circ> snd) outs)"
    using map_add_comm[OF dom(2)] merged_upds[of \<rho> Map.empty] upds_same[of outs ?ps \<rho> ?zero] names
    by (simp add: z)
  with let_bindings_run[OF zo, of P F \<rho>] dom that show ?thesis by auto
qed

lemma outputs_read:
  assumes "those (map R names) = Some outs" and "distinct names" and "dom R = set names" "dom L \<inter> dom R = {}" and "x \<in> set names"
  shows "(R ++ L) x = Some (the (map_of (zip names outs) x))"
proof -
  have "x \<notin> dom L" using assms(3-5) by auto
  then show ?thesis using those_map_zip[OF assms(1,2,5)] by (simp add: map_add_dom_app_simps(3))
qed

text \<open>
  The rewriting preserves what a function computes.  If the original, started with its outputs zero, writes the
  values \<open>outs\<close>, then the \<open>const fn\<close> made of it returns them, in the order of the outputs' names; so it returns them as
  written when that is the order of the parameters.  Assumed are that the functions it calls have been rewritten the
  same way, that parameters are named apart, and that the body neither reads an output nor hides it by a variable.
\<close>

lemma constify_preserves:
  assumes "rewrite_fn_as_const registry func = Some (Return func')"
    and "those (map (\<lambda>(_, ty). zero_of registry ty) (out_params (fn_inputs func))) = Some zeros"
    and "run_ref P F C func ins zeros = Some outs"
    and "constified F C F'"
    and "list_all (writes_only (map fst (out_params (fn_inputs func)))) (fn_block func)"
    and "set (in_names (fn_inputs func)) \<inter> fst ` set (out_params (fn_inputs func)) = {}"
  shows "run_val P F' func' ins =
      Some (pack (map (\<lambda>x. the (map_of (zip (map fst (out_params (fn_inputs func))) outs) x))
        (sort (map fst (out_params (fn_inputs func))))))
    \<and> (sorted (map fst (out_params (fn_inputs func))) \<longrightarrow> run_val P F' func' ins = Some (pack outs))"
proof -
  let ?ps = "out_params (fn_inputs func)" and ?I = "[in_names (fn_inputs func) [\<mapsto>] ins]"
  let ?names = "map fst ?ps"
  from assms(1) obtain ins' os rt block where
    os: "for_each split_input (fn_inputs func) ([], []) = Return (ins', os)" "to_return_type os = Return rt"
    "rewrite_fn_body (fn_block func) os registry = Some (Return block)"
    and func': "func' = func\<lparr>constness := True, fn_inputs := ins', fn_output := rt, fn_block := block\<rparr>"
    by (rule rewrite_fn_as_constE)
  note names = split_outputs[OF os(1)]
  obtain L R where run: "exec_all (exec_ref P F C) (fn_block func) (?I, [?names [\<mapsto>] zeros]) = Some (L, R)"
    and R: "those (map R ?names) = Some outs"
    using assms(3) by (auto simp: run_ref_def bind_eq_Some_conv)
  obtain lets where dom: "dom [?names [\<mapsto>] zeros] = set ?names" "dom ?I \<inter> dom [?names [\<mapsto>] zeros] = {}"
    and lets: "to_let_bindings registry os = Some (Return lets)"
    "exec_all (exec_val P F') lets ?I = Some ([?names [\<mapsto>] zeros] ++ ?I)"
    by (rule initial_env[OF os(1) assms(2), of ?I]) (use assms(6) in \<open>auto dest: in_set_takeD\<close>)
  from steps_ref_val[OF run assms(5) dom assms(4)] obtain ss where
    ss: "try_map rewrite_fn_stmt (fn_block func) = Return ss"
    "exec_all (exec_val P F') ss ([?names [\<mapsto>] zeros] ++ ?I) = Some (R ++ L)" "dom R = set ?names" "dom L \<inter> dom R = {}"
    by blast
  have "those (map (R ++ L) (map fst os)) = Some (map (\<lambda>x. the (map_of (zip ?names outs) x)) (map fst os))"
    using outputs_read[OF R names(5) ss(3,4)] names(3) by (intro those_map_Some) simp
  from run_rewritten[OF os(3) lets(1) ss(1) _ ss(2) this, of ins' ins func'] lets(2) names(1)
  have "run_val P F' func' ins = Some (pack (map (\<lambda>x. the (map_of (zip ?names outs) x)) (map fst os)))"
    by (simp add: func')
  moreover note those_zip_values[OF R names(5)]
  ultimately show ?thesis
    using names(8) sorted_sort_id[of ?names] by (simp del: map_map)
qed

text \<open>The example of the previous theory.\<close>

definition increment :: "string \<Rightarrow> val list \<Rightarrow> val list \<Rightarrow> val list option" where
  "increment f ins outs =
     (case (ins, outs) of ([VInt i], [_]) \<Rightarrow> if f = ''inc'' then Some [VInt (i + 1)] else None | _ \<Rightarrow> None)"

definition increment_const :: prims where
  "increment_const f ins = (case ins of [VInt i] \<Rightarrow> if f = ''inc'' then Some (VInt (i + 1)) else None | _ \<Rightarrow> None)"

lemmas example_simps = example_fn_def example_registry_def run_ref_def run_val_def exec_ref_def exec_val_def ref_view_def
  val_view_def assign_ref_def assign_val_def call_ref_def lent_var_def is_lent_def increment_def increment_const_def
  set_elem_def repeated_def zero_of_def zero_def default_for.simps registry_get_def pack_def

text \<open>
  With \<open>out2\<close> before \<open>out10\<close> in the signature the names are not in order: the \<open>const fn\<close> returns its outputs swapped,
  while a rewritten call takes them in the order of its arguments.
\<close>

lemma constify_swaps_outputs:
  "\<exists>func'. rewrite_fn_as_const example_registry (example_fn ''out2'' ''out10'') = Some (Return func') \<and>
     run_ref no_prims no_prims increment (example_fn ''out2'' ''out10'') [VInt 5] [VArr [VInt 0, VInt 0], VInt 0] =
       Some [VArr [VInt 6, VInt 0], VInt 5] \<and>
     run_val no_prims increment_const func' [VInt 5] = Some (VTuple [VInt 5, VArr [VInt 6, VInt 0]]) \<and>
     rewrite_fn_stmt (SSemi (ECall (EPath [''f''])
         [EReference True (EPath [''x'']), EReference True (EPath [''y'']), EPath [''arg1'']])) =
       Return (SLocal (PTuple [PIdent False ''x'', PIdent False ''y'']) (Some (ECall (EPath [''f'']) [EPath [''arg1'']])))"
  by (simp add: constify_simps example_simps numeral_2_eq_2)

section \<open>Types of default values\<close>

inductive has_type :: "(string \<times> rust_type) list \<Rightarrow> rust_type \<Rightarrow> val \<Rightarrow> bool" for registry where
  has_type_int: "\<lbrakk>registry_get registry x = None; (x, w) \<in> {(''u8'', 8), (''u32'', 32), (''u64'', 64)}; 0 \<le> n; n < 2 ^ w\<rbrakk> \<Longrightarrow>
    has_type registry (TPath [x]) (VInt n)"
| has_type_alias: "\<lbrakk>registry_get registry x = Some ty; has_type registry ty v\<rbrakk> \<Longrightarrow> has_type registry (TPath [x]) v"
| has_type_array: "\<lbrakk>int (length vs) = n; \<And>v. v \<in> set vs \<Longrightarrow> has_type registry ty v\<rbrakk> \<Longrightarrow>
    has_type registry (TArray ty (ELit n)) (VArr vs)"

inductive_cases has_type_arrayE: "has_type registry (TArray ty n) v"

text \<open>Arrays of a literal length whose elements are integers, possibly under another name.\<close>

definition flat_type :: "(string \<times> rust_type) list \<Rightarrow> rust_type \<Rightarrow> bool" where
  "flat_type registry ty =
     (case ty of
        TArray elem len \<Rightarrow>
          (case len of ELit n \<Rightarrow> 0 \<le> n | _ \<Rightarrow> False) \<and> default_for registry elem = Some (Return zero)
      | _ \<Rightarrow> True)"

lemma zero_has_type:
  assumes "default_for registry ty = Some (Return e)" and "e = zero"
  shows "has_type registry ty (VInt 0)"
  using assms by (induction rule: default_for_induct) (auto simp: zero_def intro: has_type_alias has_type_int)

text \<open>
  (C29) The value an output starts with has the output's type, when arrays have a literal length and integers as their
  elements.
\<close>

theorem default_has_type:
  assumes "default_for registry ty = Some (Return e)" and "list_all (flat_type registry) (ty # map snd registry)"
  shows "\<exists>v. zero_of registry ty = Some v \<and> has_type registry ty v"
proof -
  have "flat_type registry ty \<longrightarrow>
      (\<exists>v. eval no_prims no_prims (val_view Map.empty) e = Some v \<and> has_type registry ty v)"
    using assms(1)
  proof (induction rule: default_for_induct)
    case (arr elem len)
    then show ?case
      by (auto simp: flat_type_def zero_def repeated_def split: expr.splits
        intro!: has_type_array zero_has_type[unfolded zero_def] dest: bspec)
  next
    case (ali x t e)
    have "t \<in> snd ` set registry"
      using ali(1) by (force simp: registry_get_def dest: map_of_SomeD)
    with assms(2) ali show ?case by (auto simp: list_all_iff intro: has_type_alias)
  next
    case (prim x)
    then show ?case by (auto simp: zero_def intro: has_type_int)
  qed
  with assms show ?thesis by (simp add: zero_of_def)
qed

theorem default_has_type_witness:
  "default_for example_registry (TPath [''limbs'']) = Some (Return (ERepeat zero (ELit 2))) \<and>
   list_all (flat_type example_registry) (TPath [''limbs''] # map snd example_registry) \<and>
   zero_of example_registry (TPath [''limbs'']) = Some (VArr [VInt 0, VInt 0]) \<and>
   has_type example_registry (TPath [''limbs'']) (VArr [VInt 0, VInt 0])"
proof -
  have 1: "default_for example_registry (TPath [''limbs'']) = Some (Return (ERepeat zero (ELit 2)))"
    by (simp add: example_registry_def registry_get_def default_for.simps)
  have 2: "list_all (flat_type example_registry) (TPath [''limbs''] # map snd example_registry)"
    by (simp add: example_registry_def flat_type_def registry_get_def default_for.simps)
  have "zero_of example_registry (TPath [''limbs'']) = Some (VArr [VInt 0, VInt 0])"
    by (simp add: zero_of_def 1 zero_def repeated_def numeral_2_eq_2)
  with default_has_type[OF 1 2] 1 2 show ?thesis by auto
qed

text \<open>An array of arrays gets an array of integers.\<close>

lemma default_nested_array:
  "zero_of [] (TArray (TArray (TPath [''u8'']) (ELit 2)) (ELit 3)) = Some (VArr [VInt 0, VInt 0, VInt 0]) \<and>
   \<not> has_type [] (TArray (TArray (TPath [''u8'']) (ELit 2)) (ELit 3)) (VArr [VInt 0, VInt 0, VInt 0])"
  by (auto simp: zero_of_def default_for.simps zero_def repeated_def numeral_3_eq_3 elim!: has_type_arrayE)

section \<open>A whole file\<close>

text \<open>
  The functions of a file, each able to call those before it.  Before the rewriting a call is given variables of the
  outputs' types.
\<close>

definition typed_outs :: "(string \<times> rust_type) list \<Rightarrow> item_fn \<Rightarrow> val list \<Rightarrow> bool" where
  "typed_outs registry func outs \<longleftrightarrow> list_all2 (\<lambda>(_, ty). has_type registry ty) (out_params (fn_inputs func)) outs"

definition call_fn ::
  "prims \<Rightarrow> prims \<Rightarrow> (string \<times> rust_type) list \<Rightarrow> (string \<Rightarrow> val list \<Rightarrow> val list \<Rightarrow> val list option) \<Rightarrow> item_fn \<Rightarrow>
     val list \<Rightarrow> val list \<Rightarrow> val list option" where
  "call_fn P F registry C func ins outs = (if typed_outs registry func outs then run_ref P F C func ins outs else None)"

fun items_ref ::
  "prims \<Rightarrow> prims \<Rightarrow> item list \<Rightarrow> (string \<times> rust_type) list \<Rightarrow> (string \<Rightarrow> val list \<Rightarrow> val list \<Rightarrow> val list option) \<Rightarrow>
     string \<Rightarrow> val list \<Rightarrow> val list \<Rightarrow> val list option" where
  "items_ref P F [] registry C = C"
| "items_ref P F (IFn func # items) registry C =
     items_ref P F items registry (C(fn_ident func := call_fn P F registry C func))"
| "items_ref P F (IType x ty # items) registry C = items_ref P F items (btree_put x ty registry) C"
| "items_ref P F (IOther # items) registry C = items_ref P F items registry C"

fun items_val :: "prims \<Rightarrow> item list \<Rightarrow> prims \<Rightarrow> prims" where
  "items_val P [] F = F"
| "items_val P (IFn func # items) F = items_val P items (F(fn_ident func := run_val P F func))"
| "items_val P (_ # items) F = items_val P items F"

text \<open>
  What is asked of the functions of the file: the conditions on the body, outputs in the order of their names, and
  outputs that are only written, so that a call does not depend on what they held.
\<close>

definition write_only_fn ::
  "prims \<Rightarrow> prims \<Rightarrow> (string \<times> rust_type) list \<Rightarrow> (string \<Rightarrow> val list \<Rightarrow> val list \<Rightarrow> val list option) \<Rightarrow> item_fn \<Rightarrow> bool" where
  "write_only_fn P F registry C func \<longleftrightarrow>
     list_all (writes_only (map fst (out_params (fn_inputs func)))) (fn_block func) \<and>
     set (in_names (fn_inputs func)) \<inter> fst ` set (out_params (fn_inputs func)) = {} \<and>
     sorted (map fst (out_params (fn_inputs func))) \<and>
     (\<exists>zeros. those (map (\<lambda>(_, ty). zero_of registry ty) (out_params (fn_inputs func))) = Some zeros \<and>
        (\<forall>ins outs outs'. call_fn P F registry C func ins outs = Some outs' \<longrightarrow> run_ref P F C func ins zeros = Some outs'))"

fun write_only_items ::
  "prims \<Rightarrow> prims \<Rightarrow> item list \<Rightarrow> (string \<times> rust_type) list \<Rightarrow> (string \<Rightarrow> val list \<Rightarrow> val list \<Rightarrow> val list option) \<Rightarrow> bool" where
  "write_only_items P F [] registry C = True"
| "write_only_items P F (IFn func # items) registry C =
     (F (fn_ident func) = (\<lambda>_. None) \<and> write_only_fn P F registry C func \<and>
      write_only_items P F items registry (C(fn_ident func := call_fn P F registry C func)))"
| "write_only_items P F (IType x ty # items) registry C = write_only_items P F items (btree_put x ty registry) C"
| "write_only_items P F (IOther # items) registry C = write_only_items P F items registry C"

lemma constified_call:
  assumes ok: "constified F C F'" and fn: "write_only_fn P F registry C func" "F (fn_ident func) = (\<lambda>_. None)"
    and new: "rewrite_fn_as_const registry func = Some (Return func')" "fn_ident func' = fn_ident func"
  shows "constified F (C(fn_ident func := call_fn P F registry C func)) (F'(fn_ident func' := run_val P F' func'))"
proof -
  have "run_val P F' func' ins = Some (pack outs')" if call: "call_fn P F registry C func ins outs = Some outs'" for ins outs outs'
  proof -
    obtain zeros where "those (map (\<lambda>(_, ty). zero_of registry ty) (out_params (fn_inputs func))) = Some zeros"
      "run_ref P F C func ins zeros = Some outs'"
      using fn(1) call unfolding write_only_fn_def by blast
    from constify_preserves[OF new(1) this ok] fn(1) show ?thesis unfolding write_only_fn_def by blast
  qed
  with ok fn(2) new(2) show ?thesis by (auto simp: constified_def)
qed

lemma constified_items:
  "\<lbrakk>constify_items items registry = Some (Return items'); write_only_items P F items registry C; constified F C F'\<rbrakk> \<Longrightarrow>
     constified F (items_ref P F items registry C) (items_val P items' F')"
proof (induction items registry arbitrary: items' C F' rule: constify_items.induct)
  case (2 func items registry)
  then obtain func' rest where new: "rewrite_fn_as_const registry func = Some (Return func')"
    "constify_items items registry = Some (Return rest)" "items' = IFn func' # rest"
    by (auto split: option.splits outcome.splits)
  have "fn_ident func' = fn_ident func"
    using rewrite_fn_as_const_shape[OF new(1)] by (simp add: item_rewritten_def)
  with constified_call[OF "2.prems"(3) _ _ new(1)] "2.prems"(2)
  have call: "constified F (C(fn_ident func := call_fn P F registry C func)) (F'(fn_ident func' := run_val P F' func'))"
    by simp
  have "write_only_items P F items registry (C(fn_ident func := call_fn P F registry C func))"
    using "2.prems"(2) by (simp only: write_only_items.simps)
  from "2.IH"[OF new(1) refl new(2) this call] show ?case
    unfolding new(3) items_ref.simps items_val.simps .
next
  case (3 x ty items registry)
  then obtain self where self: "registry_add x ty registry = Return self"
    by (auto split: outcome.splits)
  then have "self = btree_put x ty registry" by (auto simp: registry_add_def split: if_splits)
  with 3 self show ?case by (auto split: option.splits outcome.splits)
qed auto

text \<open>
  (C9) The rewriting preserves what a file computes.  Take a file whose functions call only earlier ones, write their
  outputs without reading or hiding them, and list them in the order of their names.  If the tool rewrites it and a
  call of one of its functions writes the values \<open>outs'\<close> to its outputs, then the call of the \<open>const fn\<close> of that
  name in the new file, with the other arguments, returns these values: a single one as it is, several as a tuple.
\<close>

theorem constify_file_preserves:
  assumes "constify_file ast = Some (Return ast')" and "write_only_items P F (file_items ast) [] (\<lambda>_ _ _. None)"
    and "items_ref P F (file_items ast) [] (\<lambda>_ _ _. None) f ins outs = Some outs'"
  shows "items_val P (file_items ast') F f ins = Some (pack outs')"
proof -
  from assms(1) have "constify_items (file_items ast) [] = Some (Return (file_items ast'))"
    by (auto simp: constify_file_def Let_def)
  moreover have "constified F (\<lambda>_ _ _. None) F" by (simp add: constified_def)
  ultimately show ?thesis
    using constified_items[OF _ assms(2)] assms(3) by (auto simp: constified_def)
qed

text \<open>An example: a function, and a second one that calls it.\<close>

definition plus_prim :: prims where
  "plus_prim op vs = (case vs of [VInt a, VInt b] \<Rightarrow> if op = ''+'' then Some (VInt (a + b)) else None | _ \<Rightarrow> None)"

definition inc_fn :: item_fn where
  "inc_fn =
     \<lparr>fn_ident = ''inc'', constness = False,
      fn_inputs = [FTyped (PIdent False ''out1'') (TReference True (TPath [''u64''])),
        FTyped (PIdent False ''arg1'') (TPath [''u64''])],
      fn_output = None,
      fn_block = [SSemi (EAssign (EUnary Deref (EPath [''out1''])) (EOther ''+'' [EPath [''arg1''], ELit 1]))]\<rparr>"

definition pair_fn :: item_fn where
  "pair_fn =
     \<lparr>fn_ident = ''pair'', constness = False,
      fn_inputs = [FTyped (PIdent False ''out1'') (TReference True (TPath [''limbs''])),
        FTyped (PIdent False ''out2'') (TReference True (TPath [''u64''])),
        FTyped (PIdent False ''arg1'') (TPath [''u64''])],
      fn_output = None,
      fn_block =
        [SLocal (PType (PIdent True ''x1'') (TPath [''u64''])) (Some (ELit 0)),
         SSemi (ECall (EPath [''inc'']) [EReference True (EPath [''x1'']), EPath [''arg1'']]),
         SSemi (EAssign (EOther ''index'' [EPath [''out1''], ELit 0]) (EPath [''x1''])),
         SSemi (EAssign (EOther ''index'' [EPath [''out1''], ELit 1]) (EPath [''arg1''])),
         SSemi (EAssign (EUnary Deref (EPath [''out2''])) (EPath [''x1'']))]\<rparr>"

definition example_file :: rust_file where
  "example_file = \<lparr>file_attrs = [], file_items =
     [IType ''limbs'' (TArray (TPath [''u64'']) (ELit 2)), IFn inc_fn, IFn pair_fn]\<rparr>"

abbreviation (input) no_calls :: "string \<Rightarrow> val list \<Rightarrow> val list \<Rightarrow> val list option" where
  "no_calls \<equiv> (\<lambda>_ _ _. None)"

lemmas fn_simps = run_ref_def run_val_def exec_ref_def exec_val_def ref_view_def val_view_def assign_ref_def
  assign_val_def call_ref_def lent_var_def is_lent_def set_elem_def plus_prim_def

inductive_simps has_type_path: "has_type registry (TPath [x]) v"
inductive_simps has_type_array_simp: "has_type registry (TArray ty (ELit n)) v"

lemma inc_ref:
  "call_fn plus_prim no_prims example_registry C inc_fn ins outs = Some outs' \<longleftrightarrow>
     typed_outs example_registry inc_fn outs \<and> (\<exists>i rest. ins = VInt i # rest \<and> outs' = [VInt (i + 1)])"
proof (cases "typed_outs example_registry inc_fn outs")
  case True
  then obtain o1 where "outs = [o1]" by (auto simp: typed_outs_def inc_fn_def list_all2_Cons1)
  then show ?thesis
    by (cases ins) (auto simp: True call_fn_def inc_fn_def fn_simps split: val.splits)
qed (simp add: call_fn_def)

lemma pair_typed:
  assumes "typed_outs example_registry pair_fn outs"
  obtains a b c where "outs = [VArr [a, b], c]"
proof -
  from assms obtain x c where outs: "outs = [x, c]" and x: "has_type example_registry (TPath [''limbs'']) x"
    by (auto simp: typed_outs_def pair_fn_def list_all2_Cons1)
  from x obtain vs where "x = VArr vs" "length vs = 2"
    by (auto simp: has_type_path has_type_array_simp example_registry_def registry_get_def)
  with outs that show ?thesis by (auto simp: length_Suc_conv numeral_2_eq_2)
qed

lemma pair_ref:
  assumes "run_ref plus_prim no_prims (no_calls(''inc'' := call_fn plus_prim no_prims example_registry no_calls inc_fn))
      pair_fn ins [VArr [a, b], c] = Some outs'"
  shows "\<exists>i rest. ins = VInt i # rest \<and> outs' = [VArr [VInt (i + 1), VInt i], VInt (i + 1)]"
proof (cases ins)
  case (Cons v rest)
  show ?thesis
  proof (cases v)
    case (VInt i)
    with assms Cons show ?thesis
      by (auto simp: pair_fn_def fn_simps bind_eq_Some_conv inc_ref)
  qed (use assms Cons in \<open>auto simp: pair_fn_def fn_simps bind_eq_Some_conv inc_ref\<close>)
qed (use assms in \<open>auto simp: pair_fn_def fn_simps bind_eq_Some_conv inc_ref\<close>)

lemma u64_type: "has_type example_registry (TPath [''u64'']) (VInt n) \<longleftrightarrow> 0 \<le> n \<and> n < 2 ^ 64"
  by (auto simp: has_type_path example_registry_def registry_get_def)

lemma pair_run:
  "run_ref plus_prim no_prims (no_calls(''inc'' := call_fn plus_prim no_prims example_registry no_calls inc_fn))
     pair_fn (VInt i # rest) [VArr [a, b], c] = Some [VArr [VInt (i + 1), VInt i], VInt (i + 1)]"
proof -
  have "typed_outs example_registry inc_fn [VInt 0]"
    by (simp add: typed_outs_def inc_fn_def u64_type)
  then have "call_fn plus_prim no_prims example_registry no_calls inc_fn [VInt i] [VInt 0] = Some [VInt (i + 1)]"
    by (simp add: inc_ref)
  then show ?thesis by (simp add: pair_fn_def fn_simps)
qed

lemma inc_write_only: "write_only_fn plus_prim no_prims example_registry no_calls inc_fn"
proof -
  have zero: "those (map (\<lambda>(_, ty). zero_of example_registry ty) (out_params (fn_inputs inc_fn))) = Some [VInt 0]"
    by (simp add: inc_fn_def zero_of_def default_for.simps example_registry_def registry_get_def zero_def)
  have typed: "typed_outs example_registry inc_fn [VInt 0]"
    by (simp add: typed_outs_def inc_fn_def u64_type)
  have "run_ref plus_prim no_prims no_calls inc_fn ins [VInt 0] = Some outs'"
    if "call_fn plus_prim no_prims example_registry no_calls inc_fn ins outs = Some outs'" for ins outs outs'
  proof -
    have "call_fn plus_prim no_prims example_registry no_calls inc_fn ins [VInt 0] = Some outs'"
      using that typed unfolding inc_ref by blast
    with typed show ?thesis by (simp add: call_fn_def)
  qed
  with zero show ?thesis by (auto simp: write_only_fn_def) (simp_all add: inc_fn_def)
qed

lemma pair_write_only:
  "write_only_fn plus_prim no_prims example_registry
     (no_calls(''inc'' := call_fn plus_prim no_prims example_registry no_calls inc_fn)) pair_fn"
proof -
  have "those (map (\<lambda>(_, ty). zero_of example_registry ty) (out_params (fn_inputs pair_fn))) = Some [VArr [VInt 0, VInt 0], VInt 0]"
    by (simp add: pair_fn_def zero_of_def default_for.simps example_registry_def registry_get_def zero_def repeated_def
      numeral_2_eq_2)
  moreover have "run_ref plus_prim no_prims (no_calls(''inc'' := call_fn plus_prim no_prims example_registry no_calls inc_fn))
      pair_fn ins [VArr [VInt 0, VInt 0], VInt 0] = Some outs'"
    if "call_fn plus_prim no_prims example_registry
      (no_calls(''inc'' := call_fn plus_prim no_prims example_registry no_calls inc_fn)) pair_fn ins outs = Some outs'"
    for ins outs outs'
  proof -
    have "typed_outs example_registry pair_fn outs" using that by (auto simp: call_fn_def split: if_splits)
    then obtain a b c where "outs = [VArr [a, b], c]" by (rule pair_typed)
    with that have "\<exists>i rest. ins = VInt i # rest \<and> outs' = [VArr [VInt (i + 1), VInt i], VInt (i + 1)]"
      by (intro pair_ref[of ins a b c]) (simp add: call_fn_def split: if_splits)
    then show ?thesis using pair_run by auto
  qed
  ultimately show ?thesis
    by (auto simp: write_only_fn_def simp del: fun_upd_apply) (simp_all add: pair_fn_def)
qed

theorem constify_file_preserves_witness:
  "\<exists>ast'. constify_file example_file = Some (Return ast') \<and>
     items_ref plus_prim no_prims (file_items example_file) [] no_calls ''pair'' [VInt 5] [VArr [VInt 9, VInt 9], VInt 9] =
       Some [VArr [VInt 6, VInt 5], VInt 6] \<and>
     items_val plus_prim (file_items ast') no_prims ''pair'' [VInt 5] = Some (VTuple [VArr [VInt 6, VInt 5], VInt 6])"
proof -
  have reg: "btree_put ''limbs'' (TArray (TPath [''u64'']) (ELit 2)) [] = example_registry"
    by (simp add: example_registry_def)
  have names: "fn_ident inc_fn = ''inc''" "fn_ident pair_fn = ''pair''"
    by (simp_all add: inc_fn_def pair_fn_def)
  obtain ast' where ast': "constify_file example_file = Some (Return ast')"
    by (simp add: constify_file_def example_file_def registry_add_def inc_fn_def pair_fn_def constify_simps default_for.simps
      registry_get_def)
  have ok: "write_only_items plus_prim no_prims (file_items example_file) [] no_calls"
    using inc_write_only pair_write_only by (simp add: example_file_def reg names no_prims_def fun_eq_iff del: fun_upd_apply btree_put.simps)
  have "typed_outs example_registry pair_fn [VArr [VInt 9, VInt 9], VInt 9]"
    by (auto simp: typed_outs_def pair_fn_def has_type_path has_type_array_simp example_registry_def registry_get_def)
  then have run: "items_ref plus_prim no_prims (file_items example_file) [] no_calls ''pair'' [VInt 5] [VArr [VInt 9, VInt 9], VInt 9] =
      Some [VArr [VInt 6, VInt 5], VInt 6]"
    using pair_run[of 5 "[]" "VInt 9" "VInt 9" "VInt 9"]
    by (simp add: example_file_def reg names call_fn_def del: btree_put.simps)
  from constify_file_preserves[OF ast' ok run] ast' run show ?thesis by (auto simp: pack_def)
qed

end
