(* ===== verification/Collectable.thy ===== *)
theory Collectable
  imports Rust_Prelude
begin

text \<open>
  The crate \<^verbatim>\<open>collectable\<close> (\<^verbatim>\<open>collectable/src/lib.rs\<close>): traits of collections that may be full.

  A trait is the functions it declares, passed as arguments; an iterator is the finite list of what it yields; a
  method with \<open>&mut self\<close> gives the collection back beside its result.  The contract of \<open>TryExtend\<close> is a locale,
  in which the provided methods are shown correct, and \<open>Vec\<close> is the instance of the source.
\<close>

section \<open>Provided methods\<close>

definition is_empty :: "('c \<Rightarrow> nat) \<Rightarrow> 'c \<Rightarrow> bool" where
  "is_empty len self \<longleftrightarrow> len self = 0"

definition try_extend_from_slice ::
  "('c \<Rightarrow> 'a list \<Rightarrow> ('e, unit) result \<times> 'c) \<Rightarrow> 'c \<Rightarrow> 'a list \<Rightarrow> ('e, unit) result \<times> 'c" where
  "try_extend_from_slice try_extend self xs = try_extend self xs"

definition try_from_iter ::
  "'c \<Rightarrow> ('c \<Rightarrow> 'a list \<Rightarrow> ('e, unit) result \<times> 'c) \<Rightarrow> 'a list \<Rightarrow> ('e, 'c) result" where
  "try_from_iter dflt try_extend iter =
     (case try_extend dflt iter of (Err e, _) \<Rightarrow> Err e | (Ok _, collection) \<Rightarrow> Ok collection)"

definition try_collect :: "('a list \<Rightarrow> ('e, 'c) result) \<Rightarrow> 'a list \<Rightarrow> ('e, 'c) result" where
  "try_collect from_iter self = from_iter self"

section \<open>\<open>Vec\<close>\<close>

text \<open>\<open>Infallible\<close> has no values; the one value of \<open>unit\<close> stands for an error that is never made.\<close>

definition vec_len :: "'a list \<Rightarrow> nat" where
  "vec_len self = length self"

definition vec_truncate :: "'a list \<Rightarrow> nat \<Rightarrow> 'a list" where
  "vec_truncate self len = (if len < length self then take len self else self)"

definition vec_try_extend :: "'a list \<Rightarrow> 'a list \<Rightarrow> (unit, unit) result \<times> 'a list" where
  "vec_try_extend self iter = (Ok (), self @ iter)"

section \<open>The contract\<close>

locale try_extendable =
  fixes elems :: "'c \<Rightarrow> 'a list"
    and dflt :: 'c
    and try_extend :: "'c \<Rightarrow> 'a list \<Rightarrow> ('e, unit) result \<times> 'c"
    and fits :: "'a list \<Rightarrow> bool"
  assumes dflt_empty: "elems dflt = []"
    and extend_fits: "fits (elems c @ xs) \<Longrightarrow> \<exists>c'. try_extend c xs = (Ok (), c') \<and> elems c' = elems c @ xs"
    and extend_full: "\<not> fits (elems c @ xs) \<Longrightarrow> \<exists>e c'. try_extend c xs = (Err e, c')"
begin

lemma collect_iff:
  "(\<exists>c. try_collect (try_from_iter dflt try_extend) xs = Ok c) \<longleftrightarrow> fits xs"
  using extend_fits[of dflt xs] extend_full[of dflt xs]
  by (cases "fits xs") (auto simp: try_collect_def try_from_iter_def dflt_empty)

lemma collect_elems:
  assumes "try_collect (try_from_iter dflt try_extend) xs = Ok c"
  shows "elems c = xs"
proof -
  have "fits xs" using assms collect_iff by blast
  with extend_fits[of dflt xs] assms show ?thesis
    by (auto simp: try_collect_def try_from_iter_def dflt_empty)
qed

lemma extend_twice:
  assumes "try_extend_from_slice try_extend c xs = (Ok (), c1)" and "try_extend_from_slice try_extend c1 ys = (Ok (), c2)"
  shows "elems c2 = elems c @ xs @ ys"
proof -
  have "elems d' = elems d @ zs" if "try_extend d zs = (Ok (), d')" for d d' zs
    using that extend_fits[of d zs] extend_full[of d zs] by (cases "fits (elems d @ zs)") auto
  with assms show ?thesis by (simp add: try_extend_from_slice_def)
qed

end

interpretation vec: try_extendable "\<lambda>v. v" "[]" vec_try_extend "\<lambda>_. True"
  by unfold_locales (simp_all add: vec_try_extend_def)

section \<open>Properties\<close>

text \<open>A vector collects every iterator, and truncating what was extended restores it.\<close>

lemma vec_collects:
  "try_collect (try_from_iter [] vec_try_extend) xs = Ok c \<longleftrightarrow> c = xs"
  using vec.collect_iff[of xs] vec.collect_elems[of xs] by auto

lemma vec_truncate_extend:
  assumes "vec_try_extend v xs = (r, w)"
  shows "vec_truncate w (vec_len v) = v" and "vec_len w = vec_len v + length xs" and "is_empty vec_len w \<longleftrightarrow> v = [] \<and> xs = []"
  using assms by (auto simp: vec_try_extend_def vec_truncate_def vec_len_def is_empty_def)

lemma vec_truncate_longer: "vec_len v \<le> n \<Longrightarrow> vec_truncate v n = v"
  by (simp add: vec_truncate_def vec_len_def)

end
