(* ===== verification/Hybrid_Array.thy ===== *)
theory Hybrid_Array
  imports Rust_Prelude "HOL-Library.List_Lexorder" "HOL-Library.Product_Lexorder"
begin

text \<open>
  The crate \<^verbatim>\<open>hybrid-array\<close> (\<^verbatim>\<open>hybrid-array/src/lib.rs\<close>): arrays whose length is a \<^verbatim>\<open>typenum\<close> number.

  A size type is its number, and the sizes are those of the table in the source; an array is its core array, a list,
  together with that number.  Functions that take a closure take it with the state it changes.  The trait
  \<open>ArrayOps\<close> is a locale: what it provides by default rests on what an implementation defines, and the array type
  is an instance at every size of the table.
\<close>

section \<open>Arrays\<close>

record 'a array =
  array_size :: nat
  core_array :: "'a list"

definition array_sizes :: "nat list" where
  "array_sizes = [0..<65] @ [96, 128, 192, 256, 384, 448, 512, 768, 896, 1024, 2048, 4096, 8192]"

text \<open>The type \<open>Array<T, U>\<close> of a size: as many elements as the size says.\<close>

definition sized_array :: "nat \<Rightarrow> 'a array \<Rightarrow> bool" where
  "sized_array n a \<longleftrightarrow> array_size a = n \<and> length (core_array a) = n"

definition as_slice :: "'a array \<Rightarrow> 'a list" where
  "as_slice self = core_array self"

definition as_array_ref :: "'a array \<Rightarrow> 'a list" where
  "as_array_ref self = core_array self"

text \<open>A mutable reference to the inner array or slice: what is stored through it.\<close>

definition as_array_mut :: "('a list \<Rightarrow> 'a list) \<Rightarrow> 'a array \<Rightarrow> 'a array" where
  "as_array_mut f self = self\<lparr>core_array := f (core_array self)\<rparr>"

definition as_mut_slice :: "('a list \<Rightarrow> 'a list) \<Rightarrow> 'a array \<Rightarrow> 'a array" where
  "as_mut_slice f self = self\<lparr>core_array := f (core_array self)\<rparr>"

definition from_core_array :: "nat \<Rightarrow> 'a list \<Rightarrow> 'a array" where
  "from_core_array n arr = \<lparr>array_size = n, core_array = arr\<rparr>"

definition into_hybrid_array :: "'a list \<Rightarrow> 'a array" where
  "into_hybrid_array arr = from_core_array (length arr) arr"

definition array_from :: "nat \<Rightarrow> 'a list \<Rightarrow> 'a array" where
  "array_from n arr = from_core_array n arr"

datatype TryFromSliceError = TryFromSliceError

text \<open>The standard conversion of a slice to a core array.\<close>

definition slice_try_into :: "nat \<Rightarrow> 'a list \<Rightarrow> (TryFromSliceError, 'a list) result" where
  "slice_try_into n xs = (if length xs = n then Ok xs else Err TryFromSliceError)"

definition from_slice :: "nat \<Rightarrow> 'a list \<Rightarrow> (TryFromSliceError, 'a array) result" where
  "from_slice n xs = (case slice_try_into n xs of Err e \<Rightarrow> Err e | Ok arr \<Rightarrow> Ok \<lparr>array_size = n, core_array = arr\<rparr>)"

definition array_try_from :: "nat \<Rightarrow> 'a list \<Rightarrow> (TryFromSliceError, 'a array) result" where
  "array_try_from n xs = (case slice_try_into n xs of Err e \<Rightarrow> Err e | Ok arr \<Rightarrow> Ok \<lparr>array_size = n, core_array = arr\<rparr>)"

text \<open>The core array's \<open>map\<close>: the closure is called on the elements from the first to the last.\<close>

fun map_closure :: "('a \<Rightarrow> 's \<Rightarrow> 'b \<times> 's) \<Rightarrow> 'a list \<Rightarrow> 's \<Rightarrow> 'b list \<times> 's" where
  "map_closure f [] s = ([], s)"
| "map_closure f (x # xs) s = (let (y, s) = f x s; (ys, s) = map_closure f xs s in (y # ys, s))"

definition array_map :: "('a \<Rightarrow> 's \<Rightarrow> 'b \<times> 's) \<Rightarrow> 'a array \<Rightarrow> 's \<Rightarrow> 'b list \<times> 's" where
  "array_map f self s = map_closure f (core_array self) s"

text \<open>\<open>from_fn\<close>: the index is a \<open>usize\<close>, increased with saturation after each call.\<close>

definition saturating_add :: "u64 \<Rightarrow> u64 \<Rightarrow> u64" where
  "saturating_add a b = (if unat a + unat b < 2 ^ 64 then a + b else - 1)"

definition from_fn_step :: "(u64 \<Rightarrow> 's \<Rightarrow> 'a \<times> 's) \<Rightarrow> unit \<Rightarrow> u64 \<times> 's \<Rightarrow> 'a \<times> u64 \<times> 's" where
  "from_fn_step cb u st = (case st of (idx, s) \<Rightarrow> let (res, s) = cb idx s; idx = saturating_add idx 1 in (res, idx, s))"

definition from_fn :: "nat \<Rightarrow> (u64 \<Rightarrow> 's \<Rightarrow> 'a \<times> 's) \<Rightarrow> 's \<Rightarrow> 'a array \<times> 's" where
  "from_fn n cb s =
     (let (arr, _, s) = map_closure (from_fn_step cb) (replicate n ()) (0, s) in (from_core_array n arr, s))"

definition array_iter :: "'a array \<Rightarrow> 'a list" where
  "array_iter self = as_array_ref self"

definition array_iter_mut :: "('a \<Rightarrow> 's \<Rightarrow> 'a \<times> 's) \<Rightarrow> 'a array \<Rightarrow> 's \<Rightarrow> 'a array \<times> 's" where
  "array_iter_mut f self s =
     (let (xs, s) = map_closure f (as_array_ref self) s in (as_array_mut (\<lambda>_. xs) self, s))"

definition array_into_iter :: "'a array \<Rightarrow> 'a list" where
  "array_into_iter self = core_array self"

text \<open>Iterating over a reference to an array, and the conversions that the traits of the core library ask for.\<close>

definition ref_into_iter :: "'a array \<Rightarrow> 'a list" where
  "ref_into_iter self = array_iter self"

definition mut_into_iter :: "('a \<Rightarrow> 's \<Rightarrow> 'a \<times> 's) \<Rightarrow> 'a array \<Rightarrow> 's \<Rightarrow> 'a array \<times> 's" where
  "mut_into_iter f self s = array_iter_mut f self s"

definition array_as_ref :: "'a array \<Rightarrow> 'a list" where
  "array_as_ref self = as_array_ref self"

definition array_as_mut :: "('a list \<Rightarrow> 'a list) \<Rightarrow> 'a array \<Rightarrow> 'a array" where
  "array_as_mut f self = as_array_mut f self"

definition array_borrow :: "'a array \<Rightarrow> 'a list" where
  "array_borrow self = as_array_ref self"

definition array_borrow_mut :: "('a list \<Rightarrow> 'a list) \<Rightarrow> 'a array \<Rightarrow> 'a array" where
  "array_borrow_mut f self = as_array_mut f self"

text \<open>Indexing goes through the slice, by a position or a range.\<close>

definition array_index :: "'a array \<Rightarrow> nat \<Rightarrow> 'a outcome" where
  "array_index self i = index_at (as_slice self) i"

definition array_index_range :: "'a array \<Rightarrow> nat \<Rightarrow> nat \<Rightarrow> 'a list outcome" where
  "array_index_range self a b = slice (as_slice self) a b"

definition array_index_mut :: "'a array \<Rightarrow> nat \<Rightarrow> 'a \<Rightarrow> 'a array outcome" where
  "array_index_mut self i x =
     and_then (set_at (as_slice self) i x) (\<lambda>s. Return (as_mut_slice (\<lambda>_. s) self))"

section \<open>The derived order\<close>

text \<open>\<open>derive(PartialOrd, Ord)\<close> compares the only field, a core array, lexicographically.  The size of a type comes first here, as arrays of all sizes share one type.\<close>

instantiation array_ext :: (linorder, linorder) linorder
begin

definition less_eq_array_ext :: "('a, 'b) array_ext \<Rightarrow> ('a, 'b) array_ext \<Rightarrow> bool" where
  "less_eq_array_ext a b \<longleftrightarrow> (array_size a, core_array a, array.more a) \<le> (array_size b, core_array b, array.more b)"

definition less_array_ext :: "('a, 'b) array_ext \<Rightarrow> ('a, 'b) array_ext \<Rightarrow> bool" where
  "less_array_ext a b \<longleftrightarrow> a \<le> b \<and> \<not> b \<le> a"

instance
proof
  fix a b c :: "('a, 'b) array_ext"
  show "a < b \<longleftrightarrow> a \<le> b \<and> \<not> b \<le> a" by (simp add: less_array_ext_def)
  show "a \<le> a" by (simp add: less_eq_array_ext_def)
  show "a \<le> b \<or> b \<le> a" unfolding less_eq_array_ext_def by (rule linear)
  show "a \<le> c" if "a \<le> b" "b \<le> c" using that unfolding less_eq_array_ext_def by (rule order_trans)
  show "a = b" if "a \<le> b" "b \<le> a"
    using that unfolding less_eq_array_ext_def by (auto intro: array.equality dest: order_antisym)
qed

end

lemma array_le_slices:
  fixes a b :: "'a::linorder array"
  shows "sized_array n a \<Longrightarrow> sized_array n b \<Longrightarrow> a \<le> b \<longleftrightarrow> as_slice a \<le> as_slice b"
  by (auto simp: less_eq_array_ext_def sized_array_def as_slice_def less_le)

text \<open>Byte arrays of one size are ordered like the numbers they encode, the most significant byte first.\<close>

fun be_value :: "bytes \<Rightarrow> nat" where
  "be_value [] = 0"
| "be_value (b # bs) = unat b * 256 ^ length bs + be_value bs"

lemma be_value_less: "be_value bs < 256 ^ length bs"
proof (induction bs)
  case (Cons b bs)
  have "unat b < 256" using unsigned_less [of b] by simp
  then have "Suc (unat b) * 256 ^ length bs \<le> 256 * 256 ^ length bs"
    by (intro mult_le_mono1) simp
  then have "unat b * 256 ^ length bs + 256 ^ length bs \<le> 256 ^ length (b # bs)"
    unfolding mult_Suc length_Cons power_Suc by linarith
  with Cons.IH show ?case unfolding be_value.simps by linarith
qed simp

lemma be_value_le: "length xs = length ys \<Longrightarrow> be_value xs \<le> be_value ys \<longleftrightarrow> xs \<le> ys"
proof (induction xs ys rule: list_induct2)
  case (Cons x xs y ys)
  have step: "be_value (a # as) < be_value (b # bs)" if "a < b" "length as = length bs" for a b :: u8 and as bs
  proof -
    have "Suc (unat a) * 256 ^ length bs \<le> unat b * 256 ^ length bs"
      using that(1) by (intro mult_le_mono1) (simp add: word_less_nat_alt Suc_le_eq)
    with be_value_less [of as] that(2) show ?thesis by simp
  qed
  consider "x < y" | "x = y" | "y < x" by (rule linorder_cases)
  then show ?case
  proof cases
    case 1
    then show ?thesis using step [OF 1 Cons.hyps] by simp
  next
    case 2
    then show ?thesis using Cons by simp
  next
    case 3
    then show ?thesis using step [OF 3 Cons.hyps [symmetric]] by (auto simp: not_le)
  qed
qed simp

section \<open>The interface \<open>ArrayOps\<close>\<close>

lemma map_closure_length: "length (fst (map_closure f xs s)) = length xs"
  by (induction xs arbitrary: s) (auto simp: Let_def split_beta)

locale array_ops =
  fixes size :: nat
    and valid :: "'arr \<Rightarrow> bool"
    and view_ref :: "'arr \<Rightarrow> 'a list"
    and build :: "'a list \<Rightarrow> 'arr"
  assumes view_size: "valid a \<Longrightarrow> length (view_ref a) = size"
    and build_valid: "length xs = size \<Longrightarrow> valid (build xs)"
    and view_build: "length xs = size \<Longrightarrow> view_ref (build xs) = xs"
    and build_view: "valid a \<Longrightarrow> build (view_ref a) = a"
begin

lemma view_inj: "valid a \<Longrightarrow> valid b \<Longrightarrow> view_ref a = view_ref b \<Longrightarrow> a = b"
  by (metis build_view)

lemma collected:
  assumes "map_closure f xs s = (ys, s')" and "length xs = size"
  shows "valid (build ys)" and "view_ref (build ys) = ys"
  using assms map_closure_length[of f xs s] by (simp_all add: build_valid view_build)

end

interpretation arr: array_ops n "sized_array n" as_array_ref "from_core_array n" for n
  by unfold_locales (auto simp: sized_array_def as_array_ref_def from_core_array_def)

section \<open>Lemmas\<close>

text \<open>Every view of an array shows the same elements, and a store through any of them that keeps their number keeps the type.\<close>

lemmas view_defs = ref_into_iter_def array_iter_def array_as_ref_def array_borrow_def as_slice_def array_into_iter_def

lemma views_agree:
  "ref_into_iter a = as_array_ref a" "array_as_ref a = as_array_ref a" "array_borrow a = as_array_ref a"
  "as_slice a = as_array_ref a" "array_into_iter a = as_array_ref a"
  by (simp_all add: view_defs as_array_ref_def)

lemma stores_agree:
  assumes "sized_array n a" and "length (f (as_array_ref a)) = n"
  shows "sized_array n (array_as_mut f a)" and "array_borrow_mut f a = array_as_mut f a"
    and "as_array_ref (array_as_mut f a) = f (as_array_ref a)"
  using assms by (simp_all add: array_as_mut_def array_borrow_mut_def as_array_mut_def sized_array_def as_array_ref_def)

lemma array_sizes_le: "n \<in> set array_sizes \<Longrightarrow> n \<le> 8192"
  unfolding array_sizes_def set_append set_upt by auto

lemma saturating_add_small: "Suc i < 2 ^ 64 \<Longrightarrow> saturating_add (of_nat i) 1 = of_nat (Suc i)"
  by (simp add: saturating_add_def unat_of_nat)

text \<open>The calls of \<open>from_fn\<close>: with positions as natural numbers, from the first to the last.\<close>

lemma from_fn_calls:
  assumes "i + n < 2 ^ 64"
  shows "map_closure (from_fn_step cb) (replicate n ()) (of_nat i, s) =
    (let (xs, s) = map_closure (\<lambda>k. cb (of_nat k)) [i..<i + n] s in (xs, of_nat (i + n), s))"
  using assms
proof (induction n arbitrary: i s)
  case (Suc n)
  have "saturating_add (of_nat i) 1 = of_nat (Suc i)"
    using Suc.prems by (intro saturating_add_small) simp
  with Suc.IH[of "Suc i"] Suc.prems show ?case
    by (simp add: from_fn_step_def Let_def split_beta upt_conv_Cons del: upt_Suc of_nat_Suc)
qed simp

lemma map_closure_pure: "map_closure (\<lambda>x s. (f x, s)) xs s = (map f xs, s)"
  by (induction xs arbitrary: s) auto

lemma byte_array_le:
  "sized_array n a \<Longrightarrow> sized_array n b \<Longrightarrow> a \<le> b \<longleftrightarrow> be_value (as_slice a) \<le> be_value (as_slice b)"
  using array_le_slices [of n a b] be_value_le [of "as_slice a" "as_slice b"] by (simp add: sized_array_def as_slice_def)

section \<open>Properties\<close>

text \<open>
  (C30) \<open>from_fn\<close> calls the closure on \<open>0, 1, \<dots>, n - 1\<close> in this order and stores what it returns at these positions.  For
  every size of the table the position fits its \<open>usize\<close>, so the saturating addition never saturates.
\<close>

theorem from_fn_in_order:
  assumes "n \<in> set array_sizes" and "from_fn n cb s = (a, s')"
  shows "sized_array n a \<and> map_closure (\<lambda>k. cb (of_nat k)) [0..<n] s = (as_slice a, s') \<and>
    list_all (\<lambda>k. unat (of_nat k :: u64) = k \<and> saturating_add (of_nat k) 1 = of_nat (k + 1)) [0..<n]"
proof -
  have n: "n \<le> 8192" using assms(1) by (rule array_sizes_le)
  obtain xs t where xs: "map_closure (\<lambda>k. cb (of_nat k)) [0..<n] s = (xs, t)" by force
  then have "from_fn n cb s = (from_core_array n xs, t)"
    using from_fn_calls[of 0 n cb s] n by (simp add: from_fn_def)
  with assms(2) have a: "a = from_core_array n xs" "s' = t" by simp_all
  have "sized_array n a" "as_array_ref a = xs"
    using arr.collected[OF xs, of n] a by simp_all
  moreover have "unat (of_nat k :: u64) = k \<and> saturating_add (of_nat k) 1 = of_nat (k + 1)" if "k < n" for k
    using that n saturating_add_small[of k] by (simp add: unat_of_nat)
  ultimately show ?thesis
    using xs a by (simp add: list_all_iff as_slice_def as_array_ref_def)
qed

theorem from_fn_in_order_witness:
  "\<exists>a. from_fn 3 (\<lambda>i s. (unat i * 10, s @ [i])) [] = (a, [0, 1, 2]) \<and> sized_array 3 a \<and> as_slice a = [0, 10, 20]"
proof -
  have 3: "3 \<in> set array_sizes" unfolding array_sizes_def set_append set_upt by simp
  obtain a s' where a: "from_fn 3 (\<lambda>i s. (unat i * 10, s @ [i])) [] = (a, s')" by force
  from from_fn_in_order[OF 3 a] have "sized_array 3 a" "as_slice a = [0, 10, 20]" "s' = [0, 1, 2]"
    by (simp_all add: upt_rec)
  with a show ?thesis by blast
qed

text \<open>
  An array of size \<open>n\<close> is made of exactly the slices of length \<open>n\<close>, the others are refused; it gives the slice back.
  Positions and ranges inside are read and written as in the slice, others panic, and every operation keeps the size.
\<close>

theorem array_slices_typed:
  "(from_slice n xs = Ok a \<longleftrightarrow> sized_array n a \<and> as_slice a = xs) \<and> array_try_from n xs = from_slice n xs \<and>
   (length xs \<noteq> n \<longrightarrow> from_slice n xs = Err TryFromSliceError) \<and>
   (sized_array n a \<longrightarrow>
      (array_index a i = (if i < n then Return (as_slice a ! i) else Panic Out_Of_Bounds)) \<and>
      (returns (array_index_range a i j) \<longleftrightarrow> i \<le> j \<and> j \<le> n) \<and>
      (\<forall>b. array_index_mut a i x = Return b \<longleftrightarrow> i < n \<and> sized_array n b \<and> as_slice b = (as_slice a)[i := x]) \<and>
      sized_array n (fst (array_iter_mut f a s)) \<and> length (fst (array_map g a s)) = n)"
proof -
  have "array_index_mut a i x = Return b \<longleftrightarrow> i < n \<and> sized_array n b \<and> as_slice b = (as_slice a)[i := x]"
    if "sized_array n a" for b
    using that by (cases a; cases b) (auto simp: array_index_mut_def sized_array_def as_slice_def as_mut_slice_def set_at_def
      split: if_splits)
  moreover have "from_slice n xs = Ok a \<longleftrightarrow> sized_array n a \<and> as_slice a = xs"
    by (cases a) (auto simp: from_slice_def slice_try_into_def sized_array_def as_slice_def)
  ultimately show ?thesis
    by (auto simp: from_slice_def array_try_from_def slice_try_into_def sized_array_def as_slice_def as_array_ref_def
      as_array_mut_def array_index_def array_index_range_def array_iter_mut_def array_map_def index_at_def slice_def
      map_closure_length Let_def split_beta)
qed

theorem array_slices_typed_witness:
  "\<exists>a. from_slice 2 [7, 8 :: u8] = Ok a \<and> from_slice 3 [7, 8 :: u8] = Err TryFromSliceError \<and>
     array_index a 1 = Return 8 \<and> array_index a 2 = Panic Out_Of_Bounds \<and> returns (array_index_range a 1 2) \<and>
     (\<exists>b. array_index_mut a 0 9 = Return b \<and> as_slice b = [9, 8]) \<and> length (fst (array_map (\<lambda>x (s :: nat). (x, s)) a 0)) = 2"
proof -
  obtain a where a: "from_slice 2 [7, 8 :: u8] = Ok a"
    by (simp add: from_slice_def slice_try_into_def)
  note T = array_slices_typed[where xs = "[7, 8]" and a = a and f = "\<lambda>x s. (x, s)" and g = "\<lambda>x s. (x, s)" and s = "0 :: nat"]
  have slice: "sized_array 2 a" "as_slice a = [7, 8]"
    using a conjunct1[OF T, of 2] by simp_all
  define b where "b = from_core_array 2 [9, 8 :: u8]"
  have b: "sized_array 2 b" "as_slice b = [9, 8]"
    by (simp_all add: b_def sized_array_def from_core_array_def as_slice_def)
  have "array_index a 1 = Return 8" "array_index a 2 = Panic Out_Of_Bounds" "returns (array_index_range a 1 2)"
    "length (fst (array_map (\<lambda>x (s :: nat). (x, s)) a 0)) = 2"
    using T[of 2 1 2] T[of 2 2] slice by simp_all
  moreover have "from_slice 3 [7, 8 :: u8] = Err TryFromSliceError" using T[of 3] by simp
  moreover have "array_index_mut a 0 9 = Return b" using T[of 2 0 _ 9] slice b by simp
  ultimately show ?thesis using a b(2) by blast
qed

end
