(* ===== verification/Opaque_Debug.thy ===== *)
theory Opaque_Debug
  imports Rust_Prelude
begin

text \<open>
  The macro \<open>implement!\<close> of \<^verbatim>\<open>opaque-debug\<close> (\<^verbatim>\<open>opaque-debug/src/lib.rs\<close>): a \<open>Debug\<close> implementation that prints the
  name of a type and none of its contents.  The name is the text of the type; \<open>write!\<close> with no arguments is the part
  of the formatting machinery used.
\<close>

text \<open>A format string without arguments: doubled braces stand for one; a single brace does not compile.\<close>

fun format_literal :: "string \<Rightarrow> string option" where
  "format_literal [] = Some []"
| "format_literal [c] = (if c = CHR ''{'' \<or> c = CHR ''}'' then None else Some [c])"
| "format_literal (c # d # s) =
     (if c = CHR ''{'' \<or> c = CHR ''}'' then if d = c then map_option ((#) c) (format_literal s) else None
      else map_option ((#) c) (format_literal (d # s)))"

text \<open>The generated \<open>fmt\<close>: it appends to what the formatter has; \<open>None\<close> if the macro does not compile.\<close>

definition opaque_fmt :: "string \<Rightarrow> 'a \<Rightarrow> string \<Rightarrow> string option" where
  "opaque_fmt struct self f = map_option ((@) f) (format_literal (struct @ '' {{ ... }}''))"

lemma format_literal_Cons:
  "c \<noteq> CHR ''{'' \<Longrightarrow> c \<noteq> CHR ''}'' \<Longrightarrow> format_literal (c # s) = map_option ((#) c) (format_literal s)"
  by (cases s) auto

lemma format_literal_plain:
  assumes "CHR ''{'' \<notin> set s" and "CHR ''}'' \<notin> set s"
  shows "format_literal (s @ t) = map_option ((@) s) (format_literal t)"
  using assms
  by (induction s) (cases "format_literal t"; auto simp: format_literal_Cons)+

text \<open>
  For a type whose text has no braces the macro prints the name and three dots, whatever the value; for a
  type such as \<open>S<{N}>\<close> it does not compile.
\<close>

lemma opaque_fmt_hides:
  assumes "CHR ''{'' \<notin> set struct" and "CHR ''}'' \<notin> set struct"
  shows "opaque_fmt struct self f = Some (f @ struct @ '' { ... }'')"
  using assms by (simp add: opaque_fmt_def format_literal_plain)

lemma opaque_fmt_const_argument: "opaque_fmt ''S<{N}>'' self f = None"
  by (simp add: opaque_fmt_def)

end
