(* ===== verification/Blobby.thy ===== *)
theory Blobby
  imports Rust_Prelude "HOL-Library.List_Lexorder" "HOL-Library.Product_Lexorder"
begin

text \<open>
  The crate \<^verbatim>\<open>blobby\<close>: a file format for sequences of binary blobs with a table of repeated ones,
  its encoder \<open>encode_blobs\<close>, and the iterators that decode it.

  A \<open>BTreeMap<&[u8], _>\<close> is an association list in increasing key order, where byte slices are
  compared lexicographically.  The scratch buffer of \<open>encode_vlq\<close> is created anew for every call:
  the returned slice holds only bytes written by the same call.
\<close>

section \<open>Variable-length quantities\<close>

datatype BlobError = InvalidVlq | InvalidIndex | UnexpectedEnd | NotEnoughElements

definition NEXT_MASK :: u8 where "NEXT_MASK = 0b10000000"
definition VAL_MASK :: u8 where "VAL_MASK = 0b01111111"

text \<open>
  \<open>read_vlq\<close> returns the result and the new \<open>pos\<close>.  The first argument of the loop counts the
  remaining uses of \<open>step!\<close>.
\<close>

fun read_vlq_steps :: "nat \<Rightarrow> u8 \<Rightarrow> nat \<Rightarrow> bytes \<Rightarrow> nat \<Rightarrow> (BlobError, nat) result \<times> nat" where
  "read_vlq_steps 0 next_bit val data pos =
     (if next_bit \<noteq> 0 then (Err InvalidVlq, pos) else (Ok val, pos))"
| "read_vlq_steps (Suc k) next_bit val data pos =
     (if next_bit = 0 then (Ok val, pos)
      else if pos < length data then
        let b = data ! pos;
            next_bit = b AND NEXT_MASK;
            t = unat (b AND VAL_MASK)
        in read_vlq_steps k next_bit (push_bit 7 (val + 1) + t) data (pos + 1)
      else (Err UnexpectedEnd, pos))"

definition read_vlq :: "bytes \<Rightarrow> nat \<Rightarrow> (BlobError, nat) result \<times> nat" where
  "read_vlq data pos =
     (if pos < length data then
        let b = data ! pos
        in read_vlq_steps 3 (b AND NEXT_MASK) (unat (b AND VAL_MASK)) data (pos + 1)
      else (Err UnexpectedEnd, pos))"

text \<open>\<open>step!(n)\<close> for \<open>n\<close> from 3 down to 0.\<close>

fun encode_vlq_steps :: "nat \<Rightarrow> nat \<Rightarrow> bytes \<Rightarrow> bytes outcome" where
  "encode_vlq_steps n val buf =
     and_then
       (if n = 3 then Return (of_nat (val AND unat VAL_MASK), val)
        else and_then (checked_sub val 1) (\<lambda>val.
               Return (NEXT_MASK OR of_nat (val AND unat VAL_MASK), val)))
       (\<lambda>(b, val).
          let buf = buf[n := b]; val = drop_bit 7 val in
          if val = 0 then Return (drop n buf)
          else case n of
                 0 \<Rightarrow> Panic (Message ''integer is too big'')
               | Suc m \<Rightarrow> encode_vlq_steps m val buf)"

declare encode_vlq_steps.simps [simp del]

definition encode_vlq :: "nat \<Rightarrow> bytes outcome" where
  "encode_vlq val = encode_vlq_steps 3 val (replicate 4 0)"

section \<open>Encoder\<close>

text \<open>\<open>*idx_map.entry(blob).or_insert(0) += 1\<close>, with the count an \<open>i32\<close>.\<close>

fun count_entry :: "bytes \<Rightarrow> (bytes \<times> nat) list \<Rightarrow> (bytes \<times> nat) list outcome" where
  "count_entry k [] = Return [(k, 1)]"
| "count_entry k ((k', v) # m) =
     (if k = k' then if v + 1 < 2 ^ 31 then Return ((k', v + 1) # m) else Panic Overflow
      else if k < k' then Return ((k, 1) # (k', v) # m)
      else and_then (count_entry k m) (\<lambda>m'. Return ((k', v) # m')))"

fun count_blobs :: "bytes list \<Rightarrow> (bytes \<times> nat) list \<Rightarrow> (bytes \<times> nat) list outcome" where
  "count_blobs [] m = Return m"
| "count_blobs (b # bs) m =
     (if b \<noteq> [] then and_then (count_entry b m) (count_blobs bs) else count_blobs bs m)"

text \<open>The rank and the count of an index entry; the entries are keys of the map, so \<open>unwrap\<close> succeeds.\<close>

definition index_rank :: "bytes \<Rightarrow> nat" where
  "index_rank e = (if e = [0] then 2 else if e = [1] then 1 else 0)"

definition index_count :: "(bytes \<times> nat) list \<Rightarrow> bytes \<Rightarrow> nat" where
  "index_count m e = (case map_of m e of Some v \<Rightarrow> v | None \<Rightarrow> 0)"

definition blob_index :: "(bytes \<times> nat) list \<Rightarrow> bytes list" where
  "blob_index m =
     (let idx = map fst (filter (\<lambda>(_, v). v > 1) m);
          idx = sort_key (\<lambda>e. (index_rank e, index_count m e)) idx
      in rev idx)"

fun encode_index :: "bytes list \<Rightarrow> bytes outcome" where
  "encode_index [] = Return []"
| "encode_index (e # es) =
     and_then (encode_vlq (length e)) (\<lambda>n. and_then (encode_index es) (\<lambda>out. Return (n @ e @ out)))"

definition encode_blob :: "(bytes \<Rightarrow> nat option) \<Rightarrow> bytes \<Rightarrow> bytes outcome" where
  "encode_blob rev_idx blob =
     (case rev_idx blob of
        Some dup_pos \<Rightarrow> encode_vlq (push_bit 1 dup_pos + 1)
      | None \<Rightarrow> and_then (encode_vlq (push_bit 1 (length blob))) (\<lambda>n. Return (n @ blob)))"

fun encode_entries :: "(bytes \<Rightarrow> nat option) \<Rightarrow> bytes list \<Rightarrow> bytes outcome" where
  "encode_entries rev_idx [] = Return []"
| "encode_entries rev_idx (b # bs) =
     and_then (encode_blob rev_idx b) (\<lambda>n. and_then (encode_entries rev_idx bs) (\<lambda>out. Return (n @ out)))"

definition encode_blobs :: "bytes list \<Rightarrow> (bytes \<times> nat) outcome" where
  "encode_blobs blobs =
     and_then (count_blobs blobs []) (\<lambda>idx_map.
       let idx = blob_index idx_map;
           idx_len = length idx;
           rev_idx = map_of (rev (zip idx [0..<length idx]))
       in and_then (encode_vlq (length idx)) (\<lambda>n.
          and_then (encode_index idx) (\<lambda>table.
          and_then (encode_entries rev_idx blobs) (\<lambda>out.
            Return (n @ table @ out, idx_len)))))"

section \<open>Decoder\<close>

record blob_iterator =
  it_data :: bytes
  it_dedup :: "bytes list"
  it_pos :: nat

text \<open>The loop over \<open>dedup.iter_mut()\<close>; its first argument counts the entries still to fill.\<close>

fun read_index :: "nat \<Rightarrow> bytes \<Rightarrow> nat \<Rightarrow> (bytes list \<times> nat) outcome" where
  "read_index 0 data pos = Return ([], pos)"
| "read_index (Suc n) data pos =
     (let (r, pos) = read_vlq data pos in
      and_then (unwrap r) (\<lambda>m.
      and_then (slice data pos (pos + m)) (\<lambda>entry.
      and_then (read_index n data (pos + m)) (\<lambda>(entries, pos). Return (entry # entries, pos)))))"

definition blob_new :: "bytes \<Rightarrow> (BlobError, blob_iterator) result outcome" where
  "blob_new data =
     (let (r, pos) = read_vlq data 0 in
      case r of
        Err e \<Rightarrow> Return (Err e)
      | Ok dedup_n \<Rightarrow>
          and_then (read_index dedup_n data pos) (\<lambda>(dedup, pos).
          and_then (slice_from data pos) (\<lambda>rest.
            Return (Ok \<lparr>it_data = rest, it_dedup = dedup, it_pos = 0\<rparr>))))"

definition blob_read :: "blob_iterator \<Rightarrow> ((BlobError, bytes) result \<times> blob_iterator) outcome" where
  "blob_read self =
     (let (r, pos) = read_vlq (it_data self) (it_pos self); self = self\<lparr>it_pos := pos\<rparr> in
      and_then (unwrap r) (\<lambda>val.
        let is_ref = (val AND 1 \<noteq> 0); val = drop_bit 1 val in
        if is_ref then
          if val \<ge> length (it_dedup self) then Return (Err InvalidIndex, self)
          else Return (Ok (it_dedup self ! val), self)
        else
          let s = it_pos self; self = self\<lparr>it_pos := it_pos self + val\<rparr> in
          Return
            (if it_pos self \<le> length (it_data self) then Ok (take val (drop s (it_data self)))
             else Err UnexpectedEnd, self)))"

definition error_block :: "blob_iterator \<Rightarrow> blob_iterator" where
  "error_block self = self\<lparr>it_pos := length (it_data self)\<rparr>"

definition blob_next :: "blob_iterator \<Rightarrow> ((BlobError, bytes) result option \<times> blob_iterator) outcome" where
  "blob_next self =
     (if it_pos self < length (it_data self) then
        and_then (blob_read self) (\<lambda>(val, self).
          case val of
            Err e \<Rightarrow> Return (Some (Err e), error_block self)
          | Ok v \<Rightarrow> Return (Some (Ok v), self))
      else Return (None, self))"

text \<open>
  The iterators made by \<open>new_iter!(name, n)\<close> wrap a \<open>BlobIterator\<close>; the loop over \<open>res.iter_mut().enumerate()\<close>
  has the index \<open>i\<close> and the values read so far.
\<close>

fun blobn_loop ::
  "nat \<Rightarrow> nat \<Rightarrow> bytes list \<Rightarrow> blob_iterator \<Rightarrow> ((BlobError, bytes list) result option \<times> blob_iterator) outcome" where
  "blobn_loop 0 i res inner = Return (Some (Ok res), inner)"
| "blobn_loop (Suc k) i res inner =
     and_then (blob_next inner) (\<lambda>(v, inner).
       case v of
         Some (Ok val) \<Rightarrow> blobn_loop k (i + 1) (res @ [val]) inner
       | Some (Err e) \<Rightarrow> Return (Some (Err e), inner)
       | None \<Rightarrow> if i = 0 then Return (None, inner)
                 else Return (Some (Err NotEnoughElements), error_block inner))"

definition blobn_next ::
  "nat \<Rightarrow> blob_iterator \<Rightarrow> ((BlobError, bytes list) result option \<times> blob_iterator) outcome" where
  "blobn_next n self = blobn_loop n 0 [] self"

section \<open>Bijective base 128\<close>

text \<open>
  The git-flavoured quantity of \<open>v\<close> is the bijective base-128 numeral of \<open>v + 1\<close>, most significant
  digit first, with the top bit set on all digits but the last.
\<close>

fun vlq_digits :: "nat \<Rightarrow> nat list" where
  "vlq_digits 0 = []"
| "vlq_digits (Suc v) = vlq_digits (v div 128) @ [v mod 128]"

definition vlq_push :: "nat \<Rightarrow> nat \<Rightarrow> nat" where
  "vlq_push a d = a * 128 + d + 1"

fun vlq_bytes :: "nat list \<Rightarrow> bytes" where
  "vlq_bytes [] = []"
| "vlq_bytes (d # ds) = (if ds = [] then of_nat d else NEXT_MASK OR of_nat d) # vlq_bytes ds"

lemma length_vlq_bytes [simp]: "length (vlq_bytes ds) = length ds"
  by (induction ds) auto

lemma vlq_bytes_Nil [simp]: "vlq_bytes ds = [] \<longleftrightarrow> ds = []"
  by (cases ds) auto

lemma vlq_digits_less: "d \<in> set (vlq_digits n) \<Longrightarrow> d < 128"
  by (induction n rule: vlq_digits.induct) auto

lemma vlq_digits_Nil [simp]: "vlq_digits n = [] \<longleftrightarrow> n = 0"
  by (cases n) auto

lemma vlq_value_digits: "foldl vlq_push 0 (vlq_digits n) = n"
  by (induction n rule: vlq_digits.induct) (auto simp: vlq_push_def)

lemma vlq_digits_value:
  "(\<And>d. d \<in> set ds \<Longrightarrow> d < 128) \<Longrightarrow> vlq_digits (foldl vlq_push 0 ds) = ds"
proof (induction ds rule: rev_induct)
  case (snoc d ds)
  then have "vlq_digits (foldl vlq_push 0 ds) = ds" "d < 128" by auto
  then show ?case by (simp add: vlq_push_def [of _ d])
qed simp

fun vlq_limit :: "nat \<Rightarrow> nat" where
  "vlq_limit 0 = 0"
| "vlq_limit (Suc k) = 128 * vlq_limit k + 128"

lemma vlq_digits_length: "length (vlq_digits n) \<le> k \<longleftrightarrow> n \<le> vlq_limit k"
proof (induction k arbitrary: n)
  case (Suc k)
  show ?case
  proof (cases n)
    case (Suc v)
    have "length (vlq_digits n) \<le> Suc k \<longleftrightarrow> v div 128 \<le> vlq_limit k"
      using Suc Suc.IH [of "v div 128"] by simp
    also have "\<dots> \<longleftrightarrow> v < (vlq_limit k + 1) * 128"
      using div_less_iff_less_mult [of 128 v "vlq_limit k + 1"] by (simp add: less_Suc_eq_le)
    also have "\<dots> \<longleftrightarrow> n \<le> vlq_limit (Suc k)" using Suc by auto
    finally show ?thesis .
  qed simp
qed simp

lemma vlq_digits_le_4: "length (vlq_digits (v + 1)) \<le> 4 \<longleftrightarrow> v \<le> 270549119"
proof -
  have "vlq_limit (Suc (Suc (Suc (Suc 0)))) = 270549120" by simp
  moreover have "4 = Suc (Suc (Suc (Suc 0)))" by simp
  ultimately have "vlq_limit 4 = 270549120" by (simp only:)
  then show ?thesis unfolding vlq_digits_length by simp
qed

section \<open>The masks\<close>

lemma unat_VAL_MASK [simp]: "unat (b AND VAL_MASK) = unat b mod 128"
proof -
  have "b AND VAL_MASK = take_bit 7 b" by (simp add: VAL_MASK_def take_bit_eq_mask mask_eq_exp_minus_1)
  then have "unat (b AND VAL_MASK) = take_bit 7 (unat b)" by (simp only: unsigned_take_bit_eq)
  then show ?thesis by (simp add: take_bit_eq_mod)
qed

lemma NEXT_MASK_eq_0: "b AND NEXT_MASK = 0 \<longleftrightarrow> unat b < 128"
proof -
  have "NEXT_MASK = 2 ^ 7" by (simp add: NEXT_MASK_def)
  then have "b AND NEXT_MASK = 0 \<longleftrightarrow> \<not> bit b 7" by (metis and_exp_eq_0_iff_not_bit)
  also have "bit b 7 \<longleftrightarrow> odd (unat b div 128)"
  proof -
    have "bit b 7 \<longleftrightarrow> bit (unat b) 7" by (auto simp: bit_unsigned_iff dest: bit_imp_le_length)
    then show ?thesis by (simp add: bit_iff_odd [of "unat b"])
  qed
  also have "\<not> odd (unat b div 128) \<longleftrightarrow> unat b < 128"
  proof (cases "unat b < 128")
    case False
    then have "unat b div 128 = 1" using unat_u8_lt [of b] by linarith
    with False show ?thesis by simp
  qed simp
  finally show ?thesis .
qed

lemma unat_next_byte:
  assumes "d < 128"
  shows "unat (NEXT_MASK OR of_nat d :: u8) = 128 + d"
proof -
  have "bit NEXT_MASK n \<longleftrightarrow> n = 7" for n
    by (auto simp: NEXT_MASK_def bit_exp_iff [of 7, simplified])
  moreover have "\<not> bit (of_nat d :: u8) 7"
    using assms by (simp add: bit_of_nat_iff bit_iff_odd [of d])
  ultimately have "NEXT_MASK + of_nat d = NEXT_MASK OR (of_nat d :: u8)"
    by (intro disjunctive_add) auto
  then have "NEXT_MASK OR (of_nat d :: u8) = of_nat (128 + d)" by (simp add: NEXT_MASK_def)
  then show ?thesis using assms by (simp del: of_nat_add)
qed

lemma vlq_byte_cases:
  obtains "unat b < 128" "b = of_nat (unat b mod 128)" | "128 \<le> unat b" "b = NEXT_MASK OR of_nat (unat b mod 128)"
proof (cases "unat b < 128")
  case False
  then have "unat b - 128 < 128" using unat_u8_lt [of b] by linarith
  then have "unat b mod 128 = unat b - 128" using False by (simp add: le_mod_geq)
  then have "unat (NEXT_MASK OR of_nat (unat b mod 128) :: u8) = unat b"
    using False unat_next_byte [of "unat b mod 128"] by simp
  with False that(2) show thesis by (metis not_less word_eq_iff_unsigned)
qed (use that(1) in simp)

section \<open>Quantities are written and read correctly\<close>

lemma and_127: "n AND 127 = n mod (128 :: nat)"
  using take_bit_eq_mask [of 7 n] by (simp add: mask_eq_exp_minus_1 take_bit_eq_mod)

lemma case_3: "(case 3 of 0 \<Rightarrow> a | Suc m \<Rightarrow> f m) = f (2 :: nat)"
  by (simp add: numeral_3_eq_3 numeral_2_eq_2)

lemma encode_vlq_steps_digits:
  assumes "0 < w" "n < 3" "length buf = 4"
  shows "encode_vlq_steps n w buf =
    (if length (vlq_digits w) \<le> Suc n
     then Return (map (\<lambda>d. NEXT_MASK OR of_nat d) (vlq_digits w) @ drop (Suc n) buf)
     else Panic (Message ''integer is too big''))"
  using assms
proof (induction n arbitrary: w buf)
  case (0 w buf)
  then obtain v where "w = Suc v" by (cases w) auto
  with 0 show ?case
    by (cases buf)
       (auto simp: encode_vlq_steps.simps [of 0] checked_sub_def VAL_MASK_def and_127 drop_bit_eq_div Suc_le_eq)
next
  case (Suc n w buf)
  then obtain v where v: "w = Suc v" by (cases w) auto
  let ?b = "NEXT_MASK OR of_nat (v mod 128)"
  have upd: "drop (Suc n) (buf[Suc n := ?b]) = ?b # drop (Suc (Suc n)) buf"
    using Suc.prems by (simp add: drop_update_here)
  have "encode_vlq_steps (Suc n) w buf =
      (if v div 128 = 0 then Return (?b # drop (Suc (Suc n)) buf)
       else encode_vlq_steps n (v div 128) (buf[Suc n := ?b]))"
    using Suc.prems v
    by (simp add: drop_update_here encode_vlq_steps.simps [of "Suc n"] checked_sub_def VAL_MASK_def and_127 drop_bit_eq_div)
  then show ?case
    using Suc.IH [of "v div 128" "buf[Suc n := ?b]"] Suc.prems v upd by auto
qed

lemma vlq_bytes_snoc:
  "vlq_bytes (ds @ [d]) = map (\<lambda>d. NEXT_MASK OR of_nat d) ds @ [of_nat d]"
  by (induction ds) auto

lemma encode_vlq_digits:
  "encode_vlq v =
    (if v \<le> 270549119 then Return (vlq_bytes (vlq_digits (v + 1))) else Panic (Message ''integer is too big''))"
proof -
  let ?buf = "replicate 4 (0 :: u8)" and ?b = "of_nat (v mod 128) :: u8"
  have upd: "drop 3 (?buf[3 := ?b]) = [?b]" by (simp add: drop_update_here)
  have "encode_vlq v = (if v div 128 = 0 then Return [?b]
      else encode_vlq_steps 2 (v div 128) (?buf[3 := ?b]))"
    by (simp add: drop_update_here encode_vlq_def encode_vlq_steps.simps [of 3] case_3 VAL_MASK_def and_127
        drop_bit_eq_div)
  also have "\<dots> = (if length (vlq_digits (v + 1)) \<le> 4 then Return (vlq_bytes (vlq_digits (v + 1)))
      else Panic (Message ''integer is too big''))"
    using encode_vlq_steps_digits [of "v div 128" 2 "?buf[3 := ?b]"] upd
    by (auto simp: vlq_bytes_snoc)
  finally show ?thesis unfolding vlq_digits_le_4 .
qed

lemma vlq_push_gt: "0 < foldl vlq_push a ds \<longleftrightarrow> 0 < a \<or> ds \<noteq> []"
  by (induction ds arbitrary: a) (auto simp: vlq_push_def)

text \<open>Reading the digits that follow the first one.\<close>

lemma read_vlq_steps_bytes:
  assumes "\<And>d. d \<in> set ds \<Longrightarrow> d < 128" "length ds \<le> k" "nx = 0 \<longleftrightarrow> ds = []"
  shows "read_vlq_steps k nx val (pre @ vlq_bytes ds @ suf) (length pre) =
           (Ok (foldl vlq_push (val + 1) ds - 1), length pre + length ds)"
  using assms
proof (induction ds arbitrary: k nx val pre)
  case Nil
  then show ?case by (cases k) auto
next
  case (Cons d ds)
  then obtain j where j: "k = Suc j" by (cases k) auto
  let ?b = "(if ds = [] then of_nat d else NEXT_MASK OR of_nat d) :: u8"
  have d: "d < 128" using Cons.prems(1) by simp
  have b: "unat ?b mod 128 = d" "?b AND NEXT_MASK = 0 \<longleftrightarrow> ds = []"
    using d unat_next_byte [OF d] by (auto simp: NEXT_MASK_eq_0)
  have "read_vlq_steps k nx val (pre @ vlq_bytes (d # ds) @ suf) (length pre) =
      read_vlq_steps j (?b AND NEXT_MASK) (push_bit 7 (val + 1) + d) ((pre @ [?b]) @ vlq_bytes ds @ suf)
        (length (pre @ [?b]))"
    using Cons.prems(3) j b(1) by (simp add: nth_append Let_def)
  also have "\<dots> = (Ok (foldl vlq_push (push_bit 7 (val + 1) + d + 1) ds - 1), length (pre @ [?b]) + length ds)"
    using Cons.prems j b(2) by (intro Cons.IH) auto
  also have "push_bit 7 (val + 1) + d + 1 = vlq_push (val + 1) d"
    by (simp add: vlq_push_def push_bit_eq_mult)
  finally show ?case by simp
qed

lemma read_vlq_bytes:
  assumes "\<And>d. d \<in> set ds \<Longrightarrow> d < 128" "length ds \<le> 4" "ds \<noteq> []"
  shows "read_vlq (pre @ vlq_bytes ds @ suf) (length pre) =
           (Ok (foldl vlq_push 0 ds - 1), length pre + length ds)"
proof -
  obtain d es where ds: "ds = d # es" using assms(3) by (cases ds) auto
  let ?b = "(if es = [] then of_nat d else NEXT_MASK OR of_nat d) :: u8"
  have d: "d < 128" using assms(1) ds by simp
  have b: "unat ?b mod 128 = d" "?b AND NEXT_MASK = 0 \<longleftrightarrow> es = []"
    using d unat_next_byte [OF d] by (auto simp: NEXT_MASK_eq_0)
  have "read_vlq (pre @ vlq_bytes ds @ suf) (length pre) =
      read_vlq_steps 3 (?b AND NEXT_MASK) d ((pre @ [?b]) @ vlq_bytes es @ suf) (length (pre @ [?b]))"
    using ds b(1) by (simp add: read_vlq_def nth_append Let_def)
  also have "\<dots> = (Ok (foldl vlq_push (d + 1) es - 1), length (pre @ [?b]) + length es)"
    using assms ds b(2) by (intro read_vlq_steps_bytes) auto
  finally show ?thesis by (simp add: ds vlq_push_def [of 0])
qed

lemma read_encode_vlq:
  assumes "encode_vlq v = Return bs"
  shows "read_vlq (pre @ bs @ suf) (length pre) = (Ok v, length pre + length bs)"
proof -
  define ds where "ds = vlq_digits (v + 1)"
  have v: "v \<le> 270549119" "bs = vlq_bytes ds"
    using assms by (auto simp: encode_vlq_digits ds_def split: if_splits)
  have "length ds \<le> 4" "ds \<noteq> []" using v(1) unfolding ds_def vlq_digits_le_4 by simp_all
  moreover have "\<And>d. d \<in> set ds \<Longrightarrow> d < 128" unfolding ds_def by (rule vlq_digits_less)
  moreover have "foldl vlq_push 0 ds = v + 1" unfolding ds_def by (rule vlq_value_digits)
  ultimately show ?thesis using read_vlq_bytes [of ds pre suf] v(2) by simp
qed

lemma read_vlq_steps_sound:
  assumes "read_vlq_steps k nx val data pos = (Ok v, pos')" "pos \<le> length data"
  shows "\<exists>ds. (\<forall>d \<in> set ds. d < 128) \<and> length ds \<le> k \<and> (nx = 0 \<longleftrightarrow> ds = []) \<and>
           v + 1 = foldl vlq_push (val + 1) ds \<and> pos' = pos + length ds \<and> pos' \<le> length data \<and>
           take (length ds) (drop pos data) = vlq_bytes ds"
  using assms
proof (induction k arbitrary: nx val pos)
  case 0
  then show ?case by (auto intro!: exI [of _ "[]"] split: if_splits)
next
  case (Suc k)
  show ?case
  proof (cases "nx = 0")
    case True
    with Suc.prems show ?thesis by (auto intro!: exI [of _ "[]"])
  next
    case False
    let ?b = "data ! pos"
    have lt: "pos < length data" using Suc.prems False by (auto split: if_splits)
    then have "read_vlq_steps k (?b AND NEXT_MASK) (push_bit 7 (val + 1) + unat ?b mod 128) data (pos + 1) = (Ok v, pos')"
      using Suc.prems False by (simp add: Let_def)
    from Suc.IH [OF this] lt obtain ds where ds: "\<forall>d \<in> set ds. d < 128" "length ds \<le> k"
        "?b AND NEXT_MASK = 0 \<longleftrightarrow> ds = []"
        "v + 1 = foldl vlq_push (push_bit 7 (val + 1) + unat ?b mod 128 + 1) ds"
        "pos' = pos + 1 + length ds" "pos' \<le> length data" "take (length ds) (drop (pos + 1) data) = vlq_bytes ds"
      by auto
    have "push_bit 7 (val + 1) + unat ?b mod 128 + 1 = vlq_push (val + 1) (unat ?b mod 128)"
      by (simp add: vlq_push_def push_bit_eq_mult)
    moreover have "?b = (if ds = [] then of_nat (unat ?b mod 128) else NEXT_MASK OR of_nat (unat ?b mod 128))"
      using ds(3) by (cases rule: vlq_byte_cases [of ?b]) (auto simp: NEXT_MASK_eq_0)
    moreover have "take (Suc (length ds)) (drop pos data) = ?b # take (length ds) (drop (pos + 1) data)"
      using lt by (simp add: Cons_nth_drop_Suc [symmetric])
    ultimately show ?thesis
      using ds False by (intro exI [of _ "(unat ?b mod 128) # ds"]) auto
  qed
qed

lemma read_vlq_sound:
  assumes "read_vlq data pos = (Ok v, pos')"
  shows "pos < pos' \<and> pos' \<le> length data \<and> pos' \<le> pos + 4 \<and> v \<le> 270549119 \<and>
         encode_vlq v = Return (take (pos' - pos) (drop pos data))"
proof -
  let ?b = "data ! pos"
  have lt: "pos < length data" using assms by (auto simp: read_vlq_def split: if_splits)
  then have "read_vlq_steps 3 (?b AND NEXT_MASK) (unat ?b mod 128) data (pos + 1) = (Ok v, pos')"
    using assms by (simp add: read_vlq_def Let_def)
  from read_vlq_steps_sound [OF this] lt obtain ds where ds: "\<forall>d \<in> set ds. d < 128" "length ds \<le> 3"
      "?b AND NEXT_MASK = 0 \<longleftrightarrow> ds = []" "v + 1 = foldl vlq_push (unat ?b mod 128 + 1) ds"
      "pos' = pos + 1 + length ds" "pos' \<le> length data" "take (length ds) (drop (pos + 1) data) = vlq_bytes ds"
    by auto
  let ?ds = "(unat ?b mod 128) # ds"
  have v: "v + 1 = foldl vlq_push 0 ?ds" using ds(4) by (simp add: vlq_push_def [of 0])
  have "\<And>d. d \<in> set ?ds \<Longrightarrow> d < 128" using ds(1) by auto
  then have digits: "vlq_digits (v + 1) = ?ds" unfolding v by (rule vlq_digits_value)
  then have "v \<le> 270549119"
    using vlq_digits_le_4 [of v] ds(2) by simp
  moreover have "vlq_bytes ?ds = take (pos' - pos) (drop pos data)"
  proof -
    have "?b = (if ds = [] then of_nat (unat ?b mod 128) else NEXT_MASK OR of_nat (unat ?b mod 128))"
      using ds(3) by (cases rule: vlq_byte_cases [of ?b]) (auto simp: NEXT_MASK_eq_0)
    moreover have "take (Suc (length ds)) (drop pos data) = ?b # take (length ds) (drop (pos + 1) data)"
      using lt by (simp add: Cons_nth_drop_Suc [symmetric])
    ultimately show ?thesis using ds(5,7) by auto
  qed
  ultimately show ?thesis
    using digits ds(2,5,6) by (simp add: encode_vlq_digits)
qed

section \<open>Iteration\<close>

text \<open>Every item an iterator yields moves it forward, so collecting the items ends.\<close>

lemma blob_read_forward:
  assumes "blob_read self = Return (r, self')"
  shows "it_data self' = it_data self \<and> it_dedup self' = it_dedup self \<and> it_pos self < it_pos self'"
proof -
  obtain q pos where q: "read_vlq (it_data self) (it_pos self) = (q, pos)" by fastforce
  then obtain v where "q = Ok v" using assms by (cases q) (auto simp: blob_read_def Let_def)
  with q have "it_pos self < pos" using read_vlq_sound by blast
  with q assms show ?thesis by (auto simp: blob_read_def Let_def split: if_splits)
qed

lemma blob_next_Some:
  assumes "blob_next self = Return (Some r, self')"
  obtains self1 where "it_pos self < length (it_data self)" "blob_read self = Return (r, self1)"
    "self' = (case r of Err _ \<Rightarrow> error_block self1 | Ok _ \<Rightarrow> self1)"
proof -
  have lt: "it_pos self < length (it_data self)" using assms by (auto simp: blob_next_def split: if_splits)
  with assms obtain a b where ab: "blob_read self = Return (a, b)" by (auto simp: blob_next_def)
  with assms lt that [of b] show thesis by (cases a) (auto simp: blob_next_def)
qed

lemma blob_next_forward:
  assumes "blob_next self = Return (Some r, self')"
  shows "it_data self' = it_data self \<and> it_dedup self' = it_dedup self \<and>
         it_pos self < length (it_data self) \<and> it_pos self < it_pos self'"
proof -
  obtain self1 where "it_pos self < length (it_data self)" "blob_read self = Return (r, self1)"
      "self' = (case r of Err _ \<Rightarrow> error_block self1 | Ok _ \<Rightarrow> self1)"
    using assms by (rule blob_next_Some)
  then show ?thesis
    using blob_read_forward [of self r self1] by (auto simp: error_block_def split: result.split)
qed

lemma blob_next_None: "blob_next self = Return (None, self') \<Longrightarrow> self' = self \<and> length (it_data self) \<le> it_pos self"
  by (cases "blob_read self") (auto simp: blob_next_def split: if_splits result.splits)

function blob_collect :: "blob_iterator \<Rightarrow> (BlobError, bytes) result list outcome" where
  "blob_collect self =
     and_then (blob_next self) (\<lambda>(r, self').
       case r of None \<Rightarrow> Return [] | Some v \<Rightarrow> and_then (blob_collect self') (\<lambda>vs. Return (v # vs)))"
  by auto
termination
  by (relation "measure (\<lambda>self. length (it_data self) - it_pos self)")
     (auto dest!: blob_next_forward)

declare blob_collect.simps [simp del]

lemma blobn_loop_forward:
  assumes "blobn_loop k i res self = Return (r, self')"
  shows "it_data self' = it_data self \<and>
         min (it_pos self) (length (it_data self)) \<le> min (it_pos self') (length (it_data self))"
  using assms
proof (induction k arbitrary: i res self)
  case (Suc k)
  then obtain v self1 where v: "blob_next self = Return (v, self1)" by auto
  show ?case
  proof (cases v)
    case None
    then show ?thesis
      using Suc.prems v blob_next_None [of self self1] by (auto simp: error_block_def split: if_splits)
  next
    case (Some w)
    with v have fw: "it_data self1 = it_data self" "it_pos self < it_pos self1"
      using blob_next_forward by auto
    show ?thesis
    proof (cases w)
      case (Ok x)
      then show ?thesis
        using Suc.IH [of "i + 1" "res @ [x]" self1] Suc.prems v Some fw by (auto simp: min_def split: if_splits)
    qed (use Suc.prems v Some fw in auto)
  qed
qed simp

lemma blobn_next_forward:
  assumes "blobn_next (Suc m) self = Return (Some r, self')"
  shows "it_data self' = it_data self \<and> it_pos self < length (it_data self) \<and> it_pos self < it_pos self'"
proof -
  obtain v self1 where v: "blob_next self = Return (Some v, self1)"
    using assms by (auto simp: blobn_next_def split: option.split_asm)
  note fw = blob_next_forward [OF v]
  show ?thesis
  proof (cases v)
    case (Ok x)
    then have "blobn_loop m 1 [x] self1 = Return (Some r, self')"
      using assms v by (simp add: blobn_next_def)
    from blobn_loop_forward [OF this] fw show ?thesis by (auto simp: min_def split: if_splits)
  qed (use assms v fw in \<open>auto simp: blobn_next_def\<close>)
qed

function blobn_collect :: "nat \<Rightarrow> blob_iterator \<Rightarrow> (BlobError, bytes list) result list outcome" where
  "blobn_collect m self =
     and_then (blobn_next (Suc m) self) (\<lambda>(r, self').
       case r of None \<Rightarrow> Return [] | Some v \<Rightarrow> and_then (blobn_collect m self') (\<lambda>vs. Return (v # vs)))"
  by auto
termination
  by (relation "measure (\<lambda>(m, self). length (it_data self) - it_pos self)")
     (auto dest!: blobn_next_forward)

declare blobn_collect.simps [simp del]

section \<open>The decoder reads what the encoder writes\<close>

lemma read_index_encode:
  assumes "encode_index idx = Return table"
  shows "read_index (length idx) (pre @ table @ suf) (length pre) = Return (idx, length pre + length table)"
  using assms
proof (induction idx arbitrary: pre table)
  case (Cons e es)
  then obtain n out where n: "encode_vlq (length e) = Return n" and out: "encode_index es = Return out"
    and table: "table = n @ e @ out" by auto
  have "read_index (length es) ((pre @ n @ e) @ out @ suf) (length (pre @ n @ e)) =
      Return (es, length (pre @ n @ e) + length out)"
    using Cons.IH [OF out] .
  then show ?case
    using read_encode_vlq [OF n, of pre "e @ out @ suf"] table
    by (simp add: slice_def add.assoc)
qed simp

definition at_entry :: "bytes \<Rightarrow> bytes list \<Rightarrow> nat \<Rightarrow> blob_iterator" where
  "at_entry data idx pos = \<lparr>it_data = data, it_dedup = idx, it_pos = pos\<rparr>"

lemma blob_read_encode:
  assumes "encode_blob rev_idx b = Return n"
    and rev_idx: "\<And>i. rev_idx b = Some i \<Longrightarrow> i < length idx \<and> idx ! i = b"
  shows "blob_read (at_entry (pre @ n @ suf) idx (length pre)) =
           Return (Ok b, at_entry (pre @ n @ suf) idx (length pre + length n))"
proof (cases "rev_idx b")
  case None
  then obtain q where q: "encode_vlq (push_bit 1 (length b)) = Return q" "n = q @ b"
    using assms(1) by (auto simp: encode_blob_def)
  have "push_bit 1 (length b) AND 1 = 0" "drop_bit 1 (push_bit 1 (length b)) = length b"
    by (simp_all add: and_one_eq drop_bit_eq_div)
  then show ?thesis
    using read_encode_vlq [OF q(1), of pre "b @ suf"] q(2)
    by (simp add: blob_read_def at_entry_def Let_def)
next
  case (Some i)
  then have q: "encode_vlq (push_bit 1 i + 1) = Return n" using assms(1) by (simp add: encode_blob_def)
  have "(push_bit 1 i + 1) AND 1 = (1 :: nat)" by (simp add: and_one_eq) presburger
  moreover have "drop_bit 1 (push_bit 1 i + 1) = i" by (simp add: drop_bit_eq_div)
  ultimately show ?thesis
    using read_encode_vlq [OF q, of pre suf] rev_idx [OF Some]
    by (simp add: blob_read_def at_entry_def Let_def)
qed

lemma encode_vlq_not_Nil: "encode_vlq v = Return n \<Longrightarrow> n \<noteq> []"
  by (auto simp: encode_vlq_digits split: if_splits)

lemma encode_blob_not_Nil: "encode_blob rev_idx b = Return n \<Longrightarrow> n \<noteq> []"
  by (auto simp: encode_blob_def dest: encode_vlq_not_Nil split: option.splits)

lemma blob_next_encode:
  assumes "encode_blob rev_idx b = Return n"
    and "\<And>i. rev_idx b = Some i \<Longrightarrow> i < length idx \<and> idx ! i = b"
  shows "blob_next (at_entry (pre @ n @ suf) idx (length pre)) =
           Return (Some (Ok b), at_entry (pre @ n @ suf) idx (length pre + length n))"
proof -
  have "it_pos (at_entry (pre @ n @ suf) idx (length pre)) < length (it_data (at_entry (pre @ n @ suf) idx (length pre)))"
    using encode_blob_not_Nil [OF assms(1)] by (simp add: at_entry_def)
  then show ?thesis using blob_read_encode [OF assms, of pre suf] by (simp add: blob_next_def)
qed

lemma blob_next_end: "blob_next (at_entry data idx (length data)) = Return (None, at_entry data idx (length data))"
  by (simp add: blob_next_def at_entry_def)

text \<open>The abstract view of an iterator: the blobs it will yield before it ends.\<close>

fun yields :: "blob_iterator \<Rightarrow> bytes list \<Rightarrow> bool" where
  "yields self [] \<longleftrightarrow> blob_next self = Return (None, self)"
| "yields self (b # bs) \<longleftrightarrow> (\<exists>self'. blob_next self = Return (Some (Ok b), self') \<and> yields self' bs)"

lemma yields_encode:
  assumes "encode_entries rev_idx blobs = Return out"
    and "\<And>b i. rev_idx b = Some i \<Longrightarrow> i < length idx \<and> idx ! i = b"
  shows "yields (at_entry (pre @ out) idx (length pre)) blobs"
  using assms(1)
proof (induction blobs arbitrary: pre out)
  case Nil
  then show ?case using blob_next_end [of pre idx] by simp
next
  case (Cons b bs)
  then obtain n out' where n: "encode_blob rev_idx b = Return n" "encode_entries rev_idx bs = Return out'"
    "out = n @ out'" by auto
  have "yields (at_entry ((pre @ n) @ out') idx (length (pre @ n))) bs"
    using Cons.IH [OF n(2)] .
  then show ?case
    using blob_next_encode [OF n(1) assms(2), of pre out'] n(3) by simp
qed

lemma yields_collect: "yields self blobs \<Longrightarrow> blob_collect self = Return (map Ok blobs)"
  by (induction self blobs rule: yields.induct) (auto simp: blob_collect.simps)

text \<open>How the iterators over \<open>n\<close> blobs cut the sequence, and what they say about an incomplete end.\<close>

lemma blobn_loop_yields:
  assumes "yields self blobs"
  shows "k \<le> length blobs \<Longrightarrow> \<exists>self'. blobn_loop k i res self = Return (Some (Ok (res @ take k blobs)), self') \<and>
           yields self' (drop k blobs)"
    and "length blobs < k \<Longrightarrow> \<exists>self'. blobn_loop k i res self =
           Return (if i + length blobs = 0 then None else Some (Err NotEnoughElements), self') \<and> yields self' []"
  using assms
proof (induction k arbitrary: i res self blobs)
  case (Suc k)
  {
    case 1
    then obtain b bs where b: "blobs = b # bs" by (cases blobs) auto
    with 1 obtain self1 where "blob_next self = Return (Some (Ok b), self1)" "yields self1 bs" by auto
    with Suc.IH(1) [of bs self1 "i + 1" "res @ [b]"] 1 b show ?case by auto
  next
    case 2
    show ?case
    proof (cases blobs)
      case Nil
      with 2 have "blob_next self = Return (None, self)" by simp
      then show ?thesis using Nil by (auto simp: error_block_def blob_next_def)
    next
      case (Cons b bs)
      with 2 obtain self1 where "blob_next self = Return (Some (Ok b), self1)" "yields self1 bs" by auto
      with Suc.IH(2) [of bs self1 "i + 1" "res @ [b]"] 2 Cons show ?thesis by auto
    qed
  }
qed auto

fun blob_groups :: "nat \<Rightarrow> bytes list \<Rightarrow> (BlobError, bytes list) result list" where
  "blob_groups m blobs =
     (if blobs = [] then []
      else if length blobs < Suc m then [Err NotEnoughElements]
      else Ok (take (Suc m) blobs) # blob_groups m (drop (Suc m) blobs))"

declare blob_groups.simps [simp del]

lemma yields_blobn_collect: "yields self blobs \<Longrightarrow> blobn_collect m self = Return (blob_groups m blobs)"
proof (induction m blobs arbitrary: self rule: blob_groups.induct)
  case (1 m blobs)
  show ?case
  proof (cases "length blobs < Suc m")
    case True
    then obtain self' where s: "blobn_next (Suc m) self =
        Return (if blobs = [] then None else Some (Err NotEnoughElements), self')" "yields self' []"
      using blobn_loop_yields(2) [OF 1(2), of "Suc m" 0 "[]"] by (auto simp: blobn_next_def)
    have "blobn_next (Suc m) self' = Return (None, self')"
      using s(2) by (simp add: blobn_next_def)
    then show ?thesis
      using s(1) True by (cases "blobs = []") (simp_all add: blobn_collect.simps blob_groups.simps)
  next
    case False
    then obtain self' where s: "blobn_next (Suc m) self = Return (Some (Ok (take (Suc m) blobs)), self')"
        "yields self' (drop (Suc m) blobs)"
      using blobn_loop_yields(1) [OF 1(2), of "Suc m" 0 "[]"] by (auto simp: blobn_next_def)
    moreover have "blobs \<noteq> []" using False by auto
    ultimately have "blobn_collect m self' = Return (blob_groups m (drop (Suc m) blobs))"
      using 1(1) False by blast
    then show ?thesis
      using s(1) False by (subst blobn_collect.simps, subst blob_groups.simps) auto
  qed
qed

lemma rev_idx_sound:
  assumes "map_of (rev (zip idx [0..<length idx])) b = Some i"
  shows "i < length idx \<and> idx ! i = b"
proof -
  have "(b, i) \<in> set (zip idx [0..<length idx])" using map_of_SomeD [OF assms] by simp
  then show ?thesis by (auto simp: in_set_zip)
qed

lemma encode_blobs_Return:
  assumes "encode_blobs blobs = Return (out, k)"
  obtains m n table entries where "count_blobs blobs [] = Return m" "k = length (blob_index m)"
    "encode_vlq (length (blob_index m)) = Return n" "encode_index (blob_index m) = Return table"
    "encode_entries (map_of (rev (zip (blob_index m) [0..<length (blob_index m)]))) blobs = Return entries"
    "out = n @ table @ entries"
  using assms by (auto simp: encode_blobs_def Let_def)

lemma decode_encode:
  assumes "encode_blobs blobs = Return (out, k)"
  shows "\<exists>idx data. blob_new out = Return (Ok (at_entry data idx 0)) \<and> length idx = k \<and>
           (\<exists>rev_idx. encode_entries rev_idx blobs = Return data \<and>
              (\<forall>b i. rev_idx b = Some i \<longrightarrow> i < length idx \<and> idx ! i = b))"
proof -
  obtain m n table entries where e: "count_blobs blobs [] = Return m" "k = length (blob_index m)"
    "encode_vlq (length (blob_index m)) = Return n" "encode_index (blob_index m) = Return table"
    "encode_entries (map_of (rev (zip (blob_index m) [0..<length (blob_index m)]))) blobs = Return entries"
    "out = n @ table @ entries"
    using assms by (rule encode_blobs_Return)
  define idx where "idx = blob_index m"
  have "blob_new out = Return (Ok (at_entry entries idx 0))"
    using read_encode_vlq [OF e(3), of "[]" "table @ entries"] read_index_encode [OF e(4), of n entries] e(6)
    by (simp add: blob_new_def slice_from_def slice_def at_entry_def idx_def)
  then show ?thesis
    using e(2,5) rev_idx_sound [of idx] unfolding idx_def by blast
qed

section \<open>The table holds the repeated blobs\<close>

abbreviation count_sorted :: "(bytes \<times> nat) list \<Rightarrow> bool" where
  "count_sorted m \<equiv> sorted_wrt (<) (map fst m)"

lemma count_entry_correct:
  assumes "count_entry k m = Return m'" "count_sorted m"
  shows "count_sorted m' \<and> fst ` set m' = insert k (fst ` set m) \<and>
         map_of m' = (map_of m)(k \<mapsto> index_count m k + 1) \<and> sum_list (map snd m') = sum_list (map snd m) + 1"
  using assms
proof (induction k m arbitrary: m' rule: count_entry.induct)
  case (2 k k' v m)
  consider "k = k'" | "k < k'" | "k' < k" using less_linear by blast
  then show ?case
  proof cases
    case 1
    with 2 show ?thesis by (auto simp: index_count_def fun_eq_iff split: if_splits)
  next
    case 2
    have lt: "\<forall>x \<in> set m. k < fst x" using 2 "2.prems"(2) by (auto intro: order.strict_trans)
    then have "map_of m k = None" by (auto simp: map_of_eq_None_iff)
    moreover have "m' = (k, 1) # (k', v) # m" "k \<noteq> k'" using "2.prems"(1) 2 by (auto split: if_splits)
    ultimately show ?thesis using 2 lt "2.prems"(2) by (simp add: index_count_def fun_eq_iff)
  next
    case 3
    then obtain m1 where m1: "count_entry k m = Return m1" "m' = (k', v) # m1"
      using "2.prems"(1) by (auto split: if_splits)
    then have "count_sorted m1 \<and> fst ` set m1 = insert k (fst ` set m) \<and>
        map_of m1 = (map_of m)(k \<mapsto> index_count m k + 1) \<and> sum_list (map snd m1) = sum_list (map snd m) + 1"
      using 2(1) 3 "2.prems"(2) by auto
    then show ?thesis
      using m1 3 "2.prems"(2) by (auto simp: index_count_def fun_eq_iff)
  qed
qed (auto simp: index_count_def)

lemma count_entry_returns: "sum_list (map snd m) + 1 < 2 ^ 31 \<Longrightarrow> \<exists>m'. count_entry k m = Return m'"
  by (induction k m rule: count_entry.induct) auto

lemma count_blobs_correct:
  assumes "count_blobs bs m = Return m'" "count_sorted m"
  shows "count_sorted m' \<and> fst ` set m' = fst ` set m \<union> {b \<in> set bs. b \<noteq> []} \<and>
         (\<forall>b. index_count m' b = index_count m b + (if b = [] then 0 else count_list bs b)) \<and>
         sum_list (map snd m') \<le> sum_list (map snd m) + length bs"
  using assms
proof (induction bs m rule: count_blobs.induct)
  case (2 b bs m)
  show ?case
  proof (cases "b = []")
    case False
    then obtain m1 where m1: "count_entry b m = Return m1" "count_blobs bs m1 = Return m'"
      using "2.prems"(1) by auto
    note ce = count_entry_correct [OF m1(1) "2.prems"(2)]
    have "index_count m1 x = index_count m x + (if x = b then 1 else 0)" for x
      using ce by (simp add: index_count_def)
    then show ?thesis using "2.IH"(1) [OF _ m1] ce False by auto
  qed (use 2 in auto)
qed auto

lemma count_blobs_returns:
  "sum_list (map snd m) + length bs < 2 ^ 31 \<Longrightarrow> count_sorted m \<Longrightarrow> \<exists>m'. count_blobs bs m = Return m'"
proof (induction bs m rule: count_blobs.induct)
  case (2 b bs m)
  show ?case
  proof (cases "b = []")
    case False
    obtain m1 where m1: "count_entry b m = Return m1"
      using count_entry_returns [of m b] "2.prems"(1) by auto
    with count_entry_correct [OF m1 "2.prems"(2)] 2 False show ?thesis by auto
  qed (use 2 in auto)
qed auto

lemma sorted_distinct_count: "count_sorted m \<Longrightarrow> distinct (map fst m)"
  by (induction m) auto

lemma index_count_Pair: "distinct (map fst m) \<Longrightarrow> (k, v) \<in> set m \<Longrightarrow> index_count m k = v"
  by (simp add: index_count_def)

lemma blob_index_correct:
  assumes "count_blobs blobs [] = Return m"
  shows "distinct (blob_index m) \<and> set (blob_index m) = {b. b \<noteq> [] \<and> 1 < count_list blobs b}"
proof -
  have c: "count_sorted m" "\<And>b. index_count m b = (if b = [] then 0 else count_list blobs b)"
    using count_blobs_correct [OF assms] by (auto simp: index_count_def)
  have d: "distinct (map fst m)" using c(1) by (rule sorted_distinct_count)
  have eq: "b \<in> fst ` {(k, v) \<in> set m. 1 < v} \<longleftrightarrow> 1 < index_count m b" for b
  proof
    assume "1 < index_count m b"
    then obtain v where "map_of m b = Some v" "1 < v" by (auto simp: index_count_def split: option.splits)
    then show "b \<in> fst ` {(k, v) \<in> set m. 1 < v}" by (force dest: map_of_SomeD)
  qed (use index_count_Pair [OF d] in auto)
  have "fst ` {(k, v) \<in> set m. 1 < v} = {b. b \<noteq> [] \<and> 1 < count_list blobs b}"
    by (rule set_eqI, unfold eq c(2)) auto
  moreover have "distinct (map fst (filter (\<lambda>(_, v). v > 1) m))" using d by (rule distinct_map_filter)
  ultimately show ?thesis by (auto simp: blob_index_def Let_def case_prod_unfold)
qed

section \<open>Limits of the encoder\<close>

lemma blob_index_small:
  assumes "count_blobs blobs [] = Return m"
  shows "2 * length (blob_index m) \<le> length blobs"
proof -
  have "2 * length (blob_index m) \<le> sum_list (map snd (filter (\<lambda>(_, v). v > 1) m))"
    unfolding blob_index_def by (induction m) auto
  also have "\<dots> \<le> sum_list (map snd m)" by (induction m) auto
  also have "\<dots> \<le> length blobs" using count_blobs_correct [OF assms] by simp
  finally show ?thesis .
qed

lemma encode_index_returns:
  "\<forall>e \<in> set idx. length e \<le> 270549119 \<Longrightarrow> \<exists>table. encode_index idx = Return table"
  by (induction idx) (auto simp: encode_vlq_digits)

lemma encode_entries_returns:
  assumes "\<forall>b \<in> set blobs. 2 * length b \<le> 270549119" "\<And>b i. rev_idx b = Some i \<Longrightarrow> 2 * i + 1 \<le> 270549119"
  shows "\<exists>out. encode_entries rev_idx blobs = Return out"
  using assms(1)
proof (induction blobs)
  case (Cons b bs)
  have "\<exists>n. encode_blob rev_idx b = Return n"
    using assms(2) [of b] Cons.prems
    by (cases "rev_idx b") (auto simp: encode_blob_def encode_vlq_digits mult.commute)
  with Cons show ?case by auto
qed simp

lemma encode_blobs_returns:
  assumes "length blobs \<le> 270549119" "\<forall>b \<in> set blobs. length b \<le> 135274559"
  shows "\<exists>out k. encode_blobs blobs = Return (out, k)"
proof -
  obtain m where m: "count_blobs blobs [] = Return m"
    using count_blobs_returns [of "[]" blobs] assms(1) by auto
  define idx where "idx = blob_index m"
  define ri where "ri = map_of (rev (zip idx [0..<length idx]))"
  have len: "2 * length idx \<le> length blobs" using blob_index_small [OF m] by (simp add: idx_def)
  have "\<forall>e \<in> set idx. e \<in> set blobs"
    using blob_index_correct [OF m] count_list_0_iff [of blobs] by (fastforce simp: idx_def)
  then obtain table where "encode_index idx = Return table"
    using encode_index_returns [of idx] assms(2) by fastforce
  moreover obtain out where "encode_entries ri blobs = Return out"
    using encode_entries_returns [of blobs ri] assms rev_idx_sound [of idx] len unfolding ri_def by fastforce
  moreover obtain n where "encode_vlq (length idx) = Return n"
    using len assms(1) by (auto simp: encode_vlq_digits)
  ultimately show ?thesis using m by (simp add: encode_blobs_def idx_def ri_def)
qed

lemma encode_opens:
  assumes "encode_blobs blobs = Return (out, k)"
  shows "\<exists>self. blob_new out = Return (Ok self) \<and> blob_collect self = Return (map Ok blobs) \<and>
    (\<forall>m. blobn_collect m self = Return (blob_groups m blobs))"
proof -
  from decode_encode [OF assms] obtain idx data rev_idx where d: "blob_new out = Return (Ok (at_entry data idx 0))"
      "encode_entries rev_idx blobs = Return data" "\<And>b i. rev_idx b = Some i \<Longrightarrow> i < length idx \<and> idx ! i = b"
    by blast
  have "yields (at_entry data idx 0) blobs"
    using yields_encode [OF d(2,3), of "[]"] by simp
  with d(1) show ?thesis using yields_collect yields_blobn_collect by blast
qed

section \<open>Truncated files\<close>

text \<open>Calling \<open>next\<close> a number of times, with all the items it returned.\<close>

fun blob_calls :: "nat \<Rightarrow> blob_iterator \<Rightarrow> ((BlobError, bytes) result option list \<times> blob_iterator) outcome" where
  "blob_calls 0 self = Return ([], self)"
| "blob_calls (Suc k) self =
     and_then (blob_next self) (\<lambda>(v, self). and_then (blob_calls k self) (\<lambda>(vs, self). Return (v # vs, self)))"

lemma read_vlq_steps_cut:
  assumes "\<And>d. d \<in> set ds \<Longrightarrow> d < 128" "length ds \<le> k" "nx \<noteq> 0" "j < length ds"
  shows "read_vlq_steps k nx val (pre @ take j (vlq_bytes ds)) (length pre) = (Err UnexpectedEnd, length pre + j)"
  using assms
proof (induction ds arbitrary: k nx val pre j)
  case (Cons d ds)
  then obtain l where l: "k = Suc l" by (cases k) auto
  show ?case
  proof (cases j)
    case 0
    then show ?thesis using Cons.prems(3) l by simp
  next
    case (Suc i)
    let ?b = "NEXT_MASK OR of_nat d :: u8"
    have ds: "ds \<noteq> []" "i < length ds" using Cons.prems(4) Suc by auto
    have d: "d < 128" using Cons.prems(1) by simp
    have b: "unat ?b mod 128 = d" "?b AND NEXT_MASK \<noteq> 0" using unat_next_byte [OF d] d by (auto simp: NEXT_MASK_eq_0)
    have "read_vlq_steps k nx val (pre @ take j (vlq_bytes (d # ds))) (length pre) =
        read_vlq_steps l (?b AND NEXT_MASK) (push_bit 7 (val + 1) + d) ((pre @ [?b]) @ take i (vlq_bytes ds)) (length (pre @ [?b]))"
      using Cons.prems(3) l Suc ds(1) b(1) by (simp add: nth_append Let_def)
    also have "\<dots> = (Err UnexpectedEnd, length (pre @ [?b]) + i)"
      using Cons.prems l b(2) ds(2) by (intro Cons.IH) auto
    finally show ?thesis using Suc by simp
  qed
qed simp

lemma read_vlq_cut:
  assumes "encode_vlq v = Return bs" "j < length bs"
  shows "read_vlq (pre @ take j bs) (length pre) = (Err UnexpectedEnd, length pre + j)"
proof -
  define ds where "ds = vlq_digits (v + 1)"
  have v: "v \<le> 270549119" "bs = vlq_bytes ds"
    using assms(1) by (auto simp: encode_vlq_digits ds_def split: if_splits)
  have len: "length ds \<le> 4" "\<And>d. d \<in> set ds \<Longrightarrow> d < 128"
    using v(1) vlq_digits_less unfolding ds_def vlq_digits_le_4 by blast+
  show ?thesis
  proof (cases j)
    case 0
    then show ?thesis by (simp add: read_vlq_def)
  next
    case (Suc i)
    obtain d es where ds: "ds = d # es" using assms(2) v(2) by (cases ds) auto
    let ?b = "NEXT_MASK OR of_nat d :: u8"
    have es: "es \<noteq> []" "i < length es" using assms(2) v(2) ds Suc by auto
    have d: "d < 128" using len(2) ds by simp
    have b: "unat ?b mod 128 = d" "?b AND NEXT_MASK \<noteq> 0" using unat_next_byte [OF d] d by (auto simp: NEXT_MASK_eq_0)
    have "read_vlq (pre @ take j bs) (length pre) =
        read_vlq_steps 3 (?b AND NEXT_MASK) d ((pre @ [?b]) @ take i (vlq_bytes es)) (length (pre @ [?b]))"
      using v(2) ds Suc es(1) b(1) by (simp add: read_vlq_def nth_append Let_def)
    also have "\<dots> = (Err UnexpectedEnd, length (pre @ [?b]) + i)"
      using len ds b(2) es(2) by (intro read_vlq_steps_cut) auto
    finally show ?thesis using Suc by simp
  qed
qed

lemma read_index_cut:
  assumes "encode_index idx = Return table" "j < length table"
  shows "read_index (length idx) (pre @ take j table) (length pre) \<in> {Panic Unwrap_Failed, Panic Out_Of_Bounds}"
  using assms
proof (induction idx arbitrary: pre table j)
  case (Cons e es)
  then obtain n out where n: "encode_vlq (length e) = Return n" and out: "encode_index es = Return out"
    and table: "table = n @ e @ out" by auto
  consider "j < length n" | "length n \<le> j" "j < length n + length e" | "length n + length e \<le> j" by linarith
  then show ?case
  proof cases
    case 1
    then show ?thesis using read_vlq_cut [OF n 1, of pre] table by (simp add: Let_def)
  next
    case 2
    then have "take j table = n @ take (j - length n) e" using table by simp
    then show ?thesis using 2 read_encode_vlq [OF n, of pre "take (j - length n) e"] by (simp add: slice_def)
  next
    case 3
    define i where "i = j - length n - length e"
    have cut: "take j table = n @ e @ take i out" "i < length out" using 3 table Cons.prems(2) by (auto simp: i_def)
    have "read_index (length es) ((pre @ n @ e) @ take i out) (length (pre @ n @ e)) \<in> {Panic Unwrap_Failed, Panic Out_Of_Bounds}"
      by (rule Cons.IH [OF out cut(2)])
    then show ?thesis
      using read_encode_vlq [OF n, of pre "e @ take i out"] cut(1) by (auto simp: slice_def add.assoc)
  qed
qed simp

text \<open>An encoded blob: a quantity, and the bytes of a blob that is not in the table.\<close>

definition entry_size :: "(bytes \<Rightarrow> nat option) \<Rightarrow> bytes \<Rightarrow> bytes outcome" where
  "entry_size rev_idx b = encode_vlq (case rev_idx b of Some i \<Rightarrow> 2 * i + 1 | None \<Rightarrow> 2 * length b)"

definition entry_bytes :: "(bytes \<Rightarrow> nat option) \<Rightarrow> bytes \<Rightarrow> bytes" where
  "entry_bytes rev_idx b = (case rev_idx b of Some _ \<Rightarrow> [] | None \<Rightarrow> b)"

lemma encode_blob_parts:
  "encode_blob rev_idx b = and_then (entry_size rev_idx b) (\<lambda>sz. Return (sz @ entry_bytes rev_idx b))"
  by (cases "entry_size rev_idx b")
    (auto simp: encode_blob_def entry_size_def entry_bytes_def mult.commute split: option.splits)

text \<open>What \<open>next\<close> does on an entry that is cut off.\<close>

definition cut_entry :: "nat \<Rightarrow> nat \<Rightarrow> blob_iterator \<Rightarrow> bool" where
  "cut_entry over sz self \<longleftrightarrow>
     (if over = 0 then blob_next self = Return (None, self)
      else if over < sz then blob_next self = Panic Unwrap_Failed
      else \<exists>self'. blob_next self = Return (Some (Err UnexpectedEnd), self') \<and> blob_next self' = Return (None, self'))"

lemma blob_next_cut:
  assumes sz: "entry_size rev_idx b = Return sz" and j: "j < length (sz @ entry_bytes rev_idx b)"
  shows "cut_entry j (length sz) (at_entry (pre @ take j (sz @ entry_bytes rev_idx b)) idx (length pre))"
proof -
  consider "j = 0" | "0 < j" "j < length sz" | "0 < j" "length sz \<le> j" by linarith
  then show ?thesis
  proof cases
    case 1
    then show ?thesis using blob_next_end [of pre idx] by (simp add: cut_entry_def)
  next
    case 2
    then show ?thesis
      using read_vlq_cut [OF sz [unfolded entry_size_def] 2(2), of pre]
      by (simp add: cut_entry_def blob_next_def blob_read_def at_entry_def Let_def)
  next
    case 3
    then have none: "rev_idx b = None" and lt: "j - length sz < length b"
      using j by (auto simp: entry_bytes_def split: option.splits)
    have "2 * length b AND 1 = 0" "drop_bit 1 (2 * length b) = length b" by (simp_all add: and_one_eq drop_bit_eq_div)
    then show ?thesis
      using 3 lt none read_encode_vlq [OF sz [unfolded entry_size_def], of pre "take (j - length sz) b"]
        encode_vlq_not_Nil [OF sz [unfolded entry_size_def]]
      by (simp add: cut_entry_def blob_next_def blob_read_def at_entry_def entry_bytes_def error_block_def Let_def)
  qed
qed

lemma entries_cut:
  assumes "encode_entries rev_idx blobs = Return entries" "j < length entries"
    and "\<And>b i. rev_idx b = Some i \<Longrightarrow> i < length idx \<and> idx ! i = b"
  shows "\<exists>k whole sz self. k < length blobs \<and> encode_entries rev_idx (take k blobs) = Return whole \<and>
    entry_size rev_idx (blobs ! k) = Return sz \<and> length whole \<le> j \<and>
    j < length (whole @ sz @ entry_bytes rev_idx (blobs ! k)) \<and>
    blob_calls k (at_entry (pre @ take j entries) idx (length pre)) = Return (map (Some \<circ> Ok) (take k blobs), self) \<and>
    cut_entry (j - length whole) (length sz) self"
  using assms(1,2)
proof (induction blobs arbitrary: pre entries j)
  case (Cons b bs)
  then obtain sz out where n: "entry_size rev_idx b = Return sz" "encode_entries rev_idx bs = Return out"
    "entries = (sz @ entry_bytes rev_idx b) @ out" by (auto simp: encode_blob_parts)
  let ?n = "sz @ entry_bytes rev_idx b"
  have code: "encode_blob rev_idx b = Return ?n" using n(1) by (simp add: encode_blob_parts)
  show ?case
  proof (cases "j < length ?n")
    case True
    then have "take j entries = take j ?n" using n(3) by simp
    then show ?thesis
      using blob_next_cut [OF n(1) True, of pre idx] n(1) True
      apply -
      apply (rule exI [of _ 0], rule exI [of _ "[]"], rule exI [of _ sz])
      apply auto
      done
  next
    case False
    define i where "i = j - length ?n"
    have cut: "take j entries = ?n @ take i out" "i < length out" using False n(3) Cons.prems(2) by (auto simp: i_def)
    from Cons.IH [OF n(2) cut(2), of "pre @ ?n"] obtain k whole sz' self where k: "k < length bs"
        "encode_entries rev_idx (take k bs) = Return whole" "entry_size rev_idx (bs ! k) = Return sz'" "length whole \<le> i"
        "i < length (whole @ sz' @ entry_bytes rev_idx (bs ! k))"
        "blob_calls k (at_entry ((pre @ ?n) @ take i out) idx (length (pre @ ?n))) = Return (map (Some \<circ> Ok) (take k bs), self)"
        "cut_entry (i - length whole) (length sz') self"
      by blast
    have "blob_calls (Suc k) (at_entry (pre @ take j entries) idx (length pre)) =
        Return (map (Some \<circ> Ok) (take (Suc k) (b # bs)), self)"
      using blob_next_encode [OF code assms(3), of pre "take i out"] k(6) cut(1) by simp
    moreover have "encode_entries rev_idx (take (Suc k) (b # bs)) = Return (?n @ whole)" using code k(2) by simp
    ultimately show ?thesis
      using k False
      apply -
      apply (rule exI [of _ "Suc k"], rule exI [of _ "?n @ whole"], rule exI [of _ sz'], rule exI [of _ self])
      apply (auto simp: i_def add.assoc)
      done
  qed
qed simp

section \<open>The interface to programs that store and read such files\<close>

text \<open>
  What a client of the format relies on: a file that was written opens, and reads back as the blobs, one by one or
  in groups.  A client that writes records of a fixed number of blobs gets its records back.
\<close>

locale blob_format =
  fixes store :: "bytes list \<Rightarrow> (bytes \<times> nat) outcome"
    and open_file :: "bytes \<Rightarrow> (BlobError, 'r) result outcome"
    and read_all :: "'r \<Rightarrow> (BlobError, bytes) result list outcome"
    and read_groups :: "nat \<Rightarrow> 'r \<Rightarrow> (BlobError, bytes list) result list outcome"
  assumes read_back: "store blobs = Return (out, k) \<Longrightarrow>
    \<exists>r. open_file out = Return (Ok r) \<and> read_all r = Return (map Ok blobs) \<and>
      (\<forall>m. read_groups m r = Return (blob_groups m blobs))"
begin

lemma records_read_back:
  assumes "store (concat records) = Return (out, k)" and "\<And>r. r \<in> set records \<Longrightarrow> length r = Suc m"
  shows "\<exists>r. open_file out = Return (Ok r) \<and> read_groups m r = Return (map Ok records)"
proof -
  have "blob_groups m (concat records) = map Ok records"
    using assms(2)
  proof (induction records)
    case (Cons r rs)
    then have "length r = Suc m" by simp
    moreover from this have "r @ concat rs \<noteq> []" by auto
    ultimately show ?case using Cons by (subst blob_groups.simps) simp
  qed (simp add: blob_groups.simps)
  with read_back [OF assms(1)] show ?thesis by auto
qed

lemma store_inj: "store xs = Return (out, k) \<Longrightarrow> store ys = Return (out, k') \<Longrightarrow> xs = ys"
  using read_back [of xs out k] read_back [of ys out k'] by (auto simp: inj_map_eq_map inj_def)

end

interpretation blb: blob_format encode_blobs blob_new blob_collect blobn_collect
  by unfold_locales (rule encode_opens)

section \<open>Properties\<close>

text \<open>
  (C6) Encoding and decoding are inverse.  A sequence of at most 270549119 blobs of at most 135274559
  bytes each is encoded without a panic; \<open>BlobIterator::new\<close> accepts the result, iterating
  yields exactly the blobs in order, and an iterator over groups of \<open>n\<close> yields them in groups with
  \<open>NotEnoughElements\<close> after an incomplete last one.
\<close>

theorem blobs_roundtrip:
  assumes "length blobs \<le> 270549119" and "\<forall>b \<in> set blobs. length b \<le> 135274559"
  shows "\<exists>out k self. encode_blobs blobs = Return (out, k) \<and> blob_new out = Return (Ok self) \<and>
           blob_collect self = Return (map Ok blobs) \<and> (\<forall>m. blobn_collect m self = Return (blob_groups m blobs))"
proof -
  obtain out k where "encode_blobs blobs = Return (out, k)"
    using encode_blobs_returns [OF assms] by blast
  with encode_opens show ?thesis by blast
qed

theorem blobs_roundtrip_witness:
  "\<exists>out k self. encode_blobs [[1, 2], [], [7], [1, 2]] = Return (out, k) \<and> blob_new out = Return (Ok self) \<and>
     blob_collect self = Return (map Ok [[1, 2], [], [7], [1, 2]]) \<and>
     (\<forall>m. blobn_collect m self = Return (blob_groups m [[1, 2], [], [7], [1, 2]]))"
  by (rule blobs_roundtrip) simp_all

text \<open>
  The table at the head of the file holds each non-empty blob that occurs more than once, exactly
  once: this is what \<open>BlobIterator::new\<close> reads back, and its size is the count \<open>encode_blobs\<close> returns.
\<close>

theorem blob_table_deduplicates:
  assumes "encode_blobs blobs = Return (out, k)"
  shows "\<exists>self. blob_new out = Return (Ok self) \<and> length (it_dedup self) = k \<and> distinct (it_dedup self) \<and>
           set (it_dedup self) = {b. b \<noteq> [] \<and> 1 < count_list blobs b}"
proof -
  obtain m n table entries where e: "count_blobs blobs [] = Return m" "k = length (blob_index m)"
    "encode_vlq (length (blob_index m)) = Return n" "encode_index (blob_index m) = Return table"
    "out = n @ table @ entries"
    using assms by (rule encode_blobs_Return)
  have "blob_new out = Return (Ok (at_entry entries (blob_index m) 0))"
    using read_encode_vlq [OF e(3), of "[]" "table @ entries"] read_index_encode [OF e(4), of n entries] e(5)
    by (simp add: blob_new_def slice_from_def slice_def at_entry_def)
  then show ?thesis using blob_index_correct [OF e(1)] e(2) by (simp add: at_entry_def)
qed

theorem blob_table_deduplicates_witness:
  "\<exists>self. blob_new [1, 1, 7, 1, 1] = Return (Ok self) \<and> length (it_dedup self) = 1 \<and> distinct (it_dedup self) \<and>
     set (it_dedup self) = {b. b \<noteq> [] \<and> 1 < count_list [[7], [7]] b}"
proof (rule blob_table_deduplicates)
  show "encode_blobs [[7], [7]] = Return ([1, 1, 7, 1, 1], 1)"
    by (simp add: encode_blobs_def blob_index_def encode_blob_def encode_vlq_digits NEXT_MASK_def)
qed

text \<open>
  (C24) Quantities round-trip and are unique.  \<open>encode_vlq\<close> writes 1 to 4 bytes exactly for the values up to
  270549119 and panics above, \<open>read_vlq\<close> reads the value back at any position, and whenever \<open>read_vlq\<close>
  returns a value, the bytes it consumed are the encoding of that value.
\<close>

theorem vlq_roundtrip:
  "(if v \<le> 270549119
    then \<exists>bs. encode_vlq v = Return bs \<and> bs \<noteq> [] \<and> length bs \<le> 4 \<and>
      read_vlq (pre @ bs @ suf) (length pre) = (Ok v, length pre + length bs)
    else encode_vlq v = Panic (Message ''integer is too big'')) \<and>
   (read_vlq data pos = (Ok w, pos') \<longrightarrow>
      pos < pos' \<and> pos' \<le> length data \<and> w \<le> 270549119 \<and>
      encode_vlq w = Return (take (pos' - pos) (drop pos data)))"
proof -
  have "v \<le> 270549119 \<Longrightarrow> length (vlq_bytes (vlq_digits (v + 1))) \<le> 4 \<and> vlq_bytes (vlq_digits (v + 1)) \<noteq> []"
    using vlq_digits_le_4 [of v] by simp
  then have "v \<le> 270549119 \<Longrightarrow> \<exists>bs. encode_vlq v = Return bs \<and> bs \<noteq> [] \<and> length bs \<le> 4"
    unfolding encode_vlq_digits by auto
  then show ?thesis
    using read_encode_vlq [of v _ pre suf] read_vlq_sound [of data pos w pos'] encode_vlq_digits [of v]
    by (auto simp del: vlq_digits.simps)
qed

theorem vlq_roundtrip_witness:
  "\<exists>bs. encode_vlq 16512 = Return bs \<and> bs \<noteq> [] \<and> length bs \<le> 4 \<and> read_vlq ([9] @ bs @ []) 1 = (Ok 16512, 1 + length bs)"
  using vlq_roundtrip [of 16512 "[9]" "[]" "[]" 0 0 0] by simp

text \<open>
  (C39) What the decoder does with a file that was cut off, at any place.  A file is the number of table entries, the table and the
  encoded blobs.  If it ends within the number, \<open>BlobIterator::new\<close> returns \<open>UnexpectedEnd\<close>; if it ends
  within the table, \<open>new\<close> panics, at an \<open>unwrap\<close> or at a slice out of bounds, although it returns a
  \<open>Result\<close>.  If it ends after the table, \<open>new\<close> succeeds and the iterator yields the blobs whose encodings are
  complete.  Then, where the file ends between two blobs, it ends too, as if the file were complete; within the quantity that starts an entry
  \<open>next\<close> panics at an \<open>unwrap\<close>; and within the bytes of a blob it returns \<open>UnexpectedEnd\<close> once and ends.
\<close>

theorem truncated_file_outcome:
  assumes "encode_blobs blobs = Return (out, d)" and "c < length out"
  shows "\<exists>idx rev_idx n table entries. out = n @ table @ entries \<and> length idx = d \<and>
    rev_idx = map_of (rev (zip idx [0..<d])) \<and> encode_vlq d = Return n \<and>
    encode_index idx = Return table \<and> encode_entries rev_idx blobs = Return entries \<and>
    (if c < length n then blob_new (take c out) = Return (Err UnexpectedEnd)
     else if c < length (n @ table) then blob_new (take c out) \<in> {Panic Unwrap_Failed, Panic Out_Of_Bounds}
     else \<exists>self k whole sz self'. blob_new (take c out) = Return (Ok self) \<and>
       k < length blobs \<and> encode_entries rev_idx (take k blobs) = Return whole \<and> entry_size rev_idx (blobs ! k) = Return sz \<and>
       length (n @ table @ whole) \<le> c \<and> c < length (n @ table @ whole @ sz @ entry_bytes rev_idx (blobs ! k)) \<and>
       blob_calls k self = Return (map (Some \<circ> Ok) (take k blobs), self') \<and>
       cut_entry (c - length (n @ table @ whole)) (length sz) self')"
proof -
  obtain m n table entries where e: "count_blobs blobs [] = Return m" "d = length (blob_index m)"
    "encode_vlq (length (blob_index m)) = Return n" "encode_index (blob_index m) = Return table"
    "encode_entries (map_of (rev (zip (blob_index m) [0..<length (blob_index m)]))) blobs = Return entries"
    "out = n @ table @ entries"
    using assms(1) by (rule encode_blobs_Return)
  define idx rev_idx where "idx = blob_index m" and "rev_idx = map_of (rev (zip idx [0..<length idx]))"
  note parts = e(3-5) [folded idx_def, folded rev_idx_def]
  have sound: "\<And>b i. rev_idx b = Some i \<Longrightarrow> i < length idx \<and> idx ! i = b" unfolding rev_idx_def by (rule rev_idx_sound)
  consider "c < length n" | "length n \<le> c" "c < length (n @ table)" | "length (n @ table) \<le> c" by linarith
  then have "if c < length n then blob_new (take c out) = Return (Err UnexpectedEnd)
     else if c < length (n @ table) then blob_new (take c out) \<in> {Panic Unwrap_Failed, Panic Out_Of_Bounds}
     else \<exists>self k whole sz self'. blob_new (take c out) = Return (Ok self) \<and>
       k < length blobs \<and> encode_entries rev_idx (take k blobs) = Return whole \<and> entry_size rev_idx (blobs ! k) = Return sz \<and>
       length (n @ table @ whole) \<le> c \<and> c < length (n @ table @ whole @ sz @ entry_bytes rev_idx (blobs ! k)) \<and>
       blob_calls k self = Return (map (Some \<circ> Ok) (take k blobs), self') \<and>
       cut_entry (c - length (n @ table @ whole)) (length sz) self'"
  proof cases
    case 1
    then show ?thesis using read_vlq_cut [OF parts(1) 1, of "[]"] e(6) by (simp add: blob_new_def)
  next
    case 2
    then have "take c out = n @ take (c - length n) table" "c - length n < length table" using e(6) by auto
    then show ?thesis
      using 2 read_encode_vlq [OF parts(1), of "[]" "take (c - length n) table"] read_index_cut [OF parts(2), of "c - length n" n]
      by (auto simp: blob_new_def)
  next
    case 3
    define j where "j = c - length (n @ table)"
    have cut: "take c out = n @ table @ take j entries" "j < length entries" using 3 e(6) assms(2) by (auto simp: j_def)
    have new: "blob_new (take c out) = Return (Ok (at_entry (take j entries) idx 0))"
      using read_encode_vlq [OF parts(1), of "[]" "table @ take j entries"] read_index_encode [OF parts(2), of n "take j entries"] cut
      by (simp add: blob_new_def slice_from_def slice_def at_entry_def min_absorb2)
    obtain k whole sz self where k: "k < length blobs" "encode_entries rev_idx (take k blobs) = Return whole"
        "entry_size rev_idx (blobs ! k) = Return sz" "length whole \<le> j"
        "j < length (whole @ sz @ entry_bytes rev_idx (blobs ! k))"
        "blob_calls k (at_entry (take j entries) idx 0) = Return (map (Some \<circ> Ok) (take k blobs), self)"
        "cut_entry (j - length whole) (length sz) self"
      using entries_cut [OF parts(3) cut(2) sound, of "[]"] by auto
    have "length (n @ table @ whole) \<le> c" "c < length (n @ table @ whole @ sz @ entry_bytes rev_idx (blobs ! k))"
        "j - length whole = c - length (n @ table @ whole)"
      using k(4,5) 3 by (auto simp: j_def)
    with k new 3 show ?thesis by auto
  qed
  then show ?thesis using parts e(2,6) by (intro exI [of _ idx] exI [of _ rev_idx] exI [of _ n] exI [of _ table] exI [of _ entries]) (simp add: idx_def rev_idx_def)
qed

theorem truncated_file_outcome_witness:
  "\<exists>self self'. blob_new [0, 4, 7] = Return (Ok self) \<and> blob_next self = Return (Some (Err UnexpectedEnd), self')"
proof -
  have vlq: "encode_vlq 0 = Return [0]" "encode_vlq 4 = Return [4]"
    using vlq_digits.simps(2) [of 4] by (simp_all add: encode_vlq_digits)
  then have "encode_blobs [[7, 8]] = Return ([0, 4, 7, 8], 0)"
    by (simp add: encode_blobs_def blob_index_def encode_blob_def)
  moreover note vlq
  ultimately show ?thesis
    using truncated_file_outcome [of "[[7, 8]]" "[0, 4, 7, 8]" 0 3]
    by (auto simp: entry_size_def entry_bytes_def cut_entry_def)
qed

text \<open>
  After an error an iterator is exhausted: whatever the data, the call that follows an \<open>Err\<close> item
  returns \<open>None\<close>, for single blobs and for groups.
\<close>

theorem blob_error_is_final:
  assumes "blob_next self = Return (Some (Err e), self')"
  shows "blob_next self' = Return (None, self') \<and> blobn_next (Suc m) self' = Return (None, self')"
proof -
  obtain self1 where "self' = error_block self1" using assms by (auto elim!: blob_next_Some)
  then have "blob_next self' = Return (None, self')" by (simp add: blob_next_def error_block_def)
  then show ?thesis by (simp add: blobn_next_def)
qed

theorem blob_error_is_final_witness:
  "blob_next \<lparr>it_data = [5, 2, 2], it_dedup = [], it_pos = 3\<rparr> = Return (None, \<lparr>it_data = [5, 2, 2], it_dedup = [], it_pos = 3\<rparr>) \<and>
   blobn_next (Suc 1) \<lparr>it_data = [5, 2, 2], it_dedup = [], it_pos = 3\<rparr> =
     Return (None, \<lparr>it_data = [5, 2, 2], it_dedup = [], it_pos = 3\<rparr>)"
proof (rule blob_error_is_final)
  show "blob_next \<lparr>it_data = [5, 2, 2], it_dedup = [], it_pos = 0\<rparr> =
      Return (Some (Err InvalidIndex), \<lparr>it_data = [5, 2, 2], it_dedup = [], it_pos = 3\<rparr>)"
    by (simp add: blob_next_def blob_read_def error_block_def read_vlq_def NEXT_MASK_def VAL_MASK_def
        numeral_3_eq_3 Let_def drop_bit_eq_div and_one_eq)
qed

end
