(* ===== verification/Wycheproof.thy ===== *)
theory Wycheproof
  imports Blobby
begin

text \<open>
  The tool \<^verbatim>\<open>wycheproof2blb\<close> (\<^verbatim>\<open>wycheproof2blb/src\<close>): it picks test cases out of the JSON files of the
  Wycheproof project and writes them as a blobby file, with a text file of descriptions.

  The JSON parser (\<^verbatim>\<open>serde_json\<close>) and the file system are arguments: \<open>from_slice\<close> gives the suite of a
  file's contents, in the record of the algorithm family.  Messages to the terminal are left out.  The tests
  selected by each generator and the panics are characterised, and the written file is read back through the
  interface of the blobby format.
\<close>

section \<open>Test suites\<close>

text \<open>\<^verbatim>\<open>wycheproof.rs\<close>.\<close>

record Suite =
  suite_algorithm :: string
  generator_version :: string
  number_of_tests :: int
  suite_notes :: "(string \<times> string) list"

record Group =
  group_type :: string

datatype CaseResult = Valid | Invalid | Acceptable

fun result_display :: "CaseResult \<Rightarrow> string" where
  "result_display Valid = ''valid''"
| "result_display Invalid = ''invalid''"
| "result_display Acceptable = ''acceptable''"

record Case =
  case_id :: int
  comment :: string
  tc_result :: CaseResult
  flags :: "string list"

definition hex_string :: "(string \<Rightarrow> ('e, bytes) result) \<Rightarrow> string \<Rightarrow> (string, bytes) result" where
  "hex_string hex_decode s = (case hex_decode s of Ok b \<Rightarrow> Ok b | Err _ \<Rightarrow> Err ''hex data expected'')"

definition deserialize_result :: "string \<Rightarrow> (string, CaseResult) result" where
  "deserialize_result s =
     (if s = ''valid'' then Ok Valid
      else if s = ''invalid'' then Ok Invalid
      else if s = ''acceptable'' then Ok Acceptable
      else Err ''unexpected result value'')"

definition case_result_u8 :: "Case \<Rightarrow> u8 outcome" where
  "case_result_u8 c =
     (case tc_result c of
        Invalid \<Rightarrow> Return 0
      | Valid \<Rightarrow> Return 1
      | _ \<Rightarrow> Panic (Message (''Unexpected case result '' @ result_display (tc_result c))))"

text \<open>Decimal numbers, as \<open>Display\<close> prints them.\<close>

fun show_nat :: "nat \<Rightarrow> string" where
  "show_nat n = (if n < 10 then [char_of (48 + n)] else show_nat (n div 10) @ [char_of (48 + n mod 10)])"

declare show_nat.simps [simp del]

definition show_int :: "int \<Rightarrow> string" where
  "show_int i = (if i < 0 then ''-'' @ show_nat (nat (- i)) else show_nat (nat i))"

definition description :: "Suite \<Rightarrow> Case \<Rightarrow> string" where
  "description suite c =
     suite_algorithm suite @ '' case '' @ show_int (case_id c) @ '' ['' @ result_display (tc_result c) @ ''] '' @ comment c"

record TestInfo =
  info_data :: "bytes list"
  info_desc :: string

section \<open>Generators\<close>

text \<open>\<^verbatim>\<open>aead.rs\<close>.\<close>

record aead_case =
  aead_case :: Case
  aead_aad :: bytes
  aead_ct :: bytes
  aead_iv :: bytes
  aead_key :: bytes
  aead_msg :: bytes
  aead_tag :: bytes

record aead_group =
  aead_group :: Group
  aead_iv_size :: u32
  aead_key_size :: u32
  aead_tag_size :: u32
  aead_tests :: "aead_case list"

record aead_suite =
  aead_suite :: Suite
  aead_groups :: "aead_group list"

definition aead_test ::
  "u32 \<Rightarrow> u32 \<Rightarrow> aead_suite \<Rightarrow> aead_group \<Rightarrow> aead_case \<Rightarrow> TestInfo list \<Rightarrow> TestInfo list outcome" where
  "aead_test key_size iv_size suite g tc infos =
     (if key_size \<noteq> 0 \<and> aead_key_size g \<noteq> key_size then Return infos
      else if aead_iv_size g \<noteq> iv_size then Return infos
      else
        let combined_ct = aead_ct tc @ aead_tag tc in
        and_then (case_result_u8 (aead_case tc)) (\<lambda>r.
          Return (infos @ [\<lparr>info_data = [aead_key tc, aead_iv tc, aead_aad tc, aead_msg tc, combined_ct, [r]],
            info_desc = description (aead_suite suite) (aead_case tc)\<rparr>])))"

definition aead_generator ::
  "(bytes \<Rightarrow> ('e, aead_suite) result) \<Rightarrow> bytes \<Rightarrow> string \<Rightarrow> u32 \<Rightarrow> u32 \<Rightarrow> TestInfo list outcome" where
  "aead_generator from_slice data algorithm key_size iv_size =
     and_then (unwrap (from_slice data)) (\<lambda>suite.
     and_then (rust_assert (algorithm = suite_algorithm (aead_suite suite)) Assert_Failed) (\<lambda>_.
       for_each (\<lambda>g. for_each (aead_test key_size iv_size suite g) (aead_tests g)) (aead_groups suite) []))"

definition aes_gcm_generator ::
  "(bytes \<Rightarrow> ('e, aead_suite) result) \<Rightarrow> bytes \<Rightarrow> string \<Rightarrow> u32 \<Rightarrow> TestInfo list outcome" where
  "aes_gcm_generator from_slice data algorithm key_size = aead_generator from_slice data algorithm key_size (12 * 8)"

definition chacha20_poly1305 ::
  "(bytes \<Rightarrow> ('e, aead_suite) result) \<Rightarrow> bytes \<Rightarrow> string \<Rightarrow> u32 \<Rightarrow> TestInfo list outcome" where
  "chacha20_poly1305 from_slice data algorithm key_size = aead_generator from_slice data algorithm 256 (12 * 8)"

definition xchacha20_poly1305 ::
  "(bytes \<Rightarrow> ('e, aead_suite) result) \<Rightarrow> bytes \<Rightarrow> string \<Rightarrow> u32 \<Rightarrow> TestInfo list outcome" where
  "xchacha20_poly1305 from_slice data algorithm key_size = aead_generator from_slice data algorithm 256 (24 * 8)"

text \<open>\<^verbatim>\<open>aes_siv.rs\<close>.\<close>

record siv_case =
  siv_case :: Case
  siv_key :: bytes
  siv_aad :: bytes
  siv_msg :: bytes
  siv_ct :: bytes

record siv_group =
  siv_group :: Group
  siv_key_size :: u32
  siv_tests :: "siv_case list"

record siv_suite =
  siv_suite :: Suite
  siv_groups :: "siv_group list"

definition siv_test :: "siv_suite \<Rightarrow> siv_case \<Rightarrow> TestInfo list \<Rightarrow> TestInfo list outcome" where
  "siv_test suite tc infos =
     and_then (case_result_u8 (siv_case tc)) (\<lambda>r.
       Return (infos @ [\<lparr>info_data = [siv_key tc, siv_aad tc, siv_msg tc, siv_ct tc, [r]],
         info_desc = description (siv_suite suite) (siv_case tc)\<rparr>]))"

definition siv_generator ::
  "(bytes \<Rightarrow> ('e, siv_suite) result) \<Rightarrow> bytes \<Rightarrow> string \<Rightarrow> u32 \<Rightarrow> TestInfo list outcome" where
  "siv_generator from_slice data algorithm key_size =
     and_then (unwrap (from_slice data)) (\<lambda>suite.
     and_then (rust_assert (algorithm = suite_algorithm (siv_suite suite)) Assert_Failed) (\<lambda>_.
       for_each (\<lambda>g infos.
           if key_size \<noteq> 0 \<and> siv_key_size g \<noteq> key_size then Return infos
           else for_each (siv_test suite) (siv_tests g) infos)
         (siv_groups suite) []))"

text \<open>\<^verbatim>\<open>ecdsa.rs\<close>.\<close>

record ecdsa_key =
  ec_curve :: string
  ec_key_type :: string
  ec_wx :: bytes
  ec_wy :: bytes

record ecdsa_case =
  ec_case :: Case
  ec_msg :: bytes
  ec_sig :: bytes

record ecdsa_group =
  ec_group :: Group
  ec_key_der :: string
  ec_key_pem :: string
  ec_sha :: string
  ec_key :: ecdsa_key
  ec_tests :: "ecdsa_case list"

record ecdsa_suite =
  ec_suite :: Suite
  ec_groups :: "ecdsa_group list"

definition ecdsa_test :: "ecdsa_suite \<Rightarrow> ecdsa_group \<Rightarrow> ecdsa_case \<Rightarrow> TestInfo list \<Rightarrow> TestInfo list outcome" where
  "ecdsa_test suite g tc infos =
     (if tc_result (ec_case tc) = Acceptable then Return infos
      else
        and_then (case_result_u8 (ec_case tc)) (\<lambda>r.
          Return (infos @ [\<lparr>info_data = [ec_wx (ec_key g), ec_wy (ec_key g), ec_msg tc, ec_sig tc, [r]],
            info_desc = description (ec_suite suite) (ec_case tc)\<rparr>])))"

definition ecdsa_generator ::
  "(bytes \<Rightarrow> ('e, ecdsa_suite) result) \<Rightarrow> bytes \<Rightarrow> string \<Rightarrow> u32 \<Rightarrow> TestInfo list outcome" where
  "ecdsa_generator from_slice data algorithm key_size =
     and_then (unwrap (from_slice data)) (\<lambda>suite.
       for_each (\<lambda>g infos.
           and_then (rust_assert (ec_curve (ec_key g) = algorithm) Assert_Failed) (\<lambda>_.
           and_then (rust_assert (ec_sha g = ''SHA-256'' \<or> ec_sha g = ''SHA-384'') Assert_Failed) (\<lambda>_.
             for_each (ecdsa_test suite g) (ec_tests g) infos)))
         (ec_groups suite) [])"

text \<open>\<^verbatim>\<open>ed25519.rs\<close>.\<close>

record ed25519_key =
  ed_sk :: bytes
  ed_pk :: bytes

record ed25519_case =
  ed_case :: Case
  ed_msg :: bytes
  ed_sig :: bytes

record ed25519_group =
  ed_group :: Group
  ed_key_der :: string
  ed_key_pem :: string
  ed_key :: ed25519_key
  ed_tests :: "ed25519_case list"

record ed25519_suite =
  ed_suite :: Suite
  ed_groups :: "ed25519_group list"

definition ed25519_test ::
  "ed25519_suite \<Rightarrow> ed25519_group \<Rightarrow> ed25519_case \<Rightarrow> TestInfo list \<Rightarrow> TestInfo list outcome" where
  "ed25519_test suite g tc infos =
     and_then (case_result_u8 (ed_case tc)) (\<lambda>r.
       Return (infos @ [\<lparr>info_data = [ed_sk (ed_key g), ed_pk (ed_key g), ed_msg tc, ed_sig tc, [r]],
         info_desc = description (ed_suite suite) (ed_case tc)\<rparr>]))"

definition ed25519_generator ::
  "(bytes \<Rightarrow> ('e, ed25519_suite) result) \<Rightarrow> bytes \<Rightarrow> string \<Rightarrow> u32 \<Rightarrow> TestInfo list outcome" where
  "ed25519_generator from_slice data algorithm key_size =
     and_then (unwrap (from_slice data)) (\<lambda>suite.
     and_then (rust_assert (algorithm = suite_algorithm (ed_suite suite)) Assert_Failed) (\<lambda>_.
       for_each (\<lambda>g. for_each (ed25519_test suite g) (ed_tests g)) (ed_groups suite) []))"

text \<open>\<^verbatim>\<open>hkdf.rs\<close>.\<close>

record hkdf_case =
  hkdf_case :: Case
  hkdf_ikm :: bytes
  hkdf_salt :: bytes
  hkdf_info :: bytes
  hkdf_size :: nat
  hkdf_okm :: bytes

record hkdf_group =
  hkdf_group :: Group
  hkdf_key_size :: u32
  hkdf_tests :: "hkdf_case list"

record hkdf_suite =
  hkdf_suite :: Suite
  hkdf_groups :: "hkdf_group list"

text \<open>When \<open>okm.len() \<noteq> size\<close> the code prints that it skips the case, and goes on with it.\<close>

definition hkdf_test :: "hkdf_suite \<Rightarrow> hkdf_case \<Rightarrow> TestInfo list \<Rightarrow> TestInfo list outcome" where
  "hkdf_test suite tc infos =
     (if tc_result (hkdf_case tc) \<noteq> Valid then Return infos
      else
        Return (infos @ [\<lparr>info_data = [hkdf_ikm tc, hkdf_salt tc, hkdf_info tc, hkdf_okm tc],
          info_desc = description (hkdf_suite suite) (hkdf_case tc)\<rparr>]))"

definition hkdf_generator ::
  "(bytes \<Rightarrow> ('e, hkdf_suite) result) \<Rightarrow> bytes \<Rightarrow> string \<Rightarrow> u32 \<Rightarrow> TestInfo list outcome" where
  "hkdf_generator from_slice data algorithm key_size =
     and_then (unwrap (from_slice data)) (\<lambda>suite.
     and_then (rust_assert (algorithm = suite_algorithm (hkdf_suite suite)) Assert_Failed) (\<lambda>_.
       for_each (\<lambda>g. for_each (hkdf_test suite) (hkdf_tests g)) (hkdf_groups suite) []))"

text \<open>\<^verbatim>\<open>mac.rs\<close>.\<close>

record mac_case =
  mac_case :: Case
  mac_key :: bytes
  mac_msg :: bytes
  mac_tag :: bytes

record mac_group =
  mac_group :: Group
  mac_key_size :: u32
  mac_tag_size :: u32
  mac_tests :: "mac_case list"

record mac_suite =
  mac_suite :: Suite
  mac_groups :: "mac_group list"

definition mac_test ::
  "u32 \<Rightarrow> mac_suite \<Rightarrow> mac_group \<Rightarrow> mac_case \<Rightarrow> TestInfo list \<Rightarrow> TestInfo list outcome" where
  "mac_test key_size suite g tc infos =
     (if key_size \<noteq> 0 \<and> mac_key_size g \<noteq> key_size then Return infos
      else if tc_result (mac_case tc) \<noteq> Valid then Return infos
      else
        and_then (rust_assert (length (mac_key tc) * 8 = unat (mac_key_size g)) Assert_Failed) (\<lambda>_.
        and_then (rust_assert (mac_tag_size g mod 8 = 0) Assert_Failed) (\<lambda>_.
          Return (infos @ [\<lparr>info_data = [mac_key tc, mac_msg tc, mac_tag tc],
            info_desc = description (mac_suite suite) (mac_case tc)\<rparr>]))))"

definition mac_generator ::
  "(bytes \<Rightarrow> ('e, mac_suite) result) \<Rightarrow> bytes \<Rightarrow> string \<Rightarrow> u32 \<Rightarrow> TestInfo list outcome" where
  "mac_generator from_slice data algorithm key_size =
     and_then (unwrap (from_slice data)) (\<lambda>suite.
     and_then (rust_assert (algorithm = suite_algorithm (mac_suite suite)) Assert_Failed) (\<lambda>_.
       for_each (\<lambda>g. for_each (mac_test key_size suite g) (mac_tests g)) (mac_groups suite) []))"

section \<open>The tool\<close>

text \<open>\<^verbatim>\<open>main.rs\<close>.  The parsers of the families, one \<open>from_slice\<close> for each type of suite.\<close>

record 'e parsers =
  parse_aead :: "bytes \<Rightarrow> ('e, aead_suite) result"
  parse_siv :: "bytes \<Rightarrow> ('e, siv_suite) result"
  parse_mac :: "bytes \<Rightarrow> ('e, mac_suite) result"
  parse_hkdf :: "bytes \<Rightarrow> ('e, hkdf_suite) result"
  parse_ed25519 :: "bytes \<Rightarrow> ('e, ed25519_suite) result"
  parse_ecdsa :: "bytes \<Rightarrow> ('e, ecdsa_suite) result"

type_synonym BlbGenerator = "bytes \<Rightarrow> string \<Rightarrow> u32 \<Rightarrow> TestInfo list outcome"

record Algorithm =
  algo_file :: string
  algo_generator :: BlbGenerator

definition algorithms :: "'e parsers \<Rightarrow> (string \<times> Algorithm) list" where
  "algorithms p =
    [(''AES-GCM'', \<lparr>algo_file = ''aes_gcm_test.json'', algo_generator = aes_gcm_generator (parse_aead p)\<rparr>),
     (''AES-GCM-SIV'', \<lparr>algo_file = ''aes_gcm_siv_test.json'', algo_generator = aes_gcm_generator (parse_aead p)\<rparr>),
     (''CHACHA20-POLY1305'', \<lparr>algo_file = ''chacha20_poly1305_test.json'', algo_generator = chacha20_poly1305 (parse_aead p)\<rparr>),
     (''XCHACHA20-POLY1305'', \<lparr>algo_file = ''xchacha20_poly1305_test.json'', algo_generator = xchacha20_poly1305 (parse_aead p)\<rparr>),
     (''AES-SIV-CMAC'', \<lparr>algo_file = ''aes_siv_cmac_test.json'', algo_generator = siv_generator (parse_siv p)\<rparr>),
     (''AES-CMAC'', \<lparr>algo_file = ''aes_cmac_test.json'', algo_generator = mac_generator (parse_mac p)\<rparr>),
     (''HKDF-SHA-1'', \<lparr>algo_file = ''hkdf_sha1_test.json'', algo_generator = hkdf_generator (parse_hkdf p)\<rparr>),
     (''HKDF-SHA-256'', \<lparr>algo_file = ''hkdf_sha256_test.json'', algo_generator = hkdf_generator (parse_hkdf p)\<rparr>),
     (''HKDF-SHA-384'', \<lparr>algo_file = ''hkdf_sha384_test.json'', algo_generator = hkdf_generator (parse_hkdf p)\<rparr>),
     (''HKDF-SHA-512'', \<lparr>algo_file = ''hkdf_sha512_test.json'', algo_generator = hkdf_generator (parse_hkdf p)\<rparr>),
     (''HMACSHA1'', \<lparr>algo_file = ''hmac_sha1_test.json'', algo_generator = mac_generator (parse_mac p)\<rparr>),
     (''HMACSHA224'', \<lparr>algo_file = ''hmac_sha224_test.json'', algo_generator = mac_generator (parse_mac p)\<rparr>),
     (''HMACSHA256'', \<lparr>algo_file = ''hmac_sha256_test.json'', algo_generator = mac_generator (parse_mac p)\<rparr>),
     (''HMACSHA384'', \<lparr>algo_file = ''hmac_sha384_test.json'', algo_generator = mac_generator (parse_mac p)\<rparr>),
     (''HMACSHA512'', \<lparr>algo_file = ''hmac_sha512_test.json'', algo_generator = mac_generator (parse_mac p)\<rparr>),
     (''EDDSA'', \<lparr>algo_file = ''eddsa_test.json'', algo_generator = ed25519_generator (parse_ed25519 p)\<rparr>),
     (''secp256r1'', \<lparr>algo_file = ''ecdsa_secp256r1_sha256_test.json'', algo_generator = ecdsa_generator (parse_ecdsa p)\<rparr>),
     (''secp256k1'', \<lparr>algo_file = ''ecdsa_secp256k1_sha256_test.json'', algo_generator = ecdsa_generator (parse_ecdsa p)\<rparr>),
     (''secp384r1'', \<lparr>algo_file = ''ecdsa_secp384r1_sha384_test.json'', algo_generator = ecdsa_generator (parse_ecdsa p)\<rparr>)]"

text \<open>\<open>str::parse::<u32>\<close>: decimal digits after an optional \<open>+\<close>, within range.\<close>

definition parse_u32 :: "string \<Rightarrow> u32 option" where
  "parse_u32 s =
     (let ds = (case s of c # cs \<Rightarrow> if c = CHR ''+'' then cs else s | [] \<Rightarrow> []);
          n = foldl (\<lambda>a c. 10 * a + (of_char c - 48)) (0 :: nat) ds in
      if ds \<noteq> [] \<and> (\<forall>c \<in> set ds. 48 \<le> (of_char c :: nat) \<and> (of_char c :: nat) \<le> 57) \<and> n < 2 ^ 32
      then Some (of_nat n) else None)"

definition expect :: "string \<Rightarrow> 'a option \<Rightarrow> 'a outcome" where
  "expect msg r = (case r of Some x \<Rightarrow> Return x | None \<Rightarrow> Panic (Message msg))"

definition get_arg :: "string list \<Rightarrow> nat \<Rightarrow> string option" where
  "get_arg args i = (if i < length args then Some (args ! i) else None)"

text \<open>The file under \<^verbatim>\<open>testvectors\<close> in the given directory; \<open>fs\<close> is the file system.\<close>

definition suite_data :: "(string list \<Rightarrow> bytes option) \<Rightarrow> string \<Rightarrow> string \<Rightarrow> bytes outcome" where
  "suite_data fs wycheproof_dir filename =
     expect (''Test vector file '' @ filename @ '' not found'') (fs [wycheproof_dir, ''testvectors'', filename])"

text \<open>The two files written: descriptions and blobs.\<close>

record written =
  txt_path :: string
  txt_file :: string
  blb_path :: string
  blb_file :: bytes

definition wycheproof_main ::
  "'e parsers \<Rightarrow> (string list \<Rightarrow> bytes option) \<Rightarrow> string list \<Rightarrow> written outcome" where
  "wycheproof_main p fs args =
     and_then (expect ''Provide directory with wycheproof vectors'' (get_arg args 1)) (\<lambda>wycheproof_dir.
     and_then (expect ''Provide algorithm family'' (get_arg args 2)) (\<lambda>algorithm.
     and_then (expect ''Provide key size in bits, or 0 for all sizes'' (get_arg args 3)) (\<lambda>size_arg.
     and_then (expect ''Key size needs to be a number of bits'' (parse_u32 size_arg)) (\<lambda>key_size.
     and_then (expect ''Provide path for output blobby file'' (get_arg args 4)) (\<lambda>out_path.
     and_then (expect ''Provide path for descriptions file'' (get_arg args 5)) (\<lambda>descriptions_path.
     and_then (expect (''Unrecognized algorithm '' @ algorithm) (map_of (algorithms p) algorithm)) (\<lambda>algo.
     and_then (suite_data fs wycheproof_dir (algo_file algo)) (\<lambda>data.
     and_then (algo_generator algo data algorithm key_size) (\<lambda>infos.
     and_then (encode_blobs (concat (map info_data infos))) (\<lambda>(blb_data, _).
       Return \<lparr>txt_path = descriptions_path, txt_file = concat (map (\<lambda>info. info_desc info @ [CHR 0x0A]) infos),
         blb_path = out_path, blb_file = blb_data\<rparr>))))))))))"

section \<open>What the generators have in common\<close>

text \<open>
  A generator goes through the cases of all groups; each is left out or gives one test, which may panic.  The
  interface is that shape; the provider of a family says which cases it selects and what it makes of them.
\<close>

locale test_loop =
  fixes step :: "'x \<Rightarrow> TestInfo list \<Rightarrow> TestInfo list outcome"
    and selects :: "'x \<Rightarrow> bool"
    and makes :: "'x \<Rightarrow> TestInfo outcome"
    and width :: nat
  assumes step: "step x infos = (if selects x then and_then (makes x) (\<lambda>i. Return (infos @ [i])) else Return infos)"
    and width: "makes x = Return i \<Longrightarrow> length (info_data i) = width"
begin

lemma loop: "for_each step xs infos = and_then (try_map makes (filter selects xs)) (\<lambda>is. Return (infos @ is))"
  by (induction xs arbitrary: infos) (simp_all add: step and_then_assoc cong: and_then_cong)

lemma loop_Return:
  "for_each step xs [] = Return infos \<longleftrightarrow> try_map makes (filter selects xs) = Return infos"
  by (simp add: loop)

lemma loop_returns: "returns (for_each step xs []) \<longleftrightarrow> (\<forall>x \<in> set xs. selects x \<longrightarrow> returns (makes x))"
  by (auto simp: loop returns_try_map)

lemma loop_width:
  assumes "for_each step xs [] = Return infos" and "i \<in> set infos"
  shows "length (info_data i) = width"
  using assms width by (auto simp: loop_Return try_map_Return in_set_conv_nth)

end

text \<open>All cases with their groups.\<close>

definition with_group :: "('g \<Rightarrow> 't list) \<Rightarrow> 'g list \<Rightarrow> ('g \<times> 't) list" where
  "with_group tests gs = concat (map (\<lambda>g. map (Pair g) (tests g)) gs)"

lemma for_each_groups:
  "for_each (\<lambda>g. for_each (f g) (tests g)) gs s = for_each (\<lambda>(g, t). f g t) (with_group tests gs) s"
  by (simp add: with_group_def for_each_concat for_each_map for_each_maps cong: for_each_cong)

lemma for_each_skip: "(if c then Return s else for_each f xs s) = for_each (\<lambda>x s. if c then Return s else f x s) xs s"
proof -
  have "for_each (\<lambda>x. Return) xs s = Return s" by (induction xs) simp_all
  then show ?thesis by simp
qed

lemma for_each_guarded:
  "for_each (\<lambda>g s. and_then (rust_assert (P g) p) (\<lambda>_. f g s)) gs s = Return s' \<longleftrightarrow>
     (\<forall>g \<in> set gs. P g) \<and> for_each f gs s = Return s'"
  by (induction gs arbitrary: s) auto

section \<open>The families\<close>

definition verdict :: "Case \<Rightarrow> bytes" where
  "verdict c = [if tc_result c = Valid then 1 else 0]"

lemma case_result_verdict: "case_result_u8 c = Return r \<longleftrightarrow> tc_result c \<noteq> Acceptable \<and> [r] = verdict c"
  by (cases "tc_result c") (auto simp: case_result_u8_def verdict_def)

definition aead_info :: "aead_suite \<Rightarrow> aead_case \<Rightarrow> TestInfo" where
  "aead_info suite tc =
     \<lparr>info_data = [aead_key tc, aead_iv tc, aead_aad tc, aead_msg tc, aead_ct tc @ aead_tag tc, verdict (aead_case tc)],
      info_desc = description (aead_suite suite) (aead_case tc)\<rparr>"

definition judged :: "Case \<Rightarrow> TestInfo \<Rightarrow> TestInfo outcome" where
  "judged c i = and_then (case_result_u8 c) (\<lambda>_. Return i)"

lemma judged_Return [simp]: "judged c i = Return j \<longleftrightarrow> tc_result c \<noteq> Acceptable \<and> j = i"
  by (cases "tc_result c") (auto simp: judged_def case_result_u8_def)

lemma and_then_judged: "and_then (judged c i) f = and_then (case_result_u8 c) (\<lambda>_. f i)"
  by (simp add: judged_def and_then_assoc)

lemmas test_simps = and_then_judged case_result_verdict split_beta if_bool_eq_conj

interpretation aead: test_loop "\<lambda>(g, tc). aead_test key_size iv_size suite g tc"
  "\<lambda>(g, tc). (key_size = 0 \<or> aead_key_size g = key_size) \<and> aead_iv_size g = iv_size"
  "\<lambda>(g, tc). judged (aead_case tc) (aead_info suite tc)" 6 for key_size iv_size suite
  by unfold_locales (auto simp: aead_test_def aead_info_def test_simps intro!: and_then_cong)

definition siv_info :: "siv_suite \<Rightarrow> siv_case \<Rightarrow> TestInfo" where
  "siv_info suite tc =
     \<lparr>info_data = [siv_key tc, siv_aad tc, siv_msg tc, siv_ct tc, verdict (siv_case tc)],
      info_desc = description (siv_suite suite) (siv_case tc)\<rparr>"

definition ecdsa_info :: "ecdsa_suite \<Rightarrow> ecdsa_group \<Rightarrow> ecdsa_case \<Rightarrow> TestInfo" where
  "ecdsa_info suite g tc =
     \<lparr>info_data = [ec_wx (ec_key g), ec_wy (ec_key g), ec_msg tc, ec_sig tc, verdict (ec_case tc)],
      info_desc = description (ec_suite suite) (ec_case tc)\<rparr>"

definition ed25519_info :: "ed25519_suite \<Rightarrow> ed25519_group \<Rightarrow> ed25519_case \<Rightarrow> TestInfo" where
  "ed25519_info suite g tc =
     \<lparr>info_data = [ed_sk (ed_key g), ed_pk (ed_key g), ed_msg tc, ed_sig tc, verdict (ed_case tc)],
      info_desc = description (ed_suite suite) (ed_case tc)\<rparr>"

definition hkdf_info_of :: "hkdf_suite \<Rightarrow> hkdf_case \<Rightarrow> TestInfo" where
  "hkdf_info_of suite tc =
     \<lparr>info_data = [hkdf_ikm tc, hkdf_salt tc, hkdf_info tc, hkdf_okm tc],
      info_desc = description (hkdf_suite suite) (hkdf_case tc)\<rparr>"

definition mac_info :: "mac_suite \<Rightarrow> mac_case \<Rightarrow> TestInfo" where
  "mac_info suite tc =
     \<lparr>info_data = [mac_key tc, mac_msg tc, mac_tag tc], info_desc = description (mac_suite suite) (mac_case tc)\<rparr>"

definition mac_sizes_ok :: "mac_group \<Rightarrow> mac_case \<Rightarrow> bool" where
  "mac_sizes_ok g tc \<longleftrightarrow> length (mac_key tc) * 8 = unat (mac_key_size g) \<and> mac_tag_size g mod 8 = 0"

interpretation siv: test_loop "\<lambda>(g, tc) infos. if key_size \<noteq> 0 \<and> siv_key_size g \<noteq> key_size then Return infos else siv_test suite tc infos"
  "\<lambda>(g, tc). key_size = 0 \<or> siv_key_size g = key_size"
  "\<lambda>(g, tc). judged (siv_case tc) (siv_info suite tc)" 5 for key_size suite
  by unfold_locales (auto simp: siv_test_def siv_info_def test_simps intro!: and_then_cong)

interpretation ecdsa: test_loop "\<lambda>(g, tc). ecdsa_test suite g tc" "\<lambda>(g, tc). tc_result (ec_case tc) \<noteq> Acceptable"
  "\<lambda>(g, tc). judged (ec_case tc) (ecdsa_info suite g tc)" 5 for suite
  by unfold_locales (auto simp: ecdsa_test_def ecdsa_info_def test_simps intro!: and_then_cong)

interpretation ed25519: test_loop "\<lambda>(g, tc). ed25519_test suite g tc" "\<lambda>(g, tc). True"
  "\<lambda>(g, tc). judged (ed_case tc) (ed25519_info suite g tc)" 5 for suite
  by unfold_locales (auto simp: ed25519_test_def ed25519_info_def test_simps intro!: and_then_cong)

interpretation hkdf: test_loop "\<lambda>(g, tc). hkdf_test suite tc" "\<lambda>(g, tc). tc_result (hkdf_case tc) = Valid"
  "\<lambda>(g, tc). Return (hkdf_info_of suite tc)" 4 for suite
  by unfold_locales (auto simp: hkdf_test_def hkdf_info_of_def split_beta)

interpretation mac: test_loop "\<lambda>(g, tc). mac_test key_size suite g tc"
  "\<lambda>(g, tc). (key_size = 0 \<or> mac_key_size g = key_size) \<and> tc_result (mac_case tc) = Valid"
  "\<lambda>(g, tc). if mac_sizes_ok g tc then Return (mac_info suite tc) else Panic Assert_Failed" 3 for key_size suite
  by unfold_locales (auto simp: mac_test_def mac_info_def mac_sizes_ok_def rust_assert_def split_beta split: if_splits)

text \<open>What each generator returns.\<close>

lemma aead_generator_Return:
  "aead_generator from_slice data algorithm key_size iv_size = Return infos \<longleftrightarrow>
     (\<exists>suite. from_slice data = Ok suite \<and> algorithm = suite_algorithm (aead_suite suite) \<and>
        for_each (\<lambda>(g, tc). aead_test key_size iv_size suite g tc) (with_group aead_tests (aead_groups suite)) [] = Return infos)"
  by (simp add: aead_generator_def for_each_groups)

lemma siv_generator_Return:
  "siv_generator from_slice data algorithm key_size = Return infos \<longleftrightarrow>
     (\<exists>suite. from_slice data = Ok suite \<and> algorithm = suite_algorithm (siv_suite suite) \<and>
        for_each (\<lambda>(g, tc) infos. if key_size \<noteq> 0 \<and> siv_key_size g \<noteq> key_size then Return infos else siv_test suite tc infos)
          (with_group siv_tests (siv_groups suite)) [] = Return infos)"
  by (simp add: siv_generator_def for_each_skip for_each_groups)

lemma ecdsa_generator_Return:
  "ecdsa_generator from_slice data algorithm key_size = Return infos \<longleftrightarrow>
     (\<exists>suite. from_slice data = Ok suite \<and>
        (\<forall>g \<in> set (ec_groups suite). ec_curve (ec_key g) = algorithm \<and> (ec_sha g = ''SHA-256'' \<or> ec_sha g = ''SHA-384'')) \<and>
        for_each (\<lambda>(g, tc). ecdsa_test suite g tc) (with_group ec_tests (ec_groups suite)) [] = Return infos)"
  by (auto simp: ecdsa_generator_def for_each_guarded for_each_groups)

lemma ed25519_generator_Return:
  "ed25519_generator from_slice data algorithm key_size = Return infos \<longleftrightarrow>
     (\<exists>suite. from_slice data = Ok suite \<and> algorithm = suite_algorithm (ed_suite suite) \<and>
        for_each (\<lambda>(g, tc). ed25519_test suite g tc) (with_group ed_tests (ed_groups suite)) [] = Return infos)"
  by (simp add: ed25519_generator_def for_each_groups)

lemma hkdf_generator_Return:
  "hkdf_generator from_slice data algorithm key_size = Return infos \<longleftrightarrow>
     (\<exists>suite. from_slice data = Ok suite \<and> algorithm = suite_algorithm (hkdf_suite suite) \<and>
        for_each (\<lambda>(g, tc). hkdf_test suite tc) (with_group hkdf_tests (hkdf_groups suite)) [] = Return infos)"
  by (simp add: hkdf_generator_def for_each_groups[where f = "\<lambda>g. hkdf_test suite" for suite])

lemma mac_generator_Return:
  "mac_generator from_slice data algorithm key_size = Return infos \<longleftrightarrow>
     (\<exists>suite. from_slice data = Ok suite \<and> algorithm = suite_algorithm (mac_suite suite) \<and>
        for_each (\<lambda>(g, tc). mac_test key_size suite g tc) (with_group mac_tests (mac_groups suite)) [] = Return infos)"
  by (simp add: mac_generator_def for_each_groups)

lemmas generator_Return = aead_generator_Return siv_generator_Return ecdsa_generator_Return ed25519_generator_Return
  hkdf_generator_Return mac_generator_Return aes_gcm_generator_def chacha20_poly1305_def xchacha20_poly1305_def

text \<open>The number of blobs in a test of a family.\<close>

definition record_width :: "string \<Rightarrow> nat" where
  "record_width algorithm =
     (if algorithm \<in> {''AES-GCM'', ''AES-GCM-SIV'', ''CHACHA20-POLY1305'', ''XCHACHA20-POLY1305''} then 6
      else if algorithm \<in> {''AES-SIV-CMAC'', ''EDDSA'', ''secp256r1'', ''secp256k1'', ''secp384r1''} then 5
      else if algorithm \<in> {''HKDF-SHA-1'', ''HKDF-SHA-256'', ''HKDF-SHA-384'', ''HKDF-SHA-512''} then 4
      else 3)"

lemmas loop_widths = aead.loop_width siv.loop_width ecdsa.loop_width ed25519.loop_width hkdf.loop_width mac.loop_width

lemma generator_width:
  assumes "map_of (algorithms p) algorithm = Some algo" and "algo_generator algo data algorithm key_size = Return infos"
    and "i \<in> set infos"
  shows "length (info_data i) = record_width algorithm"
  using assms
  by (auto simp: algorithms_def record_width_def generator_Return split: if_splits dest: loop_widths)

lemma expect_Return [simp]: "expect msg r = Return x \<longleftrightarrow> r = Some x"
  by (auto simp: expect_def split: option.splits)

lemma get_arg_Some [simp]: "get_arg args i = Some x \<longleftrightarrow> i < length args \<and> x = args ! i"
  by (auto simp: get_arg_def)

lemma wycheproof_main_Return:
  "wycheproof_main p fs args = Return w \<longleftrightarrow>
     (\<exists>algo data key_size infos blb k.
        5 < length args \<and> parse_u32 (args ! 3) = Some key_size \<and> map_of (algorithms p) (args ! 2) = Some algo \<and>
        fs [args ! 1, ''testvectors'', algo_file algo] = Some data \<and>
        algo_generator algo data (args ! 2) key_size = Return infos \<and>
        encode_blobs (concat (map info_data infos)) = Return (blb, k) \<and>
        w = \<lparr>txt_path = args ! 5, txt_file = concat (map (\<lambda>info. info_desc info @ [CHR 0x0A]) infos),
          blb_path = args ! 4, blb_file = blb\<rparr>)"
  by (auto simp: wycheproof_main_def suite_data_def)

section \<open>Properties\<close>

text \<open>
  (C19) What the tool writes is what it selected: the blobby file opens, and an iterator over as many blobs as a test of
  the algorithm has yields the data of the generated tests, one item each and in order; the descriptions are one line
  per test in the same order.
\<close>

theorem wycheproof_file_reads_back:
  assumes "wycheproof_main p fs args = Return w"
  shows "\<exists>algo data key_size infos self.
    map_of (algorithms p) (args ! 2) = Some algo \<and> fs [args ! 1, ''testvectors'', algo_file algo] = Some data \<and>
    parse_u32 (args ! 3) = Some key_size \<and> algo_generator algo data (args ! 2) key_size = Return infos \<and>
    blob_new (blb_file w) = Return (Ok self) \<and>
    blobn_collect (record_width (args ! 2) - 1) self = Return (map (\<lambda>i. Ok (info_data i)) infos) \<and>
    txt_file w = concat (map (\<lambda>i. info_desc i @ [CHR 0x0A]) infos)"
proof -
  from assms obtain algo data key_size infos blb k where
    run: "parse_u32 (args ! 3) = Some key_size" "map_of (algorithms p) (args ! 2) = Some algo"
    "fs [args ! 1, ''testvectors'', algo_file algo] = Some data"
    "algo_generator algo data (args ! 2) key_size = Return infos" and
    blb: "encode_blobs (concat (map info_data infos)) = Return (blb, k)" and
    w: "txt_file w = concat (map (\<lambda>i. info_desc i @ [CHR 0x0A]) infos)" "blb_file w = blb"
    by (auto simp: wycheproof_main_Return)
  have "0 < record_width (args ! 2)" by (simp add: record_width_def)
  then have "length r = Suc (record_width (args ! 2) - 1)" if "r \<in> set (map info_data infos)" for r
    using that generator_width[OF run(2,4)] by auto
  from blb.records_read_back[OF blb this] run w show ?thesis by (auto simp: comp_def)
qed

definition example_case :: "CaseResult \<Rightarrow> Case" where
  "example_case r = \<lparr>case_id = 1, comment = ''c'', tc_result = r, flags = []\<rparr>"

definition example_suite :: "string \<Rightarrow> Suite" where
  "example_suite a = \<lparr>suite_algorithm = a, generator_version = ''0'', number_of_tests = 1, suite_notes = []\<rparr>"

definition example_hkdf :: hkdf_suite where
  "example_hkdf = \<lparr>hkdf_suite = example_suite ''HKDF-SHA-1'', hkdf_groups =
     [\<lparr>hkdf_group = \<lparr>group_type = ''t''\<rparr>, hkdf_key_size = 8, hkdf_tests =
        [\<lparr>hkdf_case = example_case Valid, hkdf_ikm = [1], hkdf_salt = [2], hkdf_info = [3], hkdf_size = 2, hkdf_okm = [4]\<rparr>,
         \<lparr>hkdf_case = example_case Invalid, hkdf_ikm = [5], hkdf_salt = [6], hkdf_info = [7], hkdf_size = 1, hkdf_okm = [8]\<rparr>]\<rparr>]\<rparr>"

definition example_parsers :: "unit parsers" where
  "example_parsers = \<lparr>parse_aead = \<lambda>_. Err (), parse_siv = \<lambda>_. Err (), parse_mac = \<lambda>_. Err (),
     parse_hkdf = \<lambda>_. Ok example_hkdf, parse_ed25519 = \<lambda>_. Err (), parse_ecdsa = \<lambda>_. Err ()\<rparr>"

definition example_args :: "string list" where
  "example_args = [''wycheproof2blb'', ''dir'', ''HKDF-SHA-1'', ''0'', ''out'', ''txt'']"

lemma example_parse_zero: "parse_u32 ''0'' = Some 0"
  by (simp add: parse_u32_def)

lemma example_show: "show_int 1 = ''1''"
  by code_simp

lemma example_infos:
  "hkdf_generator (\<lambda>_. Ok example_hkdf :: (unit, hkdf_suite) result) data ''HKDF-SHA-1'' 0 =
     Return [\<lparr>info_data = [[1], [2], [3], [4]], info_desc = ''HKDF-SHA-1 case 1 [valid] c''\<rparr>]"
  by (simp add: hkdf_generator_def example_hkdf_def example_suite_def hkdf_test_def example_case_def description_def
    example_show)

theorem wycheproof_file_reads_back_witness:
  "\<exists>w self. wycheproof_main example_parsers (\<lambda>_. Some []) example_args = Return w \<and>
     blob_new (blb_file w) = Return (Ok self) \<and> blobn_collect 3 self = Return [Ok [[1], [2], [3], [4]]] \<and>
     txt_file w = ''HKDF-SHA-1 case 1 [valid] c'' @ [CHR 0x0A]"
proof -
  have algo: "map_of (algorithms example_parsers) ''HKDF-SHA-1'' =
      Some \<lparr>algo_file = ''hkdf_sha1_test.json'',
        algo_generator = hkdf_generator (\<lambda>_. Ok example_hkdf :: (unit, hkdf_suite) result)\<rparr>"
    by (simp add: algorithms_def example_parsers_def)
  obtain blb k where "encode_blobs [[1], [2], [3], [4]] = Return (blb, k)"
    using encode_blobs_returns[of "[[1], [2], [3], [4]]"] by auto
  then obtain w where w: "wycheproof_main example_parsers (\<lambda>_. Some []) example_args = Return w"
    by (auto simp: wycheproof_main_Return example_args_def algo example_infos example_parse_zero)
  from wycheproof_file_reads_back[OF w] w show ?thesis
    by (auto simp: example_args_def algo example_infos example_parse_zero record_width_def)
qed

text \<open>A generator returns the selected tests, in the order of the file.\<close>

lemma try_map_iff:
  assumes "\<And>x y. f x = Return y \<longleftrightarrow> P x \<and> y = g x"
  shows "try_map f xs = Return ys \<longleftrightarrow> list_all P xs \<and> ys = map g xs"
  by (induction xs arbitrary: ys) (auto simp: assms)

lemma aead_made:
  "try_map (\<lambda>(g :: aead_group, tc). judged (aead_case tc) (aead_info suite tc)) xs = Return infos \<longleftrightarrow>
     list_all (\<lambda>(g, tc). tc_result (aead_case tc) \<noteq> Acceptable) xs \<and> infos = map (\<lambda>(g, tc). aead_info suite tc) xs"
  by (rule try_map_iff) auto

lemma ecdsa_made:
  "try_map (\<lambda>(g, tc). judged (ec_case tc) (ecdsa_info suite g tc)) xs = Return infos \<longleftrightarrow>
     list_all (\<lambda>(g, tc). tc_result (ec_case tc) \<noteq> Acceptable) xs \<and> infos = map (\<lambda>(g, tc). ecdsa_info suite g tc) xs"
  by (rule try_map_iff) auto

lemma hkdf_made:
  "try_map (\<lambda>(g :: hkdf_group, tc). Return (hkdf_info_of suite tc)) xs = Return infos \<longleftrightarrow>
     list_all (\<lambda>_. True) xs \<and> infos = map (\<lambda>(g, tc). hkdf_info_of suite tc) xs"
  by (rule try_map_iff) auto

lemma mac_made:
  "try_map (\<lambda>(g, tc). if mac_sizes_ok g tc then Return (mac_info suite tc) else Panic Assert_Failed) xs = Return infos \<longleftrightarrow>
     list_all (\<lambda>(g, tc). mac_sizes_ok g tc) xs \<and> infos = map (\<lambda>(g, tc). mac_info suite tc) xs"
  by (rule try_map_iff) (auto split: if_splits)

lemma siv_made:
  "try_map (\<lambda>(g :: siv_group, tc). judged (siv_case tc) (siv_info suite tc)) xs = Return infos \<longleftrightarrow>
     list_all (\<lambda>(g, tc). tc_result (siv_case tc) \<noteq> Acceptable) xs \<and> infos = map (\<lambda>(g, tc). siv_info suite tc) xs"
  by (rule try_map_iff) auto

lemma ed25519_made:
  "try_map (\<lambda>(g, tc). judged (ed_case tc) (ed25519_info suite g tc)) xs = Return infos \<longleftrightarrow>
     list_all (\<lambda>(g, tc). tc_result (ed_case tc) \<noteq> Acceptable) xs \<and> infos = map (\<lambda>(g, tc). ed25519_info suite g tc) xs"
  by (rule try_map_iff) auto

text \<open>
  (C33) The tests taken, by each of the six generators: all of the following, in the order of the file, and no others.
  The generator for authenticated encryption takes the cases of the groups with the wanted key size, 0 for any, and nonce
  size; that for AES-SIV those with the wanted key size; that for MACs the valid ones with the wanted key size.  The
  generators for ECDSA, EdDSA and HKDF ignore the key size they are given, so a case of any key size is taken: for ECDSA those that
  are not merely acceptable, for EdDSA all, for HKDF the valid ones, the cases included which the code announces as
  skipped because their output has another length than \<open>size\<close>.  They panic exactly when the file does not parse or
  is for another algorithm (for ECDSA: has a group for another curve or hash), when a case they take and whose verdict
  they write is acceptable, or when the sizes of a MAC group do not fit.
\<close>

theorem generators_select:
  "(aead_generator parse1 data algorithm key_size iv_size = Return infos \<longleftrightarrow>
     (\<exists>suite taken. parse1 data = Ok suite \<and> suite_algorithm (aead_suite suite) = algorithm \<and>
        taken = filter (\<lambda>(g, tc). (key_size = 0 \<or> aead_key_size g = key_size) \<and> aead_iv_size g = iv_size)
          (with_group aead_tests (aead_groups suite)) \<and>
        list_all (\<lambda>(g, tc). tc_result (aead_case tc) \<noteq> Acceptable) taken \<and>
        infos = map (\<lambda>(g, tc). aead_info suite tc) taken)) \<and>
   (ecdsa_generator parse2 data algorithm key_size = Return infos \<longleftrightarrow>
     (\<exists>suite. parse2 data = Ok suite \<and>
        list_all (\<lambda>g. ec_curve (ec_key g) = algorithm \<and> ec_sha g \<in> {''SHA-256'', ''SHA-384''}) (ec_groups suite) \<and>
        infos = map (\<lambda>(g, tc). ecdsa_info suite g tc)
          (filter (\<lambda>(g, tc). tc_result (ec_case tc) \<noteq> Acceptable) (with_group ec_tests (ec_groups suite))))) \<and>
   (hkdf_generator parse3 data algorithm key_size = Return infos \<longleftrightarrow>
     (\<exists>suite. parse3 data = Ok suite \<and> suite_algorithm (hkdf_suite suite) = algorithm \<and>
        infos = map (\<lambda>(g, tc). hkdf_info_of suite tc)
          (filter (\<lambda>(g, tc). tc_result (hkdf_case tc) = Valid) (with_group hkdf_tests (hkdf_groups suite))))) \<and>
   (mac_generator parse4 data algorithm key_size = Return infos \<longleftrightarrow>
     (\<exists>suite taken. parse4 data = Ok suite \<and> suite_algorithm (mac_suite suite) = algorithm \<and>
        taken = filter (\<lambda>(g, tc). (key_size = 0 \<or> mac_key_size g = key_size) \<and> tc_result (mac_case tc) = Valid)
          (with_group mac_tests (mac_groups suite)) \<and>
        list_all (\<lambda>(g, tc). mac_sizes_ok g tc) taken \<and> infos = map (\<lambda>(g, tc). mac_info suite tc) taken)) \<and>
   (siv_generator parse5 data algorithm key_size = Return infos \<longleftrightarrow>
     (\<exists>suite taken. parse5 data = Ok suite \<and> suite_algorithm (siv_suite suite) = algorithm \<and>
        taken = filter (\<lambda>(g, tc). key_size = 0 \<or> siv_key_size g = key_size) (with_group siv_tests (siv_groups suite)) \<and>
        list_all (\<lambda>(g, tc). tc_result (siv_case tc) \<noteq> Acceptable) taken \<and>
        infos = map (\<lambda>(g, tc). siv_info suite tc) taken)) \<and>
   (ed25519_generator parse6 data algorithm key_size = Return infos \<longleftrightarrow>
     (\<exists>suite. parse6 data = Ok suite \<and> suite_algorithm (ed_suite suite) = algorithm \<and>
        list_all (\<lambda>(g, tc). tc_result (ed_case tc) \<noteq> Acceptable) (with_group ed_tests (ed_groups suite)) \<and>
        infos = map (\<lambda>(g, tc). ed25519_info suite g tc) (with_group ed_tests (ed_groups suite))))"
proof (intro conjI, goal_cases)
  case 1
  show ?case by (auto simp: aead_generator_Return aead.loop_Return aead_made)
next
  case 2
  show ?case
    by (rule iffI) (auto simp: ecdsa_generator_Return ecdsa.loop_Return ecdsa_made list_all_iff)
next
  case 3
  show ?case by (auto simp: hkdf_generator_Return hkdf.loop_Return hkdf_made list_all_iff)
next
  case 4
  show ?case by (auto simp: mac_generator_Return mac.loop_Return mac_made)
next
  case 5
  show ?case by (auto simp: siv_generator_Return siv.loop_Return siv_made)
next
  case 6
  show ?case by (auto simp: ed25519_generator_Return ed25519.loop_Return ed25519_made)
qed

text \<open>An HKDF case whose output has another length than its \<open>size\<close> is announced as skipped, and written.\<close>

lemma hkdf_mismatch_not_skipped:
  "\<exists>tc \<in> set (hkdf_tests (hd (hkdf_groups example_hkdf))). length (hkdf_okm tc) \<noteq> hkdf_size tc \<and>
     hkdf_generator (\<lambda>_. Ok example_hkdf :: (unit, hkdf_suite) result) [] ''HKDF-SHA-1'' 0 =
       Return [hkdf_info_of example_hkdf tc]"
  by (simp add: example_infos) (simp add: example_hkdf_def hkdf_info_of_def example_case_def example_suite_def
    description_def example_show)

end
