(* ===== verification/Blobby_Convert.thy ===== *)
theory Blobby_Convert
  imports Blobby
begin

text \<open>
  The example program \<^verbatim>\<open>blobby/examples/convert.rs\<close>: a text file with one hexadecimal blob per line to a
  blobby file, and back.  The functions of the crate \<^verbatim>\<open>hex\<close> are arguments; what is used of them is that
  \<open>decode\<close> inverts \<open>encode\<close> and that \<open>encode\<close> writes lower-case hexadecimal digits.  Files are byte sequences;
  creating and writing the output file is taken to succeed.
\<close>

section \<open>Reading lines\<close>

text \<open>\<open>BufRead::lines\<close>: what precedes each newline, without a carriage return before it, and a last line if not empty.\<close>

abbreviation (input) newline :: u8 where "newline \<equiv> 10"
abbreviation (input) carriage_return :: u8 where "carriage_return \<equiv> 13"

definition strip_return :: "bytes \<Rightarrow> bytes" where
  "strip_return l = (if l \<noteq> [] \<and> last l = carriage_return then butlast l else l)"

fun lines_from :: "bytes \<Rightarrow> bytes \<Rightarrow> bytes list" where
  "lines_from l [] = (if l = [] then [] else [l])"
| "lines_from l (c # cs) = (if c = newline then strip_return l # lines_from [] cs else lines_from (l @ [c]) cs)"

definition text_lines :: "bytes \<Rightarrow> bytes list" where
  "text_lines text = lines_from [] text"

text \<open>A line is a \<open>String\<close>: it must be UTF-8.\<close>

definition between :: "nat \<Rightarrow> nat \<Rightarrow> u8 \<Rightarrow> bool" where
  "between a b c \<longleftrightarrow> a \<le> unat c \<and> unat c \<le> b"

definition follower :: "u8 \<Rightarrow> bool" where
  "follower c = between 128 191 c"

fun utf8_step :: "bytes \<Rightarrow> bytes option" where
  "utf8_step (a # r) =
     (if unat a < 128 then Some r
      else case r of
        b # r \<Rightarrow>
          if between 0xC2 0xDF a \<and> follower b then Some r
          else case r of
            c # r \<Rightarrow>
              if (a = 0xE0 \<and> between 0xA0 0xBF b \<or> between 0xE1 0xEC a \<and> follower b \<or>
                  a = 0xED \<and> between 0x80 0x9F b \<or> between 0xEE 0xEF a \<and> follower b) \<and> follower c then Some r
              else case r of
                d # r \<Rightarrow>
                  if (a = 0xF0 \<and> between 0x90 0xBF b \<or> between 0xF1 0xF3 a \<and> follower b \<or>
                      a = 0xF4 \<and> between 0x80 0x8F b) \<and> follower c \<and> follower d then Some r
                  else None
              | [] \<Rightarrow> None
          | [] \<Rightarrow> None
      | [] \<Rightarrow> None)"
| "utf8_step [] = None"

lemma utf8_step_shorter: "utf8_step s = Some r \<Longrightarrow> length r < length s"
  by (cases s) (auto split: if_splits list.splits)

function utf8_valid :: "bytes \<Rightarrow> bool" where
  "utf8_valid s = (s = [] \<or> (case utf8_step s of Some r \<Rightarrow> utf8_valid r | None \<Rightarrow> False))"
  by auto
termination by (relation "measure length") (auto dest: utf8_step_shorter)

declare utf8_valid.simps [simp del]

lemma utf8_valid_ascii: "list_all (\<lambda>c. unat c < 128) s \<Longrightarrow> utf8_valid s"
  by (induction s) (simp_all add: utf8_valid.simps)

section \<open>The program\<close>

datatype convert_error = UnknownMode | FileError | InvalidData

text \<open>\<open>encode\<close>: gives the bytes written and their number.\<close>

fun decode_lines :: "(bytes \<Rightarrow> ('e, bytes) result) \<Rightarrow> bytes list \<Rightarrow> bytes list \<Rightarrow> (convert_error, bytes list) result" where
  "decode_lines hex_decode [] blobs = Ok blobs"
| "decode_lines hex_decode (line # ls) blobs =
     (if \<not> utf8_valid line then Err InvalidData
      else case hex_decode line of
        Err _ \<Rightarrow> Err InvalidData
      | Ok blob \<Rightarrow> decode_lines hex_decode ls (blobs @ [blob]))"

definition convert_encode ::
  "(bytes \<Rightarrow> ('e, bytes) result) \<Rightarrow> bytes \<Rightarrow> (convert_error, bytes \<times> nat) result outcome" where
  "convert_encode hex_decode reader =
     (case decode_lines hex_decode (text_lines reader) [] of
        Err e \<Rightarrow> Return (Err e)
      | Ok blobs \<Rightarrow>
          and_then (encode_blobs blobs) (\<lambda>(data, idx_len). Return (Ok (data, length data))))"

text \<open>\<open>decode\<close>: gives its result and what it wrote.\<close>

fun write_blobs ::
  "(bytes \<Rightarrow> bytes) \<Rightarrow> (BlobError, bytes) result list \<Rightarrow> bytes \<Rightarrow> (convert_error, unit) result \<times> bytes" where
  "write_blobs hex_encode [] out = (Ok (), out)"
| "write_blobs hex_encode (Err e # res) out = (Err InvalidData, out)"
| "write_blobs hex_encode (Ok blob # res) out = write_blobs hex_encode res (out @ hex_encode blob @ [newline])"

definition convert_decode :: "(bytes \<Rightarrow> bytes) \<Rightarrow> bytes \<Rightarrow> ((convert_error, nat) result \<times> bytes) outcome" where
  "convert_decode hex_encode data =
     and_then (blob_new data) (\<lambda>r.
       case r of
         Err e \<Rightarrow> Return (Err InvalidData, [])
       | Ok self \<Rightarrow>
           and_then (blob_collect self) (\<lambda>res.
             case write_blobs hex_encode res [] of
               (Err e, out) \<Rightarrow> Return (Err e, out)
             | (Ok _, out) \<Rightarrow> Return (Ok (length res), out)))"

text \<open>\<open>main\<close>, on the arguments after the program's name: the records processed and the contents of the output file.\<close>

definition arg_at :: "bytes list \<Rightarrow> nat \<Rightarrow> bytes outcome" where
  "arg_at args i = (if i < length args then Return (args ! i) else Panic Out_Of_Bounds)"

definition mode_encode :: bytes where "mode_encode = [0x65, 0x6E, 0x63, 0x6F, 0x64, 0x65]"
definition mode_decode :: bytes where "mode_decode = [0x64, 0x65, 0x63, 0x6F, 0x64, 0x65]"

definition convert_main ::
  "(bytes \<Rightarrow> ('e, bytes) result) \<Rightarrow> (bytes \<Rightarrow> bytes) \<Rightarrow> (bytes \<Rightarrow> bytes option) \<Rightarrow> bytes list \<Rightarrow>
     ((convert_error, nat) result \<times> bytes) outcome" where
  "convert_main hex_decode hex_encode fs args =
     and_then (arg_at args 0) (\<lambda>mode.
       if mode \<noteq> mode_encode \<and> mode \<noteq> mode_decode then Return (Err UnknownMode, [])
       else
         and_then (arg_at args 1) (\<lambda>in_path.
         and_then (arg_at args 2) (\<lambda>out_path.
           case fs in_path of
             None \<Rightarrow> Return (Err FileError, [])
           | Some in_file \<Rightarrow>
               if mode = mode_encode then
                 and_then (convert_encode hex_decode in_file) (\<lambda>r.
                   case r of Err e \<Rightarrow> Return (Err e, []) | Ok (data, n) \<Rightarrow> Return (Ok n, data))
               else convert_decode hex_encode in_file)))"

section \<open>Lines\<close>

lemma lines_from_line:
  "newline \<notin> set l \<Longrightarrow> lines_from acc (l @ newline # rest) = strip_return (acc @ l) # lines_from [] rest"
  by (induction l arbitrary: acc) auto

lemma text_lines_concat:
  assumes "list_all (\<lambda>l. newline \<notin> set l \<and> carriage_return \<notin> set l) ls"
  shows "text_lines (concat (map (\<lambda>l. l @ [newline]) ls)) = ls"
  using assms unfolding text_lines_def
  by (induction ls) (auto simp: lines_from_line strip_return_def dest: last_in_set)

definition hex_digit :: "u8 \<Rightarrow> bool" where
  "hex_digit c \<longleftrightarrow> between 48 57 c \<or> between 97 102 c"

lemma hex_digit_line:
  assumes "list_all hex_digit l"
  shows "newline \<notin> set l" and "carriage_return \<notin> set l" and "utf8_valid l"
proof -
  have "\<not> hex_digit 10" "\<not> hex_digit 13" by (simp_all add: hex_digit_def between_def)
  with assms show "newline \<notin> set l" "carriage_return \<notin> set l" by (auto simp: list_all_iff)
  show "utf8_valid l"
    using assms by (intro utf8_valid_ascii) (auto simp: list_all_iff hex_digit_def between_def)
qed

lemma decode_lines_encoded:
  assumes "\<And>b. hex_decode (hex_encode b) = Ok b" and "\<And>b. list_all hex_digit (hex_encode b)"
  shows "decode_lines hex_decode (map hex_encode blobs) acc = Ok (acc @ blobs)"
  by (induction blobs arbitrary: acc) (simp_all add: assms hex_digit_line)

lemma write_blobs_Ok:
  "write_blobs hex_encode (map Ok blobs) out = (Ok (), out @ concat (map (\<lambda>b. hex_encode b @ [newline]) blobs))"
  by (induction blobs arbitrary: out) simp_all

section \<open>Properties\<close>

text \<open>
  (C31) The two directions are inverse.  If a text is converted to \<open>data\<close>, then converting \<open>data\<close> back gives the blobs
  of the text, one line of lower-case digits each, and converting that text gives \<open>data\<close> again.
\<close>

theorem convert_roundtrip:
  assumes "\<And>b. hex_decode (hex_encode b) = Ok b" and "\<And>b. list_all hex_digit (hex_encode b)"
    and "convert_encode hex_decode text = Return (Ok (data, n))"
  shows "\<exists>blobs out. decode_lines hex_decode (text_lines text) [] = Ok blobs \<and>
    out = concat (map (\<lambda>b. hex_encode b @ [newline]) blobs) \<and>
    convert_decode hex_encode data = Return (Ok (length blobs), out) \<and>
    convert_encode hex_decode out = Return (Ok (data, n))"
proof -
  from assms(3) obtain blobs k where blobs: "decode_lines hex_decode (text_lines text) [] = Ok blobs"
    "encode_blobs blobs = Return (data, k)" "n = length data"
    by (auto simp: convert_encode_def split: result.splits)
  let ?out = "concat (map (\<lambda>b. hex_encode b @ [newline]) blobs)"
  have "text_lines (concat (map (\<lambda>l. l @ [newline]) (map hex_encode blobs))) = map hex_encode blobs"
    using hex_digit_line[OF assms(2)] by (intro text_lines_concat) (auto simp: list_all_iff)
  then have "convert_encode hex_decode ?out = Return (Ok (data, n))"
    using decode_lines_encoded[OF assms(1,2), of blobs "[]"] blobs by (simp add: convert_encode_def comp_def)
  moreover obtain self where "blob_new data = Return (Ok self)" "blob_collect self = Return (map Ok blobs)"
    using blb.read_back[OF blobs(2)] by blast
  then have "convert_decode hex_encode data = Return (Ok (length blobs), ?out)"
    by (simp add: convert_decode_def write_blobs_Ok)
  ultimately show ?thesis using blobs(1) by blast
qed

text \<open>A pair of functions with these properties, and a text with an upper-case digit.\<close>

definition hex_char :: "nat \<Rightarrow> u8" where
  "hex_char n = of_nat (if n < 10 then 48 + n else 87 + n)"

definition hex_value :: "u8 \<Rightarrow> nat option" where
  "hex_value c =
     (if between 48 57 c then Some (unat c - 48)
      else if between 97 102 c then Some (unat c - 87)
      else if between 65 70 c then Some (unat c - 55)
      else None)"

definition sample_encode :: "bytes \<Rightarrow> bytes" where
  "sample_encode b = concat (map (\<lambda>x. [hex_char (unat x div 16), hex_char (unat x mod 16)]) b)"

fun sample_decode :: "bytes \<Rightarrow> (unit, bytes) result" where
  "sample_decode [] = Ok []"
| "sample_decode (a # b # s) =
     (case (hex_value a, hex_value b, sample_decode s) of
        (Some x, Some y, Ok r) \<Rightarrow> Ok (of_nat (16 * x + y) # r)
      | _ \<Rightarrow> Err ())"
| "sample_decode [c] = Err ()"

lemma hex_char_digit: "n < 16 \<Longrightarrow> hex_digit (hex_char n) \<and> hex_value (hex_char n) = Some n"
  by (auto simp: hex_char_def hex_digit_def hex_value_def between_def unat_of_nat simp del: of_nat_add)

lemma high_nibble: "unat (x :: u8) div 16 < 16"
  using unat_u8_lt[of x] by linarith

lemma sample_encode_digits: "list_all hex_digit (sample_encode b)"
  by (auto simp: sample_encode_def list_all_iff hex_char_digit high_nibble)

lemma sample_decode_encode: "sample_decode (sample_encode b) = Ok b"
proof (induction b)
  case (Cons x b)
  have "of_nat (16 * (unat x div 16) + unat x mod 16) = x" by (simp del: of_nat_add of_nat_mult)
  with Cons show ?case by (simp add: sample_encode_def hex_char_digit high_nibble del: of_nat_add of_nat_mult)
qed (simp add: sample_encode_def)

theorem convert_roundtrip_witness:
  "\<exists>data n. convert_encode sample_decode [48, 65, 13, 10, 48, 97] = Return (Ok (data, n)) \<and>
     convert_decode sample_encode data = Return (Ok 2, [48, 97, 10, 48, 97, 10]) \<and>
     convert_encode sample_decode [48, 97, 10, 48, 97, 10] = Return (Ok (data, n))"
proof -
  have lines: "decode_lines sample_decode (text_lines [48, 65, 13, 10, 48, 97]) [] = Ok [[10], [10]]"
    by (simp add: text_lines_def strip_return_def utf8_valid.simps hex_value_def between_def)
  obtain data n where data: "convert_encode sample_decode [48, 65, 13, 10, 48, 97] = Return (Ok (data, n))"
    using encode_blobs_returns[of "[[10], [10]]"] by (auto simp: convert_encode_def lines)
  have "sample_encode [10] = [48, 97]" by (simp add: sample_encode_def hex_char_def)
  with convert_roundtrip[OF sample_decode_encode sample_encode_digits data] data show ?thesis
    by (auto simp: lines numeral_2_eq_2)
qed

end
