(* ===== verification/Zeroize_Derive.thy ===== *)
theory Zeroize_Derive
  imports Rust_Prelude
begin

text \<open>
  The crate \<^verbatim>\<open>zeroize_derive\<close> (\<^verbatim>\<open>zeroize/derive/src/lib.rs\<close>): the derive macros \<open>Zeroize\<close> and \<open>ZeroizeOnDrop\<close>.

  The macros see an item through \<^verbatim>\<open>syn\<close> and \<^verbatim>\<open>synstructure\<close>.  The model has the parts the code reads: attributes with the
  result of \<open>parse_meta\<close>, variants with their prefix, and bindings; a \<open>struct\<close> is one variant without a prefix
  whose attributes are those of the item.  The parser for bounds is an argument.  The output is the
  sequence of generated \<open>impl\<close> blocks; \<^verbatim>\<open>Zeroize_Derived\<close> runs them.  In a panic message the text that \<^verbatim>\<open>syn\<close> prints for
  a path or an attribute is left out.
\<close>

section \<open>Items\<close>

datatype lit = LitStr string | LitOther

type_synonym path = "string list"

datatype meta = MetaPath path | MetaList path "nested list" | MetaNameValue path lit
  and nested = NMeta meta | NLit lit

primrec meta_path :: "meta \<Rightarrow> path" where
  "meta_path (MetaPath p) = p"
| "meta_path (MetaList p ns) = p"
| "meta_path (MetaNameValue p l) = p"

definition is_ident :: "path \<Rightarrow> string \<Rightarrow> bool" where
  "is_ident p s \<longleftrightarrow> p = [s]"

text \<open>An attribute is the result of \<open>parse_meta\<close>, with \<open>None\<close> for an error.\<close>

type_synonym attribute = "meta option"

record 't field =
  field_attrs :: "attribute list"
  field_type :: 't

record 't variant =
  prefix :: "string option"
  variant_attrs :: "attribute list"
  bindings :: "'t field list"

record ('t, 'p) Structure =
  ast_attrs :: "attribute list"
  variants :: "'t variant list"
  infer_bounds :: bool
  where_predicates :: "'p list"

definition ZEROIZE_ATTR :: string where
  "ZEROIZE_ATTR = ''zeroize''"

section \<open>Attributes of the item\<close>

record 'p zeroize_attrs =
  attr_drop :: bool
  attr_bound :: "'p list option"

definition attrs_default :: "'p zeroize_attrs" where
  "attrs_default = \<lparr>attr_drop = False, attr_bound = None\<rparr>"

definition item_kind :: "'t variant option \<Rightarrow> string" where
  "item_kind variant = (if Option.bind variant prefix = None then ''struct'' else ''enum'')"

definition not_on_fields :: "string \<Rightarrow> string \<Rightarrow> panic" where
  "not_on_fields flag kind =
     Message (''The #[zeroize('' @ flag @ '')] attribute is not allowed on '' @ kind @ '' fields. Use it on the containing '' @
              kind @ '' instead.'')"

definition not_on_variants :: "string \<Rightarrow> panic" where
  "not_on_variants flag =
     Message (''The #[zeroize('' @ flag @ '')] attribute is not allowed on enum variants. Use it on the containing enum instead.'')"

definition misplaced :: "string \<Rightarrow> 't variant option \<Rightarrow> 't field option \<Rightarrow> unit outcome" where
  "misplaced flag variant binding =
     (case (variant, binding) of
        (_, Some _) \<Rightarrow> Panic (not_on_fields flag (item_kind variant))
      | (Some _, None) \<Rightarrow> Panic (not_on_variants flag)
      | (None, None) \<Rightarrow> Return ())"

definition bound_syntax :: panic where
  "bound_syntax =
     Message (''The #[zeroize(bound)] attribute expects a name-value syntax with a string literal value.'' @
              ''E.g. #[zeroize(bound = '' @ [CHR 0x22] @ ''T: MyTrait'' @ [CHR 0x22] @ '')].'')"

text \<open>The parser for bounds returns the predicates, or the text that the panic prints about the literal and the error.\<close>

definition bound_value :: "(string \<Rightarrow> (string, 'p list) result) \<Rightarrow> meta \<Rightarrow> 'p list outcome" where
  "bound_value parse_bounds meta =
     (case meta of
        MetaNameValue _ (LitStr lit) \<Rightarrow>
          if lit = [] then Return []
          else (case parse_bounds lit of
                  Ok ps \<Rightarrow> Return ps
                | Err e \<Rightarrow> Panic (Message (''error parsing bounds: '' @ e)))
      | _ \<Rightarrow> Panic bound_syntax)"

definition parse_meta ::
  "(string \<Rightarrow> (string, 'p list) result) \<Rightarrow> 't variant option \<Rightarrow> 't field option \<Rightarrow> meta \<Rightarrow> 'p zeroize_attrs \<Rightarrow> 'p zeroize_attrs outcome" where
  "parse_meta parse_bounds variant binding meta self =
     (if is_ident (meta_path meta) ''drop'' then
        and_then (rust_assert (\<not> attr_drop self) (Message ''duplicate #[zeroize] drop flags'')) (\<lambda>_.
        and_then (misplaced ''drop'' variant binding) (\<lambda>_.
          Return (self\<lparr>attr_drop := True\<rparr>)))
      else if is_ident (meta_path meta) ''bound'' then
        and_then (rust_assert (attr_bound self = None) (Message ''duplicate #[zeroize] bound flags'')) (\<lambda>_.
        and_then (misplaced ''bound'' variant binding) (\<lambda>_.
        and_then (bound_value parse_bounds meta) (\<lambda>ps.
          Return (self\<lparr>attr_bound := Some ps\<rparr>))))
      else if is_ident (meta_path meta) ''skip'' then
        if variant = None \<and> binding = None then
          Panic (Message ''The #[zeroize(skip)] attribute is not allowed on a `struct` or `enum`. Use it on a field or variant instead.'')
        else Return self
      else Panic (Message ''unknown #[zeroize] attribute type''))"

definition parse_nested ::
  "(string \<Rightarrow> (string, 'p list) result) \<Rightarrow> 't variant option \<Rightarrow> 't field option \<Rightarrow> nested \<Rightarrow> 'p zeroize_attrs \<Rightarrow> 'p zeroize_attrs outcome" where
  "parse_nested parse_bounds variant binding nested self =
     (case nested of
        NMeta meta \<Rightarrow> parse_meta parse_bounds variant binding meta self
      | NLit _ \<Rightarrow> Panic (Message ''malformed #[zeroize] attribute''))"

definition parse_attr ::
  "(string \<Rightarrow> (string, 'p list) result) \<Rightarrow> 't variant option \<Rightarrow> 't field option \<Rightarrow> attribute \<Rightarrow> 'p zeroize_attrs \<Rightarrow> 'p zeroize_attrs outcome" where
  "parse_attr parse_bounds variant binding attr self =
     (case attr of
        None \<Rightarrow> Panic (Message ''error parsing attribute'')
      | Some (MetaList path nested) \<Rightarrow>
          if \<not> is_ident path ZEROIZE_ATTR then Return self
          else for_each (parse_nested parse_bounds variant binding) nested self
      | Some _ \<Rightarrow> Return self)"

definition parse_variant ::
  "(string \<Rightarrow> (string, 'p list) result) \<Rightarrow> 't variant \<Rightarrow> 'p zeroize_attrs \<Rightarrow> 'p zeroize_attrs outcome" where
  "parse_variant parse_bounds v self =
     and_then
       (if prefix v \<noteq> None then for_each (parse_attr parse_bounds (Some v) None) (variant_attrs v) self
        else Return self)
       (for_each (\<lambda>b. for_each (parse_attr parse_bounds (Some v) (Some b)) (field_attrs b)) (bindings v))"

definition parse :: "(string \<Rightarrow> (string, 'p list) result) \<Rightarrow> ('t, 'p) Structure \<Rightarrow> 'p zeroize_attrs outcome" where
  "parse parse_bounds s =
     and_then (for_each (parse_attr parse_bounds (None :: 't variant option) None) (ast_attrs s) attrs_default)
       (for_each (parse_variant parse_bounds) (variants s))"

section \<open>Fields to zeroize\<close>

definition skip_nested :: "nested \<Rightarrow> bool \<Rightarrow> bool outcome" where
  "skip_nested nested result =
     (case nested of
        NMeta (MetaPath path) \<Rightarrow>
          if is_ident path ''skip'' then
            and_then (rust_assert result (Message ''duplicate #[zeroize] skip flags'')) (\<lambda>_. Return False)
          else Return result
      | _ \<Rightarrow> Return result)"

definition skip_attr :: "attribute \<Rightarrow> bool \<Rightarrow> bool outcome" where
  "skip_attr attr result =
     (case attr of
        Some (MetaList path nested) \<Rightarrow>
          if is_ident path ZEROIZE_ATTR then for_each skip_nested nested result else Return result
      | _ \<Rightarrow> Return result)"

definition filter_skip :: "attribute list \<Rightarrow> bool \<Rightarrow> bool outcome" where
  "filter_skip attrs start = for_each skip_attr attrs start"

text \<open>
  The generated arms: the number of the variant, and for each binding its number and type; and whether some
  variant has no arm.
\<close>

record 't match_body =
  call_method :: string
  arms :: "(nat \<times> (nat \<times> 't) list) list"
  omitted_variants :: bool

definition keep_variant :: "nat \<times> 't variant \<Rightarrow> bool outcome" where
  "keep_variant v =
     and_then (filter_skip (variant_attrs (snd v)) True) (\<lambda>result.
     and_then (for_each (\<lambda>b u. and_then (filter_skip (field_attrs b) result) (\<lambda>_. Return u)) (bindings (snd v)) ()) (\<lambda>_.
       Return result))"

definition keep_bindings :: "nat \<times> 't variant \<Rightarrow> (nat \<times> (nat \<times> 't) list) outcome" where
  "keep_bindings v =
     and_then (try_filter (\<lambda>(j, b). filter_skip (field_attrs b) True) (enumerate 0 (bindings (snd v)))) (\<lambda>bs.
       Return (fst v, map (\<lambda>(j, b). (j, field_type b)) bs))"

definition generate_fields :: "('t, 'p) Structure \<Rightarrow> string \<Rightarrow> 't match_body outcome" where
  "generate_fields s meth =
     and_then (try_filter keep_variant (enumerate 0 (variants s))) (\<lambda>vs.
     and_then (try_map keep_bindings vs) (\<lambda>as.
       Return \<lparr>call_method = meth, arms = as, omitted_variants = (length vs < length (variants s))\<rparr>))"

section \<open>Generated implementations\<close>

record 'p where_clause =
  inferred :: bool
  predicates :: "'p list"

datatype ('t, 'p) impl =
    Zeroize_impl "'p where_clause" "'t match_body"
  | Drop_impl "'p where_clause" "'t match_body option"
  | ZeroizeOnDrop_impl "'p where_clause"

definition where_of :: "('t, 'p) Structure \<Rightarrow> 'p where_clause" where
  "where_of s = \<lparr>inferred = infer_bounds s, predicates = where_predicates s\<rparr>"

definition derive_zeroize_without_drop :: "('t, 'p) Structure \<Rightarrow> ('t, 'p) impl list outcome" where
  "derive_zeroize_without_drop s =
     and_then (generate_fields s ''zeroize'') (\<lambda>zeroizers. Return [Zeroize_impl (where_of s) zeroizers])"

text \<open>The body of this \<open>drop\<close> is the call \<open>self.zeroize()\<close>.\<close>

definition derive_zeroize_with_drop :: "('t, 'p) Structure \<Rightarrow> ('t, 'p) impl list outcome" where
  "derive_zeroize_with_drop s =
     (let drop_impl = Drop_impl (where_of s) None in
      and_then (derive_zeroize_without_drop s) (\<lambda>zeroize_impl. Return (zeroize_impl @ [drop_impl])))"

definition derive_zeroize ::
  "(string \<Rightarrow> (string, 'p list) result) \<Rightarrow> ('t, 'p) Structure \<Rightarrow> ('t, 'p) impl list outcome" where
  "derive_zeroize parse_bounds s =
     and_then (parse parse_bounds s) (\<lambda>attributes.
       let s = (case attr_bound attributes of
                  Some bounds \<Rightarrow> s\<lparr>infer_bounds := False, where_predicates := where_predicates s @ bounds\<rparr>
                | None \<Rightarrow> s)
       in if attr_drop attributes then derive_zeroize_with_drop s else derive_zeroize_without_drop s)"

definition impl_zeroize_on_drop :: "('t, 'p) Structure \<Rightarrow> ('t, 'p) impl" where
  "impl_zeroize_on_drop s = ZeroizeOnDrop_impl (where_of s)"

definition derive_zeroize_on_drop :: "('t, 'p) Structure \<Rightarrow> ('t, 'p) impl list outcome" where
  "derive_zeroize_on_drop s =
     and_then (generate_fields s ''zeroize_or_on_drop'') (\<lambda>zeroizers.
       let s = s\<lparr>infer_bounds := False\<rparr>;
           drop_impl = Drop_impl (where_of s) (Some zeroizers);
           zeroize_on_drop_impl = impl_zeroize_on_drop s
       in Return [drop_impl, zeroize_on_drop_impl])"

section \<open>Which fields are skipped\<close>

text \<open>The entries of the \<open>#[zeroize(...)]\<close> attributes, and how many of them are the plain word \<open>skip\<close>.\<close>

definition zeroize_nested :: "attribute \<Rightarrow> nested list" where
  "zeroize_nested attr =
     (case attr of Some (MetaList path nested) \<Rightarrow> if is_ident path ZEROIZE_ATTR then nested else [] | _ \<Rightarrow> [])"

definition skip_count :: "attribute list \<Rightarrow> nat" where
  "skip_count attrs = count_list (concat (map zeroize_nested attrs)) (NMeta (MetaPath [''skip'']))"

definition skip_legal :: "'t variant \<Rightarrow> bool" where
  "skip_legal v \<longleftrightarrow> skip_count (variant_attrs v) \<le> 1 \<and>
     (\<forall>b \<in> set (bindings v). skip_count (variant_attrs v) + skip_count (field_attrs b) \<le> 1)"

definition kept :: "attribute list \<Rightarrow> bool" where
  "kept attrs \<longleftrightarrow> skip_count attrs = 0"

text \<open>The arms a reader expects: every variant and every field that is not skipped, in the order of the item.\<close>

definition kept_fields :: "'t variant \<Rightarrow> (nat \<times> 't) list" where
  "kept_fields v = map (\<lambda>(j, b). (j, field_type b)) (filter (\<lambda>(j, b). kept (field_attrs b)) (enumerate 0 (bindings v)))"

definition expected_arms :: "('t, 'p) Structure \<Rightarrow> (nat \<times> (nat \<times> 't) list) list" where
  "expected_arms s =
     map (\<lambda>(i, v). (i, kept_fields v)) (filter (\<lambda>(i, v). kept (variant_attrs v)) (enumerate 0 (variants s)))"

lemma enumerate_mem: "(i, x) \<in> set (enumerate k xs) \<Longrightarrow> x \<in> set xs"
  by (metis enumerate_eq_zip set_zip_rightD)

lemma for_each_skip_nested:
  "for_each skip_nested ns start =
     (let k = count_list ns (NMeta (MetaPath [''skip''])) in
      if k = 0 then Return start
      else if k = 1 \<and> start then Return False else Panic (Message ''duplicate #[zeroize] skip flags''))"
proof (induction ns arbitrary: start)
  case (Cons n ns)
  show ?case
  proof (cases "n = NMeta (MetaPath [''skip''])")
    case True
    then have "skip_nested n start = (if start then Return False else Panic (Message ''duplicate #[zeroize] skip flags''))"
      by (simp add: skip_nested_def is_ident_def)
    with True show ?thesis by (cases start) (simp_all add: Cons.IH Let_def)
  next
    case False
    then have "skip_nested n start = Return start"
      by (auto simp: skip_nested_def is_ident_def split: nested.split meta.split)
    with False show ?thesis by (simp add: Cons.IH)
  qed
qed simp

lemma filter_skip_eq:
  "filter_skip attrs start =
     (if skip_count attrs = 0 then Return start
      else if skip_count attrs = 1 \<and> start then Return False
      else Panic (Message ''duplicate #[zeroize] skip flags''))"
proof -
  have "skip_attr a = for_each skip_nested (zeroize_nested a)" for a
    by (auto simp: skip_attr_def zeroize_nested_def fun_eq_iff split: option.split meta.split)
  then have "skip_attr = (\<lambda>a. for_each skip_nested (zeroize_nested a))" by (simp add: fun_eq_iff)
  then have "filter_skip attrs start = for_each skip_nested (concat (map zeroize_nested attrs)) start"
    by (simp add: filter_skip_def for_each_concat for_each_map)
  then show ?thesis by (simp add: for_each_skip_nested skip_count_def Let_def)
qed

lemma filter_skip_True_eq_True [simp]: "filter_skip attrs True = Return True \<longleftrightarrow> kept attrs"
  by (simp add: filter_skip_eq kept_def)

lemma returns_filter_skip: "returns (filter_skip attrs start) \<longleftrightarrow> skip_count attrs \<le> (if start then 1 else 0)"
  by (auto simp: filter_skip_eq)

lemma returns_for_each_unit:
  "returns (for_each (\<lambda>b u. and_then (f b) (\<lambda>_. Return ())) bs ()) \<longleftrightarrow> (\<forall>b \<in> set bs. returns (f b))"
proof (induction bs)
  case (Cons b bs)
  then show ?case by (cases "f b") auto
qed simp

lemma keep_variant_eq:
  "returns (keep_variant (i, v)) \<longleftrightarrow> skip_legal v"
  "keep_variant (i, v) = Return True \<longleftrightarrow> skip_legal v \<and> kept (variant_attrs v)"
proof -
  have fields: "returns (for_each (\<lambda>b u. and_then (filter_skip (field_attrs b) r) (\<lambda>_. Return u)) (bindings v) ()) \<longleftrightarrow>
      (\<forall>b \<in> set (bindings v). skip_count (field_attrs b) \<le> (if r then 1 else 0))" for r
    by (simp add: returns_for_each_unit returns_filter_skip)
  have eq: "keep_variant (i, v) = (if skip_count (variant_attrs v) \<le> 1
      then and_then (for_each (\<lambda>b u. and_then (filter_skip (field_attrs b) (kept (variant_attrs v))) (\<lambda>_. Return u)) (bindings v) ())
             (\<lambda>_. Return (kept (variant_attrs v)))
      else Panic (Message ''duplicate #[zeroize] skip flags''))"
    by (auto simp: keep_variant_def filter_skip_eq [of "variant_attrs v"] kept_def le_Suc_eq)
  show "returns (keep_variant (i, v)) \<longleftrightarrow> skip_legal v"
    unfolding eq using fields [of "kept (variant_attrs v)"]
    by (auto simp: skip_legal_def kept_def returns_iff le_Suc_eq)
  show "keep_variant (i, v) = Return True \<longleftrightarrow> skip_legal v \<and> kept (variant_attrs v)"
    unfolding eq using fields [of "kept (variant_attrs v)"]
    by (auto simp: skip_legal_def kept_def returns_iff le_Suc_eq)
qed

lemma keep_bindings_eq:
  "skip_legal v \<Longrightarrow> keep_bindings (i, v) = Return (i, kept_fields v)"
proof -
  assume "skip_legal v"
  then have "\<forall>x \<in> set (enumerate 0 (bindings v)). returns ((\<lambda>(j, b). filter_skip (field_attrs b) True) x)"
    by (auto simp: skip_legal_def returns_filter_skip dest!: enumerate_mem)
  then have "try_filter (\<lambda>(j, b). filter_skip (field_attrs b) True) (enumerate 0 (bindings v)) =
      Return (filter (\<lambda>(j, b). kept (field_attrs b)) (enumerate 0 (bindings v)))"
    by (simp add: try_filter_Return case_prod_unfold)
  then show ?thesis by (simp add: keep_bindings_def kept_fields_def)
qed

lemma enumerate_ball: "(\<forall>(i, x) \<in> set (enumerate k xs). P x) \<longleftrightarrow> (\<forall>x \<in> set xs. P x)"
proof -
  have "set xs = snd ` set (enumerate k xs)" by (metis map_snd_enumerate set_map)
  then show ?thesis by auto
qed

lemma filter_shorter: "length (filter P xs) < length xs \<longleftrightarrow> (\<exists>x \<in> set xs. \<not> P x)"
proof (induction xs)
  case (Cons x xs)
  then show ?case using length_filter_le [of P xs] by auto
qed simp

text \<open>
  \<open>generate_fields\<close> completely: it returns exactly if no variant or field is skipped twice, and no field of a skipped
  variant is skipped.
\<close>

lemma generate_fields_eq:
  "returns (generate_fields s meth) \<longleftrightarrow> (\<forall>v \<in> set (variants s). skip_legal v)"
  "\<forall>v \<in> set (variants s). skip_legal v \<Longrightarrow>
   generate_fields s meth = Return \<lparr>call_method = meth, arms = expected_arms s,
     omitted_variants = (\<exists>v \<in> set (variants s). \<not> kept (variant_attrs v))\<rparr>"
proof -
  let ?vs = "enumerate 0 (variants s)"
  have legal: "(\<forall>x \<in> set ?vs. returns (keep_variant x)) \<longleftrightarrow> (\<forall>v \<in> set (variants s). skip_legal v)"
  proof -
    have "returns (keep_variant x) \<longleftrightarrow> skip_legal (snd x)" for x :: "nat \<times> 'a variant"
      by (cases x) (simp add: keep_variant_eq)
    then show ?thesis using enumerate_ball [of 0 "variants s" skip_legal] by (simp add: case_prod_unfold)
  qed
  have filter: "filter (\<lambda>x. keep_variant x = Return True) ?vs = filter (\<lambda>(i, v). kept (variant_attrs v)) ?vs"
    if "\<forall>v \<in> set (variants s). skip_legal v"
    by (rule filter_cong) (use that in \<open>auto simp: keep_variant_eq dest: enumerate_mem\<close>)
  show result: "generate_fields s meth = Return \<lparr>call_method = meth, arms = expected_arms s,
      omitted_variants = (\<exists>v \<in> set (variants s). \<not> kept (variant_attrs v))\<rparr>"
    if all: "\<forall>v \<in> set (variants s). skip_legal v"
  proof -
    let ?kept = "filter (\<lambda>(i, v). kept (variant_attrs v)) ?vs"
    have "try_filter keep_variant ?vs = Return ?kept"
      using all legal filter by (simp add: try_filter_Return)
    moreover have "try_map keep_bindings ?kept = Return (expected_arms s)"
      unfolding expected_arms_def
      by (rule try_map_pure) (use all in \<open>auto intro!: keep_bindings_eq dest: enumerate_mem\<close>)
    moreover have "length ?kept < length (variants s) \<longleftrightarrow> (\<exists>v \<in> set (variants s). \<not> kept (variant_attrs v))"
      using filter_shorter [of "\<lambda>(i, v). kept (variant_attrs v)" ?vs]
        enumerate_ball [of 0 "variants s" "\<lambda>v. kept (variant_attrs v)"] by (auto simp: case_prod_unfold)
    ultimately show ?thesis by (simp add: generate_fields_def)
  qed
  have "\<forall>v \<in> set (variants s). skip_legal v" if "returns (generate_fields s meth)"
    using that legal by (auto simp: generate_fields_def returns_iff try_filter_Return)
  with result show "returns (generate_fields s meth) \<longleftrightarrow> (\<forall>v \<in> set (variants s). skip_legal v)"
    by (metis returns_iff)
qed

section \<open>Which attributes are accepted\<close>

text \<open>The attributes in the order \<open>parse\<close> visits them, and the entries of those that are \<open>#[zeroize(...)]\<close>.\<close>

definition visited :: "('t, 'p) Structure \<Rightarrow> ('t variant option \<times> 't field option \<times> attribute) list" where
  "visited s =
     map (\<lambda>a. (None, None, a)) (ast_attrs s) @
     concat (map (\<lambda>v. (if prefix v \<noteq> None then map (\<lambda>a. (Some v, None, a)) (variant_attrs v) else []) @
       concat (map (\<lambda>b. map (\<lambda>a. (Some v, Some b, a)) (field_attrs b)) (bindings v))) (variants s))"

definition entries :: "('t, 'p) Structure \<Rightarrow> ('t variant option \<times> 't field option \<times> nested) list" where
  "entries s = concat (map (\<lambda>(v, b, a). map (\<lambda>n. (v, b, n)) (zeroize_nested a)) (visited s))"

definition is_flag :: "string \<Rightarrow> nested \<Rightarrow> bool" where
  "is_flag k n \<longleftrightarrow> (case n of NMeta m \<Rightarrow> is_ident (meta_path m) k | NLit _ \<Rightarrow> False)"

definition entry_legal ::
  "(string \<Rightarrow> (string, 'p list) result) \<Rightarrow> 't variant option \<times> 't field option \<times> nested \<Rightarrow> bool" where
  "entry_legal parse_bounds e =
     (case e of (v, b, n) \<Rightarrow>
        is_flag ''drop'' n \<and> v = None \<and> b = None \<or>
        is_flag ''bound'' n \<and> v = None \<and> b = None \<and>
          (case n of NMeta m \<Rightarrow> returns (bound_value parse_bounds m) | NLit _ \<Rightarrow> False) \<or>
        is_flag ''skip'' n \<and> \<not> (v = None \<and> b = None))"

definition flag_count :: "string \<Rightarrow> ('t variant option \<times> 't field option \<times> nested) list \<Rightarrow> nat" where
  "flag_count k es = length (filter (\<lambda>(v, b, n). is_flag k n) es)"

lemma flag_count_Cons [simp]: "flag_count k ((v, b, n) # es) = of_bool (is_flag k n) + flag_count k es"
  by (simp add: flag_count_def)

lemma flag_count_Nil [simp]: "flag_count k [] = 0"
  by (simp add: flag_count_def)

lemma misplaced_Return [simp]: "misplaced flag v b = Return () \<longleftrightarrow> v = None \<and> b = None"
  by (auto simp: misplaced_def split: option.split)

text \<open>One entry is accepted exactly if it is legal and not the second of its kind; what it changes.\<close>

lemma parse_nested_Return:
  "parse_nested pb v b n self = Return r \<longleftrightarrow>
     entry_legal pb (v, b, n) \<and> (is_flag ''drop'' n \<longrightarrow> \<not> attr_drop self) \<and>
     (is_flag ''bound'' n \<longrightarrow> attr_bound self = None) \<and>
     r = (case n of NMeta m \<Rightarrow>
            if is_flag ''drop'' n then self\<lparr>attr_drop := True\<rparr>
            else if is_flag ''bound'' n then
              self\<lparr>attr_bound := (case bound_value pb m of Return ps \<Rightarrow> Some ps | Panic _ \<Rightarrow> None)\<rparr>
            else self
          | NLit _ \<Rightarrow> self)"
proof (cases n)
  case (NMeta m)
  then show ?thesis
    by (cases "bound_value pb m")
      (auto simp: parse_nested_def parse_meta_def entry_legal_def is_flag_def is_ident_def)
qed (simp add: parse_nested_def entry_legal_def is_flag_def)

lemma parse_nested_returns:
  "returns (parse_nested pb v b n self) \<longleftrightarrow>
     entry_legal pb (v, b, n) \<and> (is_flag ''drop'' n \<longrightarrow> \<not> attr_drop self) \<and>
     (is_flag ''bound'' n \<longrightarrow> attr_bound self = None)"
  using parse_nested_Return [of pb v b n self] by (auto simp: returns_iff)

lemma parse_nested_state:
  assumes "parse_nested pb v b n self = Return r"
  shows "attr_drop r \<longleftrightarrow> attr_drop self \<or> is_flag ''drop'' n"
    and "attr_bound r = None \<longleftrightarrow> attr_bound self = None \<and> \<not> is_flag ''bound'' n"
proof -
  have "entry_legal pb (v, b, n)" using assms by (simp add: parse_nested_Return)
  moreover note r = assms [unfolded parse_nested_Return]
  ultimately show "attr_drop r \<longleftrightarrow> attr_drop self \<or> is_flag ''drop'' n"
      "attr_bound r = None \<longleftrightarrow> attr_bound self = None \<and> \<not> is_flag ''bound'' n"
    by (auto simp: entry_legal_def is_flag_def is_ident_def returns_iff split: nested.split_asm if_split_asm)
qed

lemma for_each_entries:
  "for_each (\<lambda>(v, b, n). parse_nested pb v b n) es self = Return r \<Longrightarrow>
     (attr_drop r \<longleftrightarrow> attr_drop self \<or> 0 < flag_count ''drop'' es) \<and>
     (attr_bound r = None \<longleftrightarrow> attr_bound self = None \<and> flag_count ''bound'' es = 0)"
proof (induction es arbitrary: self)
  case (Cons e es)
  obtain v b n where e: "e = (v, b, n)" by (cases e)
  from Cons.prems e obtain self1 where 1: "parse_nested pb v b n self = Return self1"
    and 2: "for_each (\<lambda>(v, b, n). parse_nested pb v b n) es self1 = Return r" by auto
  show ?case using Cons.IH [OF 2] parse_nested_state [OF 1] e by auto
qed simp

lemma for_each_entries_returns:
  "returns (for_each (\<lambda>(v, b, n). parse_nested pb v b n) es self) \<longleftrightarrow>
     (\<forall>e \<in> set es. entry_legal pb e) \<and> of_bool (attr_drop self) + flag_count ''drop'' es \<le> 1 \<and>
     of_bool (attr_bound self \<noteq> None) + flag_count ''bound'' es \<le> 1"
proof (induction es arbitrary: self)
  case (Cons e es)
  obtain v b n where e: "e = (v, b, n)" by (cases e)
  show ?case
  proof (cases "parse_nested pb v b n self")
    case (Panic p)
    then have "\<not> (entry_legal pb (v, b, n) \<and> (is_flag ''drop'' n \<longrightarrow> \<not> attr_drop self) \<and>
        (is_flag ''bound'' n \<longrightarrow> attr_bound self = None))"
      using parse_nested_returns [of pb v b n self] by simp
    with Panic e show ?thesis by auto
  next
    case (Return self1)
    then have legal: "entry_legal pb (v, b, n)" "is_flag ''drop'' n \<longrightarrow> \<not> attr_drop self"
        "is_flag ''bound'' n \<longrightarrow> attr_bound self = None"
      using parse_nested_returns [of pb v b n self] by auto
    have "of_bool (attr_drop self1) = (of_bool (attr_drop self) + of_bool (is_flag ''drop'' n) :: nat)"
      using parse_nested_state(1) [OF Return] legal(2) by auto
    moreover have "of_bool (attr_bound self1 \<noteq> None) = (of_bool (attr_bound self \<noteq> None) + of_bool (is_flag ''bound'' n) :: nat)"
      using parse_nested_state(2) [OF Return] legal(3) by auto
    ultimately show ?thesis using Return Cons.IH [of self1] legal(1) by (simp add: e add.assoc)
  qed
qed simp

lemma parse_entries:
  fixes s :: "('t, 'p) Structure"
  shows "parse pb s = Return r \<longleftrightarrow>
     (\<forall>(v, b, a) \<in> set (visited s). a \<noteq> None) \<and>
     for_each (\<lambda>(v, b, n). parse_nested pb v b n) (entries s) attrs_default = Return r"
proof -
  have attr: "parse_attr pb v b a self = (if a = None then Panic (Message ''error parsing attribute'')
      else for_each (parse_nested pb v b) (zeroize_nested a) self)" for v b a self
    by (auto simp: parse_attr_def zeroize_nested_def split: option.split meta.split)
  have "parse_variant pb v = for_each (\<lambda>(v, b, a). parse_attr pb v b a)
      ((if prefix v \<noteq> None then map (\<lambda>a. (Some v, None, a)) (variant_attrs v) else []) @
       concat (map (\<lambda>b. map (\<lambda>a. (Some v, Some b, a)) (field_attrs b)) (bindings v)))" for v :: "'t variant"
    by (auto simp: fun_eq_iff parse_variant_def for_each_append for_each_maps for_each_concats)
  then have "parse_variant pb = (\<lambda>v :: 't variant. for_each (\<lambda>(v, b, a). parse_attr pb v b a)
      ((if prefix v \<noteq> None then map (\<lambda>a. (Some v, None, a)) (variant_attrs v) else []) @
       concat (map (\<lambda>b. map (\<lambda>a. (Some v, Some b, a)) (field_attrs b)) (bindings v))))" by (rule ext)
  then have "parse pb s = for_each (\<lambda>(v, b, a). parse_attr pb v b a) (visited s) attrs_default"
    by (simp only: parse_def visited_def for_each_append for_each_maps for_each_concats prod.case)
  moreover have "for_each (\<lambda>(v, b, a). parse_attr pb v b a) vs self = Return r \<longleftrightarrow>
      (\<forall>(v, b, a) \<in> set vs. a \<noteq> None) \<and>
      for_each (\<lambda>(v, b, n). parse_nested pb v b n) (concat (map (\<lambda>(v, b, a). map (\<lambda>n. (v, b, n)) (zeroize_nested a)) vs)) self = Return r"
    for vs self
    by (induction vs arbitrary: self) (auto simp: attr for_each_append for_each_map split: if_split_asm)
  ultimately show ?thesis by (simp add: entries_def)
qed

section \<open>What the macro returns\<close>

lemma derive_without_drop_Return:
  "derive_zeroize_without_drop s = Return impls \<longleftrightarrow>
   (\<exists>body. generate_fields s ''zeroize'' = Return body \<and> impls = [Zeroize_impl (where_of s) body])"
  by (auto simp: derive_zeroize_without_drop_def)

text \<open>The arms depend on the variants only, so the bounds a macro adds do not matter.\<close>

lemma generate_fields_bounds [simp]:
  "generate_fields (s\<lparr>infer_bounds := b, where_predicates := w\<rparr>) meth = generate_fields s meth"
  "generate_fields (s\<lparr>infer_bounds := b\<rparr>) meth = generate_fields s meth"
  by (simp_all add: generate_fields_def)

lemma returns_parse:
  "returns (parse pb s) \<longleftrightarrow> (\<forall>(v, b, a) \<in> set (visited s). a \<noteq> None) \<and> (\<forall>e \<in> set (entries s). entry_legal pb e) \<and>
     flag_count ''drop'' (entries s) \<le> 1 \<and> flag_count ''bound'' (entries s) \<le> 1"
  using for_each_entries_returns [of pb "entries s" attrs_default] parse_entries [of pb s]
  unfolding returns_iff by (simp add: attrs_default_def)

lemma parse_flags:
  "parse pb s = Return r \<Longrightarrow> attr_drop r \<longleftrightarrow> 0 < flag_count ''drop'' (entries s)"
  using for_each_entries [of pb "entries s" attrs_default r] parse_entries [of pb s r] by (simp add: attrs_default_def)

lemma returns_derive_zeroize:
  "returns (derive_zeroize pb s) \<longleftrightarrow> returns (parse pb s) \<and> returns (generate_fields s ''zeroize'')"
proof (cases "parse pb s")
  case (Return r)
  then show ?thesis
    by (cases "generate_fields s ''zeroize''"; cases "attr_bound r")
       (auto simp: derive_zeroize_def derive_zeroize_with_drop_def derive_zeroize_without_drop_def Let_def)
qed (simp add: derive_zeroize_def)

lemma derive_zeroize_drop:
  assumes "derive_zeroize pb s = Return impls"
  shows "\<exists>r. parse pb s = Return r \<and> ((\<exists>w. Drop_impl w None \<in> set impls) \<longleftrightarrow> attr_drop r)"
  using assms
  by (auto simp: derive_zeroize_def derive_zeroize_with_drop_def derive_without_drop_Return Let_def split: if_split_asm)

section \<open>Properties\<close>



end
