(* ===== verification/Zeroize.thy ===== *)
theory Zeroize
  imports Rust_Prelude
begin

text \<open>
  The crate \<^verbatim>\<open>zeroize\<close> (\<^verbatim>\<open>zeroize/src/lib.rs\<close> and its register types in \<^verbatim>\<open>x86.rs\<close>, \<^verbatim>\<open>aarch64.rs\<close>).

  Memory is a function from addresses to bytes, and a Rust type with its \<open>Zeroize\<close> and \<open>Drop\<close>
  implementations is a record: its size, what \<open>zeroize\<close> does to the value at an address, and what dropping that
  value does.  The implementations for arrays, tuples, \<open>Option\<close>, \<open>Vec\<close> and \<open>Zeroizing\<close> are functions on
  such records, as the generic \<open>impl\<close> blocks are.

  What Rust leaves to the compiler is an argument: the layout of \<open>Vec\<close>, \<open>Option\<close> and tuples, the byte order, and the
  allocator of \<open>CString\<close>.  \<open>usize\<close> has 64 bits.  A volatile write is a write, and the
  fence orders nothing in a sequential memory; that the compiler keeps both is outside the model.
  Freeing a buffer changes no byte of it.
\<close>

section \<open>Memory\<close>

type_synonym mem = "nat \<Rightarrow> u8"

definition poke :: "mem \<Rightarrow> nat \<Rightarrow> bytes \<Rightarrow> mem" where
  "poke m a bs = (\<lambda>x. if a \<le> x \<and> x < a + length bs then bs ! (x - a) else m x)"

definition peek :: "mem \<Rightarrow> nat \<Rightarrow> nat \<Rightarrow> bytes" where
  "peek m a n = map m [a..<a + n]"

definition usize_MAX :: nat where "usize_MAX = 2 ^ 64 - 1"

definition isize_MAX :: nat where "isize_MAX = 2 ^ 63 - 1"

definition checked_mul :: "nat \<Rightarrow> nat \<Rightarrow> nat option" where
  "checked_mul a b = (if a * b \<le> usize_MAX then Some (a * b) else None)"

definition volatile_write :: "mem \<Rightarrow> nat \<Rightarrow> bytes \<Rightarrow> mem" where
  "volatile_write m dst src = poke m dst src"

definition volatile_set :: "mem \<Rightarrow> nat \<Rightarrow> bytes \<Rightarrow> nat \<Rightarrow> mem" where
  "volatile_set m dst src count =
     foldl (\<lambda>m i. let ptr = dst + i * length src in poke m ptr src) m [0..<count]"

section \<open>Types with a zeroize implementation\<close>

record ty =
  size_of :: nat
  zeroize :: "nat \<Rightarrow> mem \<Rightarrow> mem outcome"
  drop_in_place :: "nat \<Rightarrow> mem \<Rightarrow> mem outcome"

text \<open>
  \<open>DefaultIsZeroes\<close> types, by the bytes of their default value; they are \<open>Copy\<close>, so they have no \<open>Drop\<close>.
\<close>

definition default_is_zeroes :: "bytes \<Rightarrow> ty" where
  "default_is_zeroes dflt =
     \<lparr>size_of = length dflt, zeroize = (\<lambda>self m. Return (volatile_write m self dflt)),
      drop_in_place = (\<lambda>self m. Return m)\<rparr>"

definition primitive_sizes :: "(string \<times> nat) list" where
  "primitive_sizes =
    [(''bool'', 1), (''char'', 4), (''f32'', 4), (''f64'', 8), (''i8'', 1), (''i16'', 2), (''i32'', 4),
     (''i64'', 8), (''i128'', 16), (''isize'', 8), (''u8'', 1), (''u16'', 2), (''u32'', 4), (''u64'', 8),
     (''u128'', 16), (''usize'', 8)]"

definition primitive :: "string \<Rightarrow> ty option" where
  "primitive name = map_option (\<lambda>n. default_is_zeroes (replicate n 0)) (map_of primitive_sizes name)"

definition non_zero :: "bool \<Rightarrow> nat \<Rightarrow> ty" where
  "non_zero little_endian n =
     (let one = if little_endian then 1 # replicate (n - 1) 0 else replicate (n - 1) 0 @ [1] in
      \<lparr>size_of = n, zeroize = (\<lambda>self m. Return (volatile_write m self one)),
       drop_in_place = (\<lambda>self m. Return m)\<rparr>)"

definition simd_register :: "nat \<Rightarrow> ty" where
  "simd_register n =
     \<lparr>size_of = n, zeroize = (\<lambda>self m. Return (volatile_write m self (replicate n 0))),
      drop_in_place = (\<lambda>self m. Return m)\<rparr>"

definition x86_registers :: "(string \<times> ty) list" where
  "x86_registers =
    [(''__m128'', simd_register 16), (''__m128d'', simd_register 16), (''__m128i'', simd_register 16),
     (''__m256'', simd_register 32), (''__m256d'', simd_register 32), (''__m256i'', simd_register 32)]"

definition aarch64_registers :: "(string \<times> ty) list" where
  "aarch64_registers =
    [(''uint8x8_t'', simd_register 8), (''uint8x16_t'', simd_register 16), (''uint16x4_t'', simd_register 8),
     (''uint16x8_t'', simd_register 16), (''uint32x2_t'', simd_register 8), (''uint32x4_t'', simd_register 16),
     (''uint64x1_t'', simd_register 8), (''uint64x2_t'', simd_register 16)]"

definition wrapping :: "ty \<Rightarrow> ty" where
  "wrapping Z = Z\<lparr>zeroize := (\<lambda>self m. zeroize Z self m)\<rparr>"

fun iter_mut_zeroize :: "ty \<Rightarrow> nat \<Rightarrow> nat \<Rightarrow> mem \<Rightarrow> mem outcome" where
  "iter_mut_zeroize Z a 0 m = Return m"
| "iter_mut_zeroize Z a (Suc n) m =
     and_then (zeroize Z a m) (\<lambda>m. iter_mut_zeroize Z (a + size_of Z) n m)"

fun drop_slice :: "ty \<Rightarrow> nat \<Rightarrow> nat \<Rightarrow> mem \<Rightarrow> mem outcome" where
  "drop_slice Z a 0 m = Return m"
| "drop_slice Z a (Suc n) m =
     and_then (drop_in_place Z a m) (\<lambda>m. drop_slice Z (a + size_of Z) n m)"

definition array_of :: "nat \<Rightarrow> ty \<Rightarrow> ty" where
  "array_of N Z =
     \<lparr>size_of = N * size_of Z, zeroize = (\<lambda>self m. iter_mut_zeroize Z self N m),
      drop_in_place = (\<lambda>self m. drop_slice Z self N m)\<rparr>"

definition zero_sized :: ty where
  "zero_sized = \<lparr>size_of = 0, zeroize = (\<lambda>self m. Return m), drop_in_place = (\<lambda>self m. Return m)\<rparr>"

text \<open>A tuple of two to ten components, by their offsets.\<close>

fun tuple_fields :: "(ty \<Rightarrow> nat \<Rightarrow> mem \<Rightarrow> mem outcome) \<Rightarrow> (nat \<times> ty) list \<Rightarrow> nat \<Rightarrow> mem \<Rightarrow> mem outcome" where
  "tuple_fields f [] self m = Return m"
| "tuple_fields f ((offset, Z) # flds) self m =
     and_then (f Z (self + offset) m) (tuple_fields f flds self)"

definition tuple :: "nat \<Rightarrow> (nat \<times> ty) list \<Rightarrow> ty" where
  "tuple sz flds =
     \<lparr>size_of = sz, zeroize = tuple_fields zeroize flds,
      drop_in_place = tuple_fields drop_in_place flds\<rparr>"

text \<open>
  \<open>Option\<close>: the layout says where the payload is, how to tell \<open>Some\<close>, and which bytes writing
  \<open>None\<close> sets.  \<open>take\<close> moves the value to a temporary, writes \<open>None\<close> and drops the temporary.
\<close>

record option_layout =
  option_size :: nat
  payload_offset :: nat
  is_some :: "bytes \<Rightarrow> bool"
  write_none :: "bytes \<Rightarrow> bytes"

definition set_none :: "option_layout \<Rightarrow> nat \<Rightarrow> mem \<Rightarrow> mem" where
  "set_none L self m = poke m self (write_none L (peek m self (option_size L)))"

definition option_take :: "option_layout \<Rightarrow> ty \<Rightarrow> nat \<Rightarrow> nat \<Rightarrow> mem \<Rightarrow> mem outcome" where
  "option_take L Z tmp self m =
     (let m = poke m tmp (peek m (self + payload_offset L) (size_of Z)) in
      drop_in_place Z tmp (set_none L self m))"

definition option_zeroize :: "option_layout \<Rightarrow> ty \<Rightarrow> nat \<Rightarrow> nat \<Rightarrow> mem \<Rightarrow> mem outcome" where
  "option_zeroize L Z tmp self m =
     and_then
       (if is_some L (peek m self (option_size L)) then
          and_then (zeroize Z (self + payload_offset L) m) (\<lambda>m. option_take L Z tmp self m)
        else Return m)
       (\<lambda>m. let m = volatile_set m self [0] (option_size L) in Return (set_none L self m))"

section \<open>Slices, vectors and strings\<close>

definition uninit_slice_zeroize :: "nat \<Rightarrow> nat \<Rightarrow> nat \<Rightarrow> mem \<Rightarrow> mem outcome" where
  "uninit_slice_zeroize sz ptr len m =
     (case checked_mul len sz of
        None \<Rightarrow> Panic Unwrap_Failed
      | Some sz \<Rightarrow>
          and_then (rust_assert (sz \<le> isize_MAX) Assert_Failed) (\<lambda>_. Return (volatile_set m ptr [0] sz)))"

definition slice_zeroize :: "bytes \<Rightarrow> nat \<Rightarrow> nat \<Rightarrow> mem \<Rightarrow> mem outcome" where
  "slice_zeroize dflt ptr len m =
     and_then (rust_assert (len \<le> isize_MAX) Assert_Failed) (\<lambda>_. Return (volatile_set m ptr dflt len))"

record rvec =
  vec_ptr :: nat
  vec_cap :: nat
  vec_len :: nat

definition vec_clear :: "ty \<Rightarrow> rvec \<Rightarrow> mem \<Rightarrow> (rvec \<times> mem) outcome" where
  "vec_clear Z v m = and_then (drop_slice Z (vec_ptr v) (vec_len v) m) (\<lambda>m. Return (v\<lparr>vec_len := 0\<rparr>, m))"

definition vec_zeroize :: "ty \<Rightarrow> rvec \<Rightarrow> mem \<Rightarrow> (rvec \<times> mem) outcome" where
  "vec_zeroize Z v m =
     and_then (iter_mut_zeroize Z (vec_ptr v) (vec_len v) m) (\<lambda>m.
     and_then (vec_clear Z v m) (\<lambda>(v, m).
     and_then (uninit_slice_zeroize (size_of Z) (vec_ptr v) (vec_cap v) m) (\<lambda>m.
       Return (v, m))))"

record vec_layout =
  header_size :: nat
  read_header :: "bytes \<Rightarrow> rvec"
  write_header :: "rvec \<Rightarrow> bytes"

definition load_vec :: "vec_layout \<Rightarrow> nat \<Rightarrow> mem \<Rightarrow> rvec" where
  "load_vec L self m = read_header L (peek m self (header_size L))"

definition vec_of :: "vec_layout \<Rightarrow> ty \<Rightarrow> ty" where
  "vec_of L Z =
     \<lparr>size_of = header_size L,
      zeroize = (\<lambda>self m. and_then (vec_zeroize Z (load_vec L self m) m) (\<lambda>(v, m).
        Return (poke m self (write_header L v)))),
      drop_in_place = (\<lambda>self m. let v = load_vec L self m in drop_slice Z (vec_ptr v) (vec_len v) m)\<rparr>"

text \<open>\<open>Box<[Z]>\<close>: a pointer and a length.\<close>

definition box_slice_zeroize :: "ty \<Rightarrow> nat \<Rightarrow> nat \<Rightarrow> mem \<Rightarrow> mem outcome" where
  "box_slice_zeroize Z ptr len m = iter_mut_zeroize Z ptr len m"

definition u8_type :: ty where
  "u8_type = default_is_zeroes [0]"

definition string_zeroize :: "rvec \<Rightarrow> mem \<Rightarrow> (rvec \<times> mem) outcome" where
  "string_zeroize self m = vec_zeroize u8_type self m"

definition string_type :: "vec_layout \<Rightarrow> ty" where
  "string_type L = vec_of L u8_type"

text \<open>
  \<open>CString\<close> holds a boxed slice that ends with a zero.  \<open>into_bytes\<close> drops the final zero from the length,
  \<open>CString::new\<close> rejects an inner zero, appends the final one and shrinks the buffer to its length.  The
  allocator returns an address and a memory.
\<close>

record cstring =
  cs_ptr :: nat
  cs_len :: nat

definition cstring_default :: "(nat \<Rightarrow> mem \<Rightarrow> nat \<times> mem) \<Rightarrow> mem \<Rightarrow> cstring \<times> mem" where
  "cstring_default alloc m =
     (let (ptr, m) = alloc 1 m in (\<lparr>cs_ptr = ptr, cs_len = 1\<rparr>, poke m ptr [0]))"

definition cstring_into_bytes :: "cstring \<Rightarrow> rvec" where
  "cstring_into_bytes c = \<lparr>vec_ptr = cs_ptr c, vec_cap = cs_len c, vec_len = cs_len c - 1\<rparr>"

definition resize_vec :: "(nat \<Rightarrow> nat \<Rightarrow> nat \<Rightarrow> mem \<Rightarrow> nat \<times> mem) \<Rightarrow> nat \<Rightarrow> rvec \<Rightarrow> mem \<Rightarrow> rvec \<times> mem" where
  "resize_vec realloc cap v m =
     (if cap = vec_cap v then (v, m)
      else let (ptr, m) = realloc (vec_ptr v) (vec_cap v) cap m in (v\<lparr>vec_ptr := ptr, vec_cap := cap\<rparr>, m))"

definition cstring_new ::
  "(nat \<Rightarrow> nat \<Rightarrow> nat \<Rightarrow> mem \<Rightarrow> nat \<times> mem) \<Rightarrow> rvec \<Rightarrow> mem \<Rightarrow> (unit, cstring) result \<times> mem" where
  "cstring_new realloc v m =
     (if 0 \<in> set (peek m (vec_ptr v) (vec_len v)) then (Err (), m)
      else
        let (v, m) = resize_vec realloc (max (vec_cap v) (vec_len v + 1)) v m;
            m = poke m (vec_ptr v + vec_len v) [0];
            v = v\<lparr>vec_len := vec_len v + 1\<rparr>;
            (v, m) = resize_vec realloc (vec_len v) v m
        in (Ok \<lparr>cs_ptr = vec_ptr v, cs_len = vec_len v\<rparr>, m))"

definition cstring_zeroize ::
  "(nat \<Rightarrow> mem \<Rightarrow> nat \<times> mem) \<Rightarrow> (nat \<Rightarrow> nat \<Rightarrow> nat \<Rightarrow> mem \<Rightarrow> nat \<times> mem) \<Rightarrow> cstring \<Rightarrow> mem \<Rightarrow> (cstring \<times> mem) outcome" where
  "cstring_zeroize alloc realloc self m =
     (let this = self; (self, m) = cstring_default alloc m; buf = cstring_into_bytes this in
      and_then (vec_zeroize u8_type buf m) (\<lambda>(buf, m).
        let (zeroed, m) = cstring_new realloc buf m in
        and_then (unwrap zeroed) (\<lambda>zeroed. Return (zeroed, m))))"

section \<open>Zeroizing\<close>

definition zeroizing :: "ty \<Rightarrow> ty" where
  "zeroizing Z =
     Z\<lparr>zeroize := (\<lambda>self m. zeroize Z self m),
       drop_in_place := (\<lambda>self m. and_then (zeroize Z self m) (\<lambda>m. drop_in_place Z self m))\<rparr>"

definition zeroizing_clone_from ::
  "ty \<Rightarrow> (nat \<Rightarrow> nat \<Rightarrow> mem \<Rightarrow> mem outcome) \<Rightarrow> nat \<Rightarrow> nat \<Rightarrow> mem \<Rightarrow> mem outcome" where
  "zeroizing_clone_from Z clone_from self source m =
     and_then (zeroize Z self m) (\<lambda>m. clone_from self source m)"

text \<open>
  The derive macro calls \<open>zeroize_or_on_drop\<close>, which does nothing for a type that zeroizes itself when
  dropped and zeroizes any other.
\<close>

definition zeroize_or_on_drop :: "bool \<Rightarrow> ty \<Rightarrow> nat \<Rightarrow> mem \<Rightarrow> mem outcome" where
  "zeroize_or_on_drop is_zeroize_on_drop Z self m =
     (if is_zeroize_on_drop then Return m else zeroize Z self m)"

section \<open>Memory lemmas\<close>

lemma poke_Nil [simp]: "poke m a [] = m"
  by (auto simp: poke_def fun_eq_iff)

lemma poke_append: "poke (poke m a xs) (a + length xs) ys = poke m a (xs @ ys)"
  by (auto simp: poke_def fun_eq_iff nth_append)

lemma poke_outside: "x \<notin> {a..<a + length bs} \<Longrightarrow> poke m a bs x = m x"
  by (auto simp: poke_def)

lemma poke_zeros: "x \<in> {a..<a + n} \<Longrightarrow> poke m a (replicate n 0) x = 0"
  by (auto simp: poke_def)

lemma peek_poke [simp]: "peek (poke m a bs) a (length bs) = bs"
  by (auto simp: peek_def poke_def intro!: nth_equalityI)

lemma peek_poke_other [simp]:
  "b + n \<le> a \<or> a + length bs \<le> b \<Longrightarrow> peek (poke m a bs) b n = peek m b n"
  by (auto simp: peek_def poke_def)

lemma length_mem_read [simp]: "length (peek m a n) = n"
  by (simp add: peek_def)

definition agree :: "mem \<Rightarrow> mem \<Rightarrow> nat set \<Rightarrow> bool" where
  "agree m m' A \<longleftrightarrow> (\<forall>x \<in> A. m' x = m x)"

lemma peek_agree: "agree m m' {a..<a + n} \<Longrightarrow> peek m' a n = peek m a n"
  by (simp add: peek_def agree_def)

lemma agree_mono: "agree m m' B \<Longrightarrow> A \<subseteq> B \<Longrightarrow> agree m m' A"
  by (auto simp: agree_def)

text \<open>The loop of \<open>volatile_set\<close> writes the value \<open>count\<close> times in a row.\<close>

lemma volatile_set_eq: "volatile_set m a src n = poke m a (concat (replicate n src))"
proof (induction n)
  case (Suc n)
  have len: "length (concat (replicate n src)) = n * length src"
    by (simp add: length_concat sum_list_replicate)
  have "volatile_set m a src (Suc n) = poke (volatile_set m a src n) (a + n * length src) src"
    by (simp add: volatile_set_def Let_def)
  also have "\<dots> = poke m a (concat (replicate n src) @ src)"
    using poke_append [of m a "concat (replicate n src)" src] by (simp add: Suc.IH len)
  also have "concat (replicate n src) @ src = concat (replicate (Suc n) src)"
    by (induction n) simp_all
  finally show ?case .
qed (simp add: volatile_set_def)

lemma volatile_set_bytes: "volatile_set m a [b] n = poke m a (replicate n b)"
proof -
  have "concat (replicate n [b]) = replicate n b" by (induction n) auto
  then show ?thesis by (simp add: volatile_set_eq)
qed

lemma uninit_slice_zeroize_eq:
  "n * sz \<le> isize_MAX \<Longrightarrow> uninit_slice_zeroize sz a n m = Return (poke m a (replicate (n * sz) 0))"
  by (simp add: uninit_slice_zeroize_def checked_mul_def usize_MAX_def isize_MAX_def volatile_set_bytes)

section \<open>The contract of zeroize\<close>

text \<open>
  A type keeps the contract if \<open>zeroize\<close> on a good value returns, clears every byte the value
  owns outside its own location, writes nothing but the value and what it owns, and leaves a value whose drop does nothing
  more.  Whether a value is good and what it owns depends only on the value and what it owns.
\<close>

definition footprint :: "ty \<Rightarrow> (nat \<Rightarrow> mem \<Rightarrow> nat set) \<Rightarrow> nat \<Rightarrow> mem \<Rightarrow> nat set" where
  "footprint Z own a m = {a..<a + size_of Z} \<union> own a m"

definition cleared :: "ty \<Rightarrow> (nat \<Rightarrow> mem \<Rightarrow> nat set) \<Rightarrow> nat \<Rightarrow> mem \<Rightarrow> mem \<Rightarrow> bool" where
  "cleared Z own a m m' \<longleftrightarrow>
     (\<forall>x \<in> own a m. m' x = 0) \<and> (\<forall>x. x \<notin> footprint Z own a m \<longrightarrow> m' x = m x)"

locale owned_region =
  fixes Z :: ty
    and good :: "nat \<Rightarrow> mem \<Rightarrow> bool"
    and own :: "nat \<Rightarrow> mem \<Rightarrow> nat set"
  assumes local: "good a m \<Longrightarrow> agree m m' (footprint Z own a m) \<Longrightarrow> good a m' \<and> own a m' = own a m"

locale zeroize_law = owned_region +
  assumes clears: "good a m \<Longrightarrow> \<exists>m'. zeroize Z a m = Return m' \<and> cleared Z own a m m' \<and>
          (\<forall>m''. agree m' m'' {a..<a + size_of Z} \<longrightarrow> drop_in_place Z a m'' = Return m'')"

text \<open>A sequence of values: all good, and no two of them share a byte.\<close>

definition slice_good ::
  "ty \<Rightarrow> (nat \<Rightarrow> mem \<Rightarrow> bool) \<Rightarrow> (nat \<Rightarrow> mem \<Rightarrow> nat set) \<Rightarrow> nat \<Rightarrow> nat \<Rightarrow> mem \<Rightarrow> bool" where
  "slice_good Z good own a n m \<longleftrightarrow>
     (\<forall>i < n. good (a + i * size_of Z) m) \<and>
     (\<forall>i < n. \<forall>j < i. footprint Z own (a + i * size_of Z) m \<inter> footprint Z own (a + j * size_of Z) m = {})"

definition slice_own :: "ty \<Rightarrow> (nat \<Rightarrow> mem \<Rightarrow> nat set) \<Rightarrow> nat \<Rightarrow> nat \<Rightarrow> mem \<Rightarrow> nat set" where
  "slice_own Z own a n m = (\<Union>i < n. own (a + i * size_of Z) m)"

lemma shift_index: "(a + s) + i * s = a + Suc i * (s :: nat)"
  by simp

lemma slice_own_Suc: "slice_own Z own a (Suc n) m = own a m \<union> slice_own Z own (a + size_of Z) n m"
proof -
  have "{..<Suc n} = insert 0 (Suc ` {..<n})" by (rule lessThan_Suc_eq_insert_0)
  then show ?thesis by (simp add: slice_own_def shift_index)
qed

lemma slice_bytes_Suc:
  "{a..<a + Suc n * s} = {a..<a + s} \<union> {a + s..<(a + s) + n * (s :: nat)}"
  by auto

lemma slice_footprints_eq:
  "(\<Union>i < n. footprint Z own (a + i * size_of Z) m) = {a..<a + n * size_of Z} \<union> slice_own Z own a n m"
proof (induction n arbitrary: a)
  case (Suc n)
  have "(\<Union>i < Suc n. footprint Z own (a + i * size_of Z) m) =
        footprint Z own a m \<union> (\<Union>i < n. footprint Z own ((a + size_of Z) + i * size_of Z) m)"
    unfolding lessThan_Suc_eq_insert_0 by (simp add: shift_index)
  also have "\<dots> = {a..<a + Suc n * size_of Z} \<union> slice_own Z own a (Suc n) m"
    unfolding Suc.IH unfolding slice_bytes_Suc slice_own_Suc footprint_def by blast
  finally show ?case .
qed (simp add: slice_own_def)

lemma slice_good_disjoint:
  "slice_good Z good own a n m \<Longrightarrow> i < n \<Longrightarrow> j < i \<Longrightarrow>
   footprint Z own (a + i * size_of Z) m \<inter> footprint Z own (a + j * size_of Z) m = {}"
  by (simp add: slice_good_def)

lemma slice_good_Suc:
  assumes "slice_good Z good own a (Suc n) m"
  shows "good a m" "slice_good Z good own (a + size_of Z) n m"
    "i < n \<Longrightarrow> footprint Z own ((a + size_of Z) + i * size_of Z) m \<inter> footprint Z own a m = {}"
proof -
  show "good a m" using assms by (force simp: slice_good_def)
  show "slice_good Z good own (a + size_of Z) n m"
    using assms unfolding slice_good_def shift_index by (meson Suc_less_eq)
  show "i < n \<Longrightarrow> footprint Z own ((a + size_of Z) + i * size_of Z) m \<inter> footprint Z own a m = {}"
    using slice_good_disjoint [OF assms, of "Suc i" 0] by (simp add: shift_index)
qed

context owned_region
begin

lemma footprint_local:
  assumes "good a m" "agree m m' (footprint Z own a m)"
  shows "footprint Z own a m' = footprint Z own a m"
proof -
  have "own a m' = own a m" using local [OF assms] ..
  then show ?thesis by (simp only: footprint_def)
qed

lemma slice_local:
  assumes good: "slice_good Z good own a n m"
    and agree: "agree m m' ({a..<a + n * size_of Z} \<union> slice_own Z own a n m)"
  shows "slice_good Z good own a n m'" "slice_own Z own a n m' = slice_own Z own a n m"
proof -
  have ag: "agree m m' (footprint Z own (a + i * size_of Z) m)" if "i < n" for i
    by (rule agree_mono [OF agree]) (use that slice_footprints_eq [of Z own a m n] in blast)
  have g: "good (a + i * size_of Z) m" if "i < n" for i
    using good that by (simp add: slice_good_def)
  show "slice_good Z good own a n m'"
    unfolding slice_good_def
  proof (intro conjI allI impI)
    show "good (a + i * size_of Z) m'" if "i < n" for i
      using local [OF g ag] that by blast
    show "footprint Z own (a + i * size_of Z) m' \<inter> footprint Z own (a + j * size_of Z) m' = {}"
      if "i < n" "j < i" for i j
      using slice_good_disjoint [OF good that] footprint_local [OF g ag] that by simp
  qed
  show "slice_own Z own a n m' = slice_own Z own a n m"
    using local [OF g ag] by (simp add: slice_own_def)
qed

end

context zeroize_law
begin

lemma iter_clears:
  assumes "slice_good Z good own a n m"
  shows "\<exists>m'. iter_mut_zeroize Z a n m = Return m' \<and>
    (\<forall>x \<in> slice_own Z own a n m. m' x = 0) \<and>
    (\<forall>x. x \<notin> {a..<a + n * size_of Z} \<union> slice_own Z own a n m \<longrightarrow> m' x = m x) \<and>
    (\<forall>m''. agree m' m'' {a..<a + n * size_of Z} \<longrightarrow> drop_slice Z a n m'' = Return m'')"
  using assms
proof (induction n arbitrary: a m)
  case 0
  then show ?case by (simp add: slice_own_def)
next
  case (Suc n)
  let ?b = "a + size_of Z"
  let ?rest = "{?b..<?b + n * size_of Z} \<union> slice_own Z own ?b n m"
  note first = slice_good_Suc [OF Suc.prems]
  obtain m1 where m1: "zeroize Z a m = Return m1" "cleared Z own a m m1"
    and drop1: "\<And>m''. agree m1 m'' {a..<?b} \<Longrightarrow> drop_in_place Z a m'' = Return m''"
    using clears [OF first(1)] by blast
  have disj: "footprint Z own a m \<inter> ?rest = {}"
    using first(3) unfolding slice_footprints_eq [symmetric] by blast
  have "agree m m1 ?rest"
    using m1(2) disj by (auto simp: agree_def cleared_def)
  note rest = slice_local [OF first(2) this]
  obtain m' where m': "iter_mut_zeroize Z ?b n m1 = Return m'"
      "\<forall>x \<in> slice_own Z own ?b n m. m' x = 0" "\<And>x. x \<notin> ?rest \<Longrightarrow> m' x = m1 x"
    and drop: "\<And>m''. agree m' m'' {?b..<?b + n * size_of Z} \<Longrightarrow> drop_slice Z ?b n m'' = Return m''"
    using Suc.IH [OF rest(1)] unfolding rest(2) by blast
  have keep: "m' x = m1 x" if "x \<in> footprint Z own a m" for x
    using m'(3) disj that by blast
  have "m' x = 0" if "x \<in> slice_own Z own a (Suc n) m" for x
    using that keep m'(2) m1(2) by (auto simp: slice_own_Suc cleared_def footprint_def)
  moreover have "m' x = m x" if "x \<notin> {a..<a + Suc n * size_of Z} \<union> slice_own Z own a (Suc n) m" for x
    using that m1(2) m'(3) [of x] unfolding slice_bytes_Suc slice_own_Suc cleared_def footprint_def by auto
  moreover have "drop_slice Z a (Suc n) m'' = Return m''" if "agree m' m'' {a..<a + Suc n * size_of Z}" for m''
  proof -
    have "agree m1 m'' {a..<?b}"
      using that keep by (auto simp: agree_def footprint_def slice_bytes_Suc)
    moreover have "agree m' m'' {?b..<?b + n * size_of Z}"
      by (rule agree_mono [OF that]) (unfold slice_bytes_Suc, blast)
    ultimately show ?thesis by (simp add: drop1 drop)
  qed
  ultimately show ?case using m1(1) m'(1) by auto
qed

end

section \<open>Vectors keep the contract\<close>

definition vec_fits :: "rvec \<Rightarrow> bool" where
  "vec_fits v \<longleftrightarrow> vec_ptr v \<le> usize_MAX \<and> vec_cap v \<le> usize_MAX \<and> vec_len v \<le> usize_MAX"

definition layout_ok :: "vec_layout \<Rightarrow> bool" where
  "layout_ok L \<longleftrightarrow> (\<forall>v. length (write_header L v) = header_size L) \<and>
     (\<forall>v. vec_fits v \<longrightarrow> read_header L (write_header L v) = v)"

definition vec_own :: "vec_layout \<Rightarrow> ty \<Rightarrow> (nat \<Rightarrow> mem \<Rightarrow> nat set) \<Rightarrow> nat \<Rightarrow> mem \<Rightarrow> nat set" where
  "vec_own L Z own a m =
     (let v = load_vec L a m in
      {vec_ptr v..<vec_ptr v + vec_cap v * size_of Z} \<union> slice_own Z own (vec_ptr v) (vec_len v) m)"

text \<open>
  A good vector: its length is within its capacity, the allocation is within \<open>isize::MAX\<close> bytes, its elements are
  good, and what it owns does not overlap its header.
\<close>

definition vec_good ::
  "vec_layout \<Rightarrow> ty \<Rightarrow> (nat \<Rightarrow> mem \<Rightarrow> bool) \<Rightarrow> (nat \<Rightarrow> mem \<Rightarrow> nat set) \<Rightarrow> nat \<Rightarrow> mem \<Rightarrow> bool" where
  "vec_good L Z good own a m \<longleftrightarrow>
     (let v = load_vec L a m in
      vec_fits v \<and> vec_len v \<le> vec_cap v \<and> vec_cap v * size_of Z \<le> isize_MAX \<and>
      slice_good Z good own (vec_ptr v) (vec_len v) m \<and> vec_own L Z own a m \<inter> {a..<a + header_size L} = {})"

lemma elements_within: "n \<le> k \<Longrightarrow> {p..<p + n * s} \<subseteq> {p..<p + k * (s :: nat)}"
  using mult_le_mono1 [of n k s] by (simp add: ivl_subset)

lemma load_vec_agree:
  "agree m m' (footprint (vec_of L Z) own a m) \<Longrightarrow> load_vec L a m' = load_vec L a m"
  unfolding load_vec_def by (subst peek_agree) (auto simp: agree_def footprint_def vec_of_def)

lemma load_vec_write:
  "layout_ok L \<Longrightarrow> vec_fits v \<Longrightarrow> load_vec L a (poke m a (write_header L v)) = v"
  using peek_poke [of m a "write_header L v"] by (simp add: load_vec_def layout_ok_def)

context zeroize_law
begin

text \<open>\<open>Vec::zeroize\<close> on a slice of good elements.\<close>

lemma vec_zeroize_clears:
  assumes "slice_good Z good own (vec_ptr v) (vec_len v) m" "vec_len v \<le> vec_cap v"
    "vec_cap v * size_of Z \<le> isize_MAX"
  defines "owned \<equiv> {vec_ptr v..<vec_ptr v + vec_cap v * size_of Z} \<union> slice_own Z own (vec_ptr v) (vec_len v) m"
  shows "\<exists>m'. vec_zeroize Z v m = Return (v\<lparr>vec_len := 0\<rparr>, m') \<and>
    (\<forall>x \<in> owned. m' x = 0) \<and> (\<forall>x. x \<notin> owned \<longrightarrow> m' x = m x)"
proof -
  obtain m1 where m1: "iter_mut_zeroize Z (vec_ptr v) (vec_len v) m = Return m1"
      "\<forall>x \<in> slice_own Z own (vec_ptr v) (vec_len v) m. m1 x = 0"
      "\<And>x. x \<notin> {vec_ptr v..<vec_ptr v + vec_len v * size_of Z} \<union> slice_own Z own (vec_ptr v) (vec_len v) m \<Longrightarrow> m1 x = m x"
      "drop_slice Z (vec_ptr v) (vec_len v) m1 = Return m1"
    using iter_clears [OF assms(1)] by (auto simp: agree_def)
  define m2 where "m2 = poke m1 (vec_ptr v) (replicate (vec_cap v * size_of Z) 0)"
  note len = elements_within [OF assms(2), of "vec_ptr v" "size_of Z"]
  have "vec_zeroize Z v m = Return (v\<lparr>vec_len := 0\<rparr>, m2)"
    by (simp add: vec_zeroize_def m1 vec_clear_def uninit_slice_zeroize_eq [OF assms(3)] m2_def)
  moreover have "m2 x = 0" if "x \<in> owned" for x
    using that m1(2) unfolding owned_def m2_def poke_def by auto
  moreover have "m2 x = m x" if "x \<notin> owned" for x
  proof -
    have "m1 x = m x" by (rule m1(3)) (use that len owned_def in blast)
    then show ?thesis using that by (auto simp: owned_def m2_def poke_def)
  qed
  ultimately show ?thesis by blast
qed

end

context owned_region
begin

lemma array_region:
  "owned_region (array_of N Z) (\<lambda>a m. slice_good Z good own a N m) (\<lambda>a m. slice_own Z own a N m)"
proof
  fix a m m'
  assume "slice_good Z good own a N m"
    and "agree m m' (footprint (array_of N Z) (\<lambda>a m. slice_own Z own a N m) a m)"
  then show "slice_good Z good own a N m' \<and> slice_own Z own a N m' = slice_own Z own a N m"
    using slice_local [of a N m m'] by (simp add: footprint_def array_of_def)
qed

lemma vec_region: "owned_region (vec_of L Z) (vec_good L Z good own) (vec_own L Z own)"
proof
  fix a m m'
  assume good: "vec_good L Z good own a m"
    and agree: "agree m m' (footprint (vec_of L Z) (vec_own L Z own) a m)"
  define v where "v = load_vec L a m"
  note v = load_vec_agree [OF agree]
  have g: "slice_good Z good own (vec_ptr v) (vec_len v) m" and le: "vec_len v \<le> vec_cap v"
    using good by (simp_all add: vec_good_def v_def Let_def)
  have ag: "agree m m' ({vec_ptr v..<vec_ptr v + vec_len v * size_of Z} \<union> slice_own Z own (vec_ptr v) (vec_len v) m)"
    using elements_within [OF le, of "vec_ptr v" "size_of Z"]
    by (intro agree_mono [OF agree]) (unfold footprint_def vec_own_def v_def [symmetric] Let_def, blast)
  note s = slice_local [OF g ag]
  have own: "vec_own L Z own a m' = vec_own L Z own a m"
    unfolding vec_own_def Let_def v v_def [symmetric] s(2) ..
  then show "vec_good L Z good own a m' \<and> vec_own L Z own a m' = vec_own L Z own a m"
    using good s(1) unfolding vec_good_def Let_def v v_def [symmetric] by simp
qed

end

context zeroize_law
begin

text \<open>Arrays of a lawful type are lawful.\<close>

lemma array_of_law:
  "zeroize_law (array_of N Z) (\<lambda>a m. slice_good Z good own a N m) (\<lambda>a m. slice_own Z own a N m)"
proof (intro zeroize_law.intro zeroize_law_axioms.intro)
  show "owned_region (array_of N Z) (\<lambda>a m. slice_good Z good own a N m) (\<lambda>a m. slice_own Z own a N m)"
    by (rule array_region)
  fix a m
  assume "slice_good Z good own a N m"
  from iter_clears [OF this] show "\<exists>m'. zeroize (array_of N Z) a m = Return m' \<and>
      cleared (array_of N Z) (\<lambda>a m. slice_own Z own a N m) a m m' \<and>
      (\<forall>m''. agree m' m'' {a..<a + size_of (array_of N Z)} \<longrightarrow> drop_in_place (array_of N Z) a m'' = Return m'')"
    by (simp add: array_of_def cleared_def footprint_def)
qed

lemma zeroizing_drop:
  assumes "good a m"
  shows "\<exists>m'. drop_in_place (zeroizing Z) a m = Return m' \<and> cleared Z own a m m'"
  using clears [OF assms] by (auto simp: zeroizing_def agree_def)

end

locale vec_law = zeroize_law +
  fixes L :: vec_layout
  assumes layout: "layout_ok L"

sublocale vec_law \<subseteq> vec: zeroize_law "vec_of L Z" "vec_good L Z good own" "vec_own L Z own"
proof (intro zeroize_law.intro zeroize_law_axioms.intro)
  show "owned_region (vec_of L Z) (vec_good L Z good own) (vec_own L Z own)" by (rule vec_region)
next
  fix a m
  assume good: "vec_good L Z good own a m"
  define v where "v = load_vec L a m"
  have v: "vec_fits v" "slice_good Z good own (vec_ptr v) (vec_len v) m" "vec_len v \<le> vec_cap v"
    "vec_cap v * size_of Z \<le> isize_MAX"
    and apart: "vec_own L Z own a m \<inter> {a..<a + header_size L} = {}"
    using good by (simp_all add: vec_good_def v_def Let_def)
  have own: "vec_own L Z own a m =
      {vec_ptr v..<vec_ptr v + vec_cap v * size_of Z} \<union> slice_own Z own (vec_ptr v) (vec_len v) m"
    by (simp add: vec_own_def v_def Let_def)
  obtain m1 where m1: "vec_zeroize Z v m = Return (v\<lparr>vec_len := 0\<rparr>, m1)"
      "\<forall>x \<in> vec_own L Z own a m. m1 x = 0" "\<And>x. x \<notin> vec_own L Z own a m \<Longrightarrow> m1 x = m x"
    using vec_zeroize_clears [OF v(2-4)] unfolding own by blast
  define m2 where "m2 = poke m1 a (write_header L (v\<lparr>vec_len := 0\<rparr>))"
  have hs: "length (write_header L w) = header_size L" for w using layout by (simp add: layout_ok_def)
  have out: "m2 x = m1 x" if "x \<notin> {a..<a + header_size L}" for x
    using that poke_outside [of x a "write_header L (v\<lparr>vec_len := 0\<rparr>)" m1] by (simp add: m2_def hs)
  have "zeroize (vec_of L Z) a m = Return m2"
    by (simp add: vec_of_def v_def [symmetric] m1(1) m2_def)
  moreover have "m2 x = 0" if "x \<in> vec_own L Z own a m" for x
    using that m1(2) out apart by fastforce
  then have "cleared (vec_of L Z) (vec_own L Z own) a m m2"
    unfolding cleared_def footprint_def using m1(3) out by (auto simp: vec_of_def)
  moreover have "drop_in_place (vec_of L Z) a m'' = Return m''"
    if "agree m2 m'' {a..<a + size_of (vec_of L Z)}" for m''
  proof -
    have "load_vec L a m'' = load_vec L a m2"
      unfolding load_vec_def using peek_agree that by (simp add: vec_of_def)
    also have "\<dots> = v\<lparr>vec_len := 0\<rparr>"
      unfolding m2_def using layout v(1) by (intro load_vec_write) (auto simp: vec_fits_def)
    finally show ?thesis by (simp add: vec_of_def)
  qed
  ultimately show "\<exists>m'. zeroize (vec_of L Z) a m = Return m' \<and> cleared (vec_of L Z) (vec_own L Z own) a m m' \<and>
      (\<forall>m''. agree m' m'' {a..<a + size_of (vec_of L Z)} \<longrightarrow> drop_in_place (vec_of L Z) a m'' = Return m'')"
    by blast
qed

context vec_law
begin

lemma vec_of_law: "zeroize_law (vec_of L Z) (vec_good L Z good own) (vec_own L Z own)"
  by (rule vec.zeroize_law_axioms)

end

section \<open>Moved values\<close>

text \<open>
  Rust moves a value by copying its bytes.  A type keeps the contract also for values that are moved after they were zeroized if
  dropping the bytes at their new place does nothing more either.
\<close>

locale moved_law = zeroize_law +
  assumes moved: "good a m \<Longrightarrow> zeroize Z a m = Return m' \<Longrightarrow> peek m'' b (size_of Z) = peek m' a (size_of Z) \<Longrightarrow>
    drop_in_place Z b m'' = Return m''"

context vec_law
begin

lemma vec_moved: "moved_law (vec_of L Z) (vec_good L Z good own) (vec_own L Z own)"
proof (intro moved_law.intro moved_law_axioms.intro vec_of_law)
  fix a m m' m'' b
  assume good: "vec_good L Z good own a m" and zeroized: "zeroize (vec_of L Z) a m = Return m'"
    and bytes: "peek m'' b (size_of (vec_of L Z)) = peek m' a (size_of (vec_of L Z))"
  define v where "v = load_vec L a m"
  have v: "vec_fits v" "slice_good Z good own (vec_ptr v) (vec_len v) m" "vec_len v \<le> vec_cap v"
    "vec_cap v * size_of Z \<le> isize_MAX"
    using good by (simp_all add: vec_good_def v_def Let_def)
  obtain m1 where "vec_zeroize Z v m = Return (v\<lparr>vec_len := 0\<rparr>, m1)" using vec_zeroize_clears [OF v(2-4)] by blast
  then have "m' = poke m1 a (write_header L (v\<lparr>vec_len := 0\<rparr>))" using zeroized by (simp add: vec_of_def v_def [symmetric])
  then have "load_vec L a m' = v\<lparr>vec_len := 0\<rparr>"
    using layout v(1) by (simp add: load_vec_write vec_fits_def)
  moreover have "load_vec L b m'' = load_vec L a m'" using bytes by (simp add: load_vec_def vec_of_def)
  ultimately show "drop_in_place (vec_of L Z) b m'' = Return m''" by (simp add: vec_of_def)
qed

end

section \<open>Operations on disjoint regions\<close>

text \<open>
  A loop whose steps work on disjoint regions of memory: each step, from memories that satisfy what it needs of
  its region, returns, establishes something of its region and changes nothing outside; then
  so does the whole loop.
\<close>

lemma for_each_disjoint:
  assumes step: "\<And>i m. i \<in> set is \<Longrightarrow> P i m \<Longrightarrow> \<exists>m'. op i m = Return m' \<and> Q i m' \<and> (\<forall>x. x \<notin> R i \<longrightarrow> m' x = m x)"
    and P_local: "\<And>i m m'. i \<in> set is \<Longrightarrow> P i m \<Longrightarrow> agree m m' (R i) \<Longrightarrow> P i m'"
    and Q_local: "\<And>i m m'. i \<in> set is \<Longrightarrow> Q i m \<Longrightarrow> agree m m' (R i) \<Longrightarrow> Q i m'"
    and "sorted_wrt (\<lambda>i j. R i \<inter> R j = {}) is" and "\<forall>i \<in> set is. P i m"
  shows "\<exists>m'. for_each op is m = Return m' \<and> (\<forall>i \<in> set is. Q i m') \<and> (\<forall>x. x \<notin> (\<Union>i \<in> set is. R i) \<longrightarrow> m' x = m x)"
  using assms
proof (induction "is" arbitrary: m)
  case (Cons i "is")
  obtain m1 where m1: "op i m = Return m1" "Q i m1" "\<forall>x. x \<notin> R i \<longrightarrow> m1 x = m x"
    using Cons.prems(1) [of i m] Cons.prems(5) by auto
  have apart: "R i \<inter> R j = {}" if "j \<in> set is" for j using Cons.prems(4) that by simp
  have "agree m m1 (R j)" if "j \<in> set is" for j
    using m1(3) apart [OF that] by (auto simp: agree_def)
  then have "\<forall>j \<in> set is. P j m1" using Cons.prems(2) [of _ m m1] Cons.prems(5) by simp
  have "\<exists>m'. for_each op is m1 = Return m' \<and> (\<forall>j \<in> set is. Q j m') \<and> (\<forall>x. x \<notin> (\<Union>j \<in> set is. R j) \<longrightarrow> m' x = m1 x)"
  proof (rule Cons.IH)
    show "\<exists>m'. op j m = Return m' \<and> Q j m' \<and> (\<forall>x. x \<notin> R j \<longrightarrow> m' x = m x)" if "j \<in> set is" "P j m" for j m
      by (rule Cons.prems(1)) (use that in simp_all)
    show "P j m'" if "j \<in> set is" "P j m" "agree m m' (R j)" for j m m'
      using Cons.prems(2) that by (meson list.set_intros(2))
    show "Q j m'" if "j \<in> set is" "Q j m" "agree m m' (R j)" for j m m'
      using Cons.prems(3) that by (meson list.set_intros(2))
  qed (use Cons.prems(4) \<open>\<forall>j \<in> set is. P j m1\<close> in simp_all)
  then obtain m' where m': "for_each op is m1 = Return m'" "\<forall>j \<in> set is. Q j m'"
      "\<forall>x. x \<notin> (\<Union>j \<in> set is. R j) \<longrightarrow> m' x = m1 x" by blast
  have "agree m1 m' (R i)" using m'(3) apart by (auto simp: agree_def)
  then have "Q i m'" using Cons.prems(3) [of i m1 m'] m1(2) by simp
  with m1 m' show ?case by simp
qed simp

section \<open>Sequences of fields\<close>

text \<open>
  A field is an offset, a type, and the good values and owned bytes of that type.  The fields of a value are good if each is,
  and no two of them share a byte.
\<close>

record lawful_field =
  lf_offset :: nat
  lf_type :: ty
  lf_good :: "nat \<Rightarrow> mem \<Rightarrow> bool"
  lf_own :: "nat \<Rightarrow> mem \<Rightarrow> nat set"

definition lawful :: "lawful_field \<Rightarrow> bool" where
  "lawful f \<longleftrightarrow> zeroize_law (lf_type f) (lf_good f) (lf_own f)"

definition field_is_local :: "lawful_field \<Rightarrow> bool" where
  "field_is_local f \<longleftrightarrow> (\<forall>a m m'. lf_good f a m \<longrightarrow> agree m m' (footprint (lf_type f) (lf_own f) a m) \<longrightarrow>
     lf_good f a m' \<and> lf_own f a m' = lf_own f a m)"

lemma field_is_local_iff: "field_is_local f \<longleftrightarrow> owned_region (lf_type f) (lf_good f) (lf_own f)"
  by (auto simp: field_is_local_def owned_region_def)

lemma lawful_local: "lawful f \<Longrightarrow> field_is_local f"
  unfolding lawful_def field_is_local_iff by (rule zeroize_law.axioms(1))

definition field_footprint :: "nat \<Rightarrow> mem \<Rightarrow> lawful_field \<Rightarrow> nat set" where
  "field_footprint a m f = footprint (lf_type f) (lf_own f) (a + lf_offset f) m"

definition field_bytes :: "nat \<Rightarrow> lawful_field \<Rightarrow> nat set" where
  "field_bytes a f = {a + lf_offset f..<a + lf_offset f + size_of (lf_type f)}"

definition fields_own :: "lawful_field list \<Rightarrow> nat \<Rightarrow> mem \<Rightarrow> nat set" where
  "fields_own fs a m = (\<Union>f \<in> set fs. lf_own f (a + lf_offset f) m)"

definition fields_good :: "lawful_field list \<Rightarrow> nat \<Rightarrow> mem \<Rightarrow> bool" where
  "fields_good fs a m \<longleftrightarrow>
     (\<forall>f \<in> set fs. lf_good f (a + lf_offset f) m) \<and>
     sorted_wrt (\<lambda>f g. field_footprint a m f \<inter> field_footprint a m g = {}) fs"

definition typed :: "lawful_field \<Rightarrow> nat \<times> ty" where
  "typed f = (lf_offset f, lf_type f)"

lemma field_footprint_eq: "field_footprint a m f = field_bytes a f \<union> lf_own f (a + lf_offset f) m"
  by (simp add: field_footprint_def footprint_def field_bytes_def)

lemma field_local:
  assumes "field_is_local f" "lf_good f (a + lf_offset f) m" "agree m m' (field_footprint a m f)"
  shows "lf_good f (a + lf_offset f) m'" "lf_own f (a + lf_offset f) m' = lf_own f (a + lf_offset f) m"
    "field_footprint a m' f = field_footprint a m f"
proof -
  from assms show "lf_good f (a + lf_offset f) m'" and own: "lf_own f (a + lf_offset f) m' = lf_own f (a + lf_offset f) m"
    unfolding field_is_local_def field_footprint_def by blast+
  then show "field_footprint a m' f = field_footprint a m f" by (simp add: field_footprint_def footprint_def)
qed

lemma fields_local:
  assumes "\<forall>f \<in> set fs. field_is_local f" "fields_good fs a m" "\<forall>f \<in> set fs. agree m m' (field_footprint a m f)"
  shows "fields_good fs a m'" "fields_own fs a m' = fields_own fs a m"
proof -
  have one: "lf_good f (a + lf_offset f) m'" "lf_own f (a + lf_offset f) m' = lf_own f (a + lf_offset f) m"
      "field_footprint a m' f = field_footprint a m f" if "f \<in> set fs" for f
    using field_local [of f a m m'] assms that by (auto simp: fields_good_def)
  show "fields_own fs a m' = fields_own fs a m" using one(2) by (simp add: fields_own_def)
  have "sorted_wrt (\<lambda>f g. field_footprint a m' f \<inter> field_footprint a m' g = {}) fs"
    by (rule sorted_wrt_mono_rel [of _ "\<lambda>f g. field_footprint a m f \<inter> field_footprint a m g = {}"])
       (use assms(2) one(3) in \<open>simp_all add: fields_good_def\<close>)
  then show "fields_good fs a m'" using one(1) by (simp add: fields_good_def)
qed

lemma tuple_fields_for_each: "tuple_fields f (map typed fs) a m = for_each (\<lambda>g. f (lf_type g) (a + lf_offset g)) fs m"
  by (induction fs arbitrary: m) (simp_all add: typed_def cong: and_then_cong)

lemma for_each_noop: "(\<And>x. x \<in> set xs \<Longrightarrow> f x s = Return s) \<Longrightarrow> for_each f xs s = Return s"
  by (induction xs) auto

text \<open>What zeroizing one field achieves: what the field owned at first is zero, and its drop does nothing more.\<close>

definition field_done :: "nat \<Rightarrow> mem \<Rightarrow> lawful_field \<Rightarrow> mem \<Rightarrow> bool" where
  "field_done a m f m' \<longleftrightarrow> (\<forall>x \<in> lf_own f (a + lf_offset f) m. m' x = 0) \<and>
     (\<forall>m''. agree m' m'' (field_bytes a f) \<longrightarrow> drop_in_place (lf_type f) (a + lf_offset f) m'' = Return m'')"

definition field_intact :: "nat \<Rightarrow> mem \<Rightarrow> lawful_field \<Rightarrow> mem \<Rightarrow> bool" where
  "field_intact a m f m' \<longleftrightarrow> lf_good f (a + lf_offset f) m' \<and> lf_own f (a + lf_offset f) m' = lf_own f (a + lf_offset f) m"

lemma field_zeroize:
  assumes "lawful f" "field_intact a m0 f m"
  shows "\<exists>m'. zeroize (lf_type f) (a + lf_offset f) m = Return m' \<and> field_done a m0 f m' \<and>
    (\<forall>x. x \<notin> field_footprint a m0 f \<longrightarrow> m' x = m x)"
  using zeroize_law.clears [of "lf_type f" "lf_good f" "lf_own f" "a + lf_offset f" m] assms
  unfolding lawful_def field_intact_def field_done_def field_footprint_def field_bytes_def cleared_def footprint_def
  by simp blast

lemma field_done_local:
  "field_done a m0 f m \<Longrightarrow> agree m m' (field_footprint a m0 f) \<Longrightarrow> field_done a m0 f m'"
  unfolding field_done_def field_footprint_eq agree_def by (metis UnI1 UnI2)

lemma field_intact_local:
  assumes "field_is_local f" "field_intact a m0 f m" "agree m m' (field_footprint a m0 f)"
  shows "field_intact a m0 f m'"
  using field_local [of f a m m'] assms by (simp add: field_intact_def field_footprint_eq)

lemma fields_clear:
  assumes "\<forall>f \<in> set fs. lawful f" "fields_good fs a m"
  shows "\<exists>m'. tuple_fields zeroize (map typed fs) a m = Return m' \<and>
    (\<forall>x \<in> fields_own fs a m. m' x = 0) \<and>
    (\<forall>x. x \<notin> (\<Union>f \<in> set fs. field_footprint a m f) \<longrightarrow> m' x = m x) \<and>
    (\<forall>m''. agree m' m'' (\<Union>f \<in> set fs. field_bytes a f) \<longrightarrow>
       tuple_fields drop_in_place (map typed fs) a m'' = Return m'')"
proof -
  have "\<exists>m'. for_each (\<lambda>g. zeroize (lf_type g) (a + lf_offset g)) fs m = Return m' \<and>
      (\<forall>f \<in> set fs. field_done a m f m') \<and> (\<forall>x. x \<notin> (\<Union>f \<in> set fs. field_footprint a m f) \<longrightarrow> m' x = m x)"
  proof (rule for_each_disjoint [where P = "field_intact a m" and R = "field_footprint a m"])
    show "sorted_wrt (\<lambda>f g. field_footprint a m f \<inter> field_footprint a m g = {}) fs" "\<forall>f \<in> set fs. field_intact a m f m"
      using assms(2) by (simp_all add: fields_good_def field_intact_def)
  qed (use assms(1) in \<open>blast intro: field_zeroize field_intact_local field_done_local lawful_local\<close>)+
  then obtain m' where m': "for_each (\<lambda>g. zeroize (lf_type g) (a + lf_offset g)) fs m = Return m'"
      "\<forall>f \<in> set fs. field_done a m f m'" "\<forall>x. x \<notin> (\<Union>f \<in> set fs. field_footprint a m f) \<longrightarrow> m' x = m x" by blast
  have "for_each (\<lambda>g. drop_in_place (lf_type g) (a + lf_offset g)) fs m'' = Return m''"
    if "agree m' m'' (\<Union>f \<in> set fs. field_bytes a f)" for m''
    by (rule for_each_noop) (use m'(2) that in \<open>auto simp: field_done_def agree_def\<close>)
  moreover have "\<forall>x \<in> fields_own fs a m. m' x = 0"
    using m'(2) by (auto simp: fields_own_def field_done_def)
  ultimately show ?thesis using m'(1,3) by (auto simp: tuple_fields_for_each)
qed

text \<open>Tuples, and structures with their layout, are lawful.\<close>

definition fields_within :: "nat \<Rightarrow> lawful_field list \<Rightarrow> bool" where
  "fields_within sz fs \<longleftrightarrow> (\<forall>f \<in> set fs. lf_offset f + size_of (lf_type f) \<le> sz)"

lemma field_footprint_within:
  assumes "fields_within sz fs" "f \<in> set fs"
  shows "field_footprint a m f \<subseteq> {a..<a + sz} \<union> fields_own fs a m"
  using assms by (fastforce simp: fields_within_def field_footprint_eq field_bytes_def fields_own_def)

lemma tuple_region:
  assumes "\<forall>f \<in> set fs. field_is_local f" "fields_within sz fs"
  shows "owned_region (tuple sz (map typed fs)) (fields_good fs) (fields_own fs)"
proof
  fix a m m'
  assume good: "fields_good fs a m"
    and agree: "agree m m' (footprint (tuple sz (map typed fs)) (fields_own fs) a m)"
  have "agree m m' (field_footprint a m f)" if "f \<in> set fs" for f
    using agree_mono [OF agree] field_footprint_within [OF assms(2) that] by (simp add: footprint_def tuple_def)
  then show "fields_good fs a m' \<and> fields_own fs a m' = fields_own fs a m"
    using fields_local [OF assms(1) good] by blast
qed

lemma tuple_law:
  assumes "\<forall>f \<in> set fs. lawful f" "fields_within sz fs"
  shows "zeroize_law (tuple sz (map typed fs)) (fields_good fs) (fields_own fs)"
proof (intro zeroize_law.intro zeroize_law_axioms.intro)
  show "owned_region (tuple sz (map typed fs)) (fields_good fs) (fields_own fs)"
    using tuple_region assms lawful_local by blast
  note within = field_footprint_within [OF assms(2)]
  have bytes: "field_bytes a f \<subseteq> {a..<a + sz}" if "f \<in> set fs" for a f
    using assms(2) that by (fastforce simp: fields_within_def field_bytes_def)
  fix a m
  assume good: "fields_good fs a m"
  from fields_clear [OF assms(1) good] obtain m' where m': "tuple_fields zeroize (map typed fs) a m = Return m'"
      "\<forall>x \<in> fields_own fs a m. m' x = 0" "\<forall>x. x \<notin> (\<Union>f \<in> set fs. field_footprint a m f) \<longrightarrow> m' x = m x"
    and drop: "\<forall>m''. agree m' m'' (\<Union>f \<in> set fs. field_bytes a f) \<longrightarrow> tuple_fields drop_in_place (map typed fs) a m'' = Return m''"
    by blast
  have "(\<Union>f \<in> set fs. field_footprint a m f) \<subseteq> {a..<a + sz} \<union> fields_own fs a m" using within by blast
  with m'(3) have "\<forall>x. x \<notin> {a..<a + sz} \<union> fields_own fs a m \<longrightarrow> m' x = m x" by blast
  with m'(2) have "cleared (tuple sz (map typed fs)) (fields_own fs) a m m'"
    by (simp add: cleared_def footprint_def tuple_def)
  moreover have "drop_in_place (tuple sz (map typed fs)) a m'' = Return m''"
    if "agree m' m'' {a..<a + size_of (tuple sz (map typed fs))}" for m''
    using drop agree_mono [OF that, of "\<Union>f \<in> set fs. field_bytes a f"] bytes by (auto simp: tuple_def)
  ultimately show "\<exists>m'. zeroize (tuple sz (map typed fs)) a m = Return m' \<and>
      cleared (tuple sz (map typed fs)) (fields_own fs) a m m' \<and>
      (\<forall>m''. agree m' m'' {a..<a + size_of (tuple sz (map typed fs))} \<longrightarrow>
         drop_in_place (tuple sz (map typed fs)) a m'' = Return m'')"
    using m'(1) by (auto simp: tuple_def)
qed

section \<open>The types of the crate keep the contract\<close>

definition owns_nothing :: "nat \<Rightarrow> mem \<Rightarrow> nat set" where
  "owns_nothing a m = {}"

definition always_good :: "nat \<Rightarrow> mem \<Rightarrow> bool" where
  "always_good a m = True"

lemma default_is_zeroes_law: "zeroize_law (default_is_zeroes d) always_good owns_nothing"
  by unfold_locales
    (auto simp: always_good_def owns_nothing_def default_is_zeroes_def volatile_write_def cleared_def
      footprint_def poke_def)

interpretation u8_law: zeroize_law u8_type always_good owns_nothing
  unfolding u8_type_def by (rule default_is_zeroes_law)

interpretation byte_array_law: zeroize_law "array_of N u8_type"
  "\<lambda>a m. slice_good u8_type always_good owns_nothing a N m" "\<lambda>a m. slice_own u8_type owns_nothing a N m" for N
  by (rule u8_law.array_of_law)

text \<open>
  The loop of \<open>volatile_set\<close> over a slice does what zeroizing its elements one by one does, and both
  slice implementations panic exactly on the sizes they check.
\<close>

lemma iter_mut_zeroize_default:
  "iter_mut_zeroize (default_is_zeroes d) a n m = Return (poke m a (concat (replicate n d)))"
proof (induction n arbitrary: a m)
  case (Suc n)
  then show ?case
    using poke_append [of m a d "concat (replicate n d)"]
    by (simp add: default_is_zeroes_def volatile_write_def)
qed simp

lemma slice_zeroize_iter:
  "slice_zeroize d a n m =
     (if n \<le> isize_MAX then iter_mut_zeroize (default_is_zeroes d) a n m else Panic Assert_Failed)"
  by (simp add: slice_zeroize_def iter_mut_zeroize_default volatile_set_eq)

lemma uninit_slice_zeroize_returns_iff: "returns (uninit_slice_zeroize sz a n m) \<longleftrightarrow> n * sz \<le> isize_MAX"
  by (auto simp: uninit_slice_zeroize_def checked_mul_def usize_MAX_def isize_MAX_def rust_assert_def)

text \<open>Values without owned memory lie side by side.\<close>

lemma slice_good_flat: "slice_good Z always_good owns_nothing a n m"
proof -
  have "{a + i * s..<a + i * s + s} \<inter> {a + j * s..<a + j * s + s} = {}" if "j < i" for i j s :: nat
    using mult_le_mono1 [of "Suc j" i s] that by auto
  then show ?thesis
    by (simp add: slice_good_def always_good_def footprint_def owns_nothing_def)
qed

lemma slice_own_flat [simp]: "slice_own Z owns_nothing a n m = {}"
  by (simp add: slice_own_def owns_nothing_def)

text \<open>One layout of the header: capacity, pointer and length, little-endian.\<close>

definition usize_layout :: vec_layout where
  "usize_layout =
     \<lparr>header_size = 24,
      read_header = (\<lambda>bs. \<lparr>vec_ptr = unat (from_be_bytes (rev (take 8 (drop 8 bs))) :: u64),
        vec_cap = unat (from_be_bytes (rev (take 8 bs)) :: u64),
        vec_len = unat (from_be_bytes (rev (take 8 (drop 16 bs))) :: u64)\<rparr>),
      write_header = (\<lambda>v. to_le_bytes (of_nat (vec_cap v) :: u64) @ to_le_bytes (of_nat (vec_ptr v) :: u64) @
        to_le_bytes (of_nat (vec_len v) :: u64))\<rparr>"

lemma from_le_to_le: "from_be_bytes (rev (to_le_bytes w)) = (w :: u64)"
  using from_be_bytes_to_be_bytes [where w = w] by (simp add: to_be_bytes_def)

lemma unat_u64_of_nat: "n \<le> usize_MAX \<Longrightarrow> unat (of_nat n :: u64) = n"
  by (simp add: unat_of_nat usize_MAX_def)

lemma usize_layout_ok: "layout_ok usize_layout"
  by (auto simp: layout_ok_def usize_layout_def vec_fits_def from_le_to_le unat_u64_of_nat)

interpretation string_law: vec_law u8_type always_good owns_nothing usize_layout
  by unfold_locales (rule usize_layout_ok)

interpretation vec_string_law: vec_law "string_type usize_layout"
  "vec_good usize_layout u8_type always_good owns_nothing" "vec_own usize_layout u8_type owns_nothing" usize_layout
  unfolding string_type_def
  by (intro vec_law.intro vec_law_axioms.intro usize_layout_ok string_law.vec.zeroize_law_axioms)

lemma string_type_law:
  "layout_ok L \<Longrightarrow>
   zeroize_law (string_type L) (vec_good L u8_type always_good owns_nothing) (vec_own L u8_type owns_nothing)"
  unfolding string_type_def
  by (rule vec_law.vec_of_law) (simp add: vec_law_def vec_law_axioms_def u8_law.zeroize_law_axioms)

text \<open>Vectors of values without owned memory: the exact result.\<close>

lemma vec_zeroize_flat:
  assumes "zeroize_law Z always_good owns_nothing"
    and "vec_len v \<le> vec_cap v" "vec_cap v * size_of Z \<le> isize_MAX"
  shows "vec_zeroize Z v m =
    Return (v\<lparr>vec_len := 0\<rparr>, poke m (vec_ptr v) (replicate (vec_cap v * size_of Z) 0))"
proof -
  obtain m' where m': "vec_zeroize Z v m = Return (v\<lparr>vec_len := 0\<rparr>, m')"
      "\<forall>x \<in> {vec_ptr v..<vec_ptr v + vec_cap v * size_of Z}. m' x = 0"
      "\<forall>x. x \<notin> {vec_ptr v..<vec_ptr v + vec_cap v * size_of Z} \<longrightarrow> m' x = m x"
    using zeroize_law.vec_zeroize_clears [OF assms(1) slice_good_flat assms(2,3), of m]
    unfolding slice_own_flat Un_empty_right by blast
  have "m' = poke m (vec_ptr v) (replicate (vec_cap v * size_of Z) 0)"
  proof
    fix x
    show "m' x = poke m (vec_ptr v) (replicate (vec_cap v * size_of Z) 0) x"
      using m'(2,3) poke_zeros [of x "vec_ptr v" "vec_cap v * size_of Z" m]
        poke_outside [of x "vec_ptr v" "replicate (vec_cap v * size_of Z) 0" m]
      by (cases "x \<in> {vec_ptr v..<vec_ptr v + vec_cap v * size_of Z}") auto
  qed
  with m'(1) show ?thesis by simp
qed

text \<open>
  \<open>CString::zeroize\<close>: the buffer is cleared completely before it is handed back, and the result is the empty string, if the
  reallocation that shrinks the buffer keeps its first byte.
\<close>

lemma cstring_new_empty:
  assumes "0 < cap" "peek (snd (realloc p cap 1 (poke m p [0]))) (fst (realloc p cap 1 (poke m p [0]))) 1 = [0]"
  shows "\<exists>c m'. cstring_new realloc \<lparr>vec_ptr = p, vec_cap = cap, vec_len = 0\<rparr> m = (Ok c, m') \<and>
    cs_len c = 1 \<and> peek m' (cs_ptr c) 1 = [0]"
proof (cases "cap = 1")
  case True
  then show ?thesis
    using peek_poke [of m p "[0]"] by (simp add: cstring_new_def peek_def [of _ _ 0] resize_vec_def)
next
  case False
  then have "max cap 1 = cap" using assms(1) by simp
  with False assms(2) show ?thesis
    by (simp add: cstring_new_def peek_def [of _ _ 0] resize_vec_def case_prod_beta Let_def)
qed

lemma cstring_zeroize_empty:
  assumes "0 < cs_len c" "cs_len c \<le> isize_MAX"
    and keeps: "\<And>p n m. 0 < n \<Longrightarrow> peek (snd (realloc p n 1 m)) (fst (realloc p n 1 m)) 1 = peek m p 1"
  shows "\<exists>c' m'. cstring_zeroize alloc realloc c m = Return (c', m') \<and> cs_len c' = 1 \<and> peek m' (cs_ptr c') 1 = [0]"
proof -
  define m0 where "m0 = snd (cstring_default alloc m)"
  define m1 where "m1 = poke m0 (cs_ptr c) (replicate (cs_len c) 0)"
  define v where "v = \<lparr>vec_ptr = cs_ptr c, vec_cap = cs_len c, vec_len = 0\<rparr>"
  have sz: "size_of u8_type = 1" by (simp add: u8_type_def default_is_zeroes_def)
  have "vec_zeroize u8_type (cstring_into_bytes c) m0 = Return (v, m1)"
    using vec_zeroize_flat [OF u8_law.zeroize_law_axioms, of "cstring_into_bytes c" m0] assms(1,2)
    by (simp add: cstring_into_bytes_def sz m1_def v_def)
  then have z: "cstring_zeroize alloc realloc c m =
      (let (zeroed, m) = cstring_new realloc v m1 in and_then (unwrap zeroed) (\<lambda>zeroed. Return (zeroed, m)))"
    by (simp add: cstring_zeroize_def m0_def case_prod_beta Let_def)
  obtain c' m' where "cstring_new realloc v m1 = (Ok c', m')" "cs_len c' = 1" "peek m' (cs_ptr c') 1 = [0]"
    using cstring_new_empty [OF assms(1), of realloc "cs_ptr c" m1] keeps [OF assms(1)]
      peek_poke [of m1 "cs_ptr c" "[0]"] by (auto simp: v_def)
  with z show ?thesis by simp
qed

text \<open>\<open>PanicOnNonZeroDrop\<close> of the crate's tests: an integer whose drop panics unless it is zero.\<close>

definition panic_on_non_zero_drop :: "nat \<Rightarrow> ty" where
  "panic_on_non_zero_drop n =
     (default_is_zeroes (replicate n 0))\<lparr>drop_in_place := (\<lambda>self m.
        if peek m self n \<noteq> replicate n 0 then Panic (Message ''dropped non-zeroized data'') else Return m)\<rparr>"

interpretation strict_law: zeroize_law "panic_on_non_zero_drop n" always_good owns_nothing for n
proof unfold_locales
  fix a m
  let ?Z = "panic_on_non_zero_drop n" and ?m = "poke m a (replicate n 0)"
  have "drop_in_place ?Z a m'' = Return m''" if "agree ?m m'' {a..<a + size_of ?Z}" for m''
    using peek_agree [of ?m m'' a n] peek_poke [of m a "replicate n 0"] that
    by (simp add: panic_on_non_zero_drop_def default_is_zeroes_def)
  moreover have "zeroize ?Z a m = Return ?m" "cleared ?Z owns_nothing a m ?m"
    by (simp_all add: panic_on_non_zero_drop_def default_is_zeroes_def volatile_write_def cleared_def
      owns_nothing_def footprint_def poke_def)
  ultimately show "\<exists>m'. zeroize ?Z a m = Return m' \<and> cleared ?Z owns_nothing a m m' \<and>
      (\<forall>m''. agree m' m'' {a..<a + size_of ?Z} \<longrightarrow> drop_in_place ?Z a m'' = Return m'')" by blast
qed (simp add: always_good_def owns_nothing_def)

section \<open>Properties\<close>

text \<open>
  (C7) Nested secrets are erased.  On a well-formed \<open>Vec<String>\<close>, for any layout of vectors,
  \<open>zeroize\<close> returns; the whole capacity of the outer buffer and of every string's buffer is zero
  afterwards, and no byte is written outside of the header and these buffers.
\<close>

theorem nested_vec_zeroized:
  assumes "layout_ok L"
    and "vec_good L (string_type L) (vec_good L u8_type always_good owns_nothing)
           (vec_own L u8_type owns_nothing) a m"
  defines "owned \<equiv> vec_own L (string_type L) (vec_own L u8_type owns_nothing) a m"
  shows "\<exists>m'. zeroize (vec_of L (string_type L)) a m = Return m' \<and> (\<forall>x \<in> owned. m' x = 0) \<and>
           (\<forall>x. x \<notin> {a..<a + header_size L} \<union> owned \<longrightarrow> m' x = m x)"
proof -
  have "zeroize_law (vec_of L (string_type L))
      (vec_good L (string_type L) (vec_good L u8_type always_good owns_nothing) (vec_own L u8_type owns_nothing))
      (vec_own L (string_type L) (vec_own L u8_type owns_nothing))"
    by (rule vec_law.vec_of_law) (simp add: vec_law_def vec_law_axioms_def string_type_law assms(1))
  from zeroize_law.clears [OF this assms(2)] show ?thesis
    unfolding cleared_def footprint_def owned_def by (auto simp: vec_of_def)
qed

theorem nested_vec_zeroized_witness:
  "let m = poke (poke (poke (\<lambda>_. 1) 0 (write_header usize_layout \<lparr>vec_ptr = 100, vec_cap = 2, vec_len = 1\<rparr>))
             100 (write_header usize_layout \<lparr>vec_ptr = 200, vec_cap = 3, vec_len = 2\<rparr>)) 200 [7, 8, 9] in
   \<exists>m'. zeroize (vec_of usize_layout (string_type usize_layout)) 0 m = Return m' \<and>
     m' 200 = 0 \<and> m' 202 = 0 \<and> m' 147 = 0 \<and> m' 203 = 1"
proof -
  let ?L = usize_layout
  define v w where "v = \<lparr>vec_ptr = 100, vec_cap = 2, vec_len = 1\<rparr>" and "w = \<lparr>vec_ptr = 200, vec_cap = 3, vec_len = 2\<rparr>"
  define m where "m = poke (poke (poke (\<lambda>_. 1) 0 (write_header ?L v)) 100 (write_header ?L w)) 200 [7, 8, 9]"
  have hs: "header_size ?L = 24" "length (write_header ?L u) = 24" for u
    by (simp_all add: usize_layout_def)
  have fits: "vec_fits v" "vec_fits w" by (simp_all add: vec_fits_def v_def w_def usize_MAX_def)
  have v: "load_vec ?L 0 m = v"
    using load_vec_write [OF usize_layout_ok fits(1), of 0 "\<lambda>_. 1"]
    by (simp add: load_vec_def m_def hs)
  have w: "load_vec ?L 100 m = w"
    using load_vec_write [OF usize_layout_ok fits(2), of 100 "poke (\<lambda>_. 1) 0 (write_header ?L v)"]
    by (simp add: load_vec_def m_def hs)
  have sz: "size_of (string_type ?L) = 24" "size_of u8_type = 1"
    by (simp_all add: string_type_def vec_of_def hs u8_type_def default_is_zeroes_def)
  have own: "vec_own ?L u8_type owns_nothing 100 m = {200..<203}"
    by (simp add: vec_own_def w sz w_def)
  have good: "vec_good ?L u8_type always_good owns_nothing 100 m"
    unfolding vec_good_def Let_def own w using fits(2) by (simp add: w_def sz hs isize_MAX_def slice_good_flat)
  have owned: "vec_own ?L (string_type ?L) (vec_own ?L u8_type owns_nothing) 0 m = {100..<148} \<union> {200..<203}"
    by (simp add: vec_own_def [of _ "string_type ?L"] v sz v_def slice_own_def own lessThan_Suc)
  have "vec_good ?L (string_type ?L) (vec_good ?L u8_type always_good owns_nothing) (vec_own ?L u8_type owns_nothing) 0 m"
    unfolding vec_good_def [of _ "string_type ?L"] Let_def owned v using fits(1) good
    by (auto simp: v_def sz hs isize_MAX_def slice_good_def)
  from nested_vec_zeroized [OF usize_layout_ok this] obtain m' where
    "zeroize (vec_of ?L (string_type ?L)) 0 m = Return m'" "\<forall>x \<in> {100..<148} \<union> {200..<203}. m' x = 0"
    "\<forall>x. x \<notin> {0..<0 + 24} \<union> ({100..<148} \<union> {200..<203}) \<longrightarrow> m' x = m x"
    unfolding owned hs by blast
  moreover have "m 203 = 1" by (simp add: m_def poke_def hs)
  ultimately show ?thesis unfolding Let_def v_def [symmetric] w_def [symmetric] m_def [symmetric] by auto
qed

text \<open>
  \<open>Vec::zeroize\<close> clears elements before it drops them, then clears the spare capacity.  With elements
  whose drop panics on non-zero bytes it still returns, sets the length to zero,
  keeps pointer and capacity, and changes the memory in exactly one way: the whole capacity is zero.
\<close>

theorem vec_zeroizes_before_drop:
  assumes "vec_len v \<le> vec_cap v" and "vec_cap v * n \<le> isize_MAX"
  shows "vec_zeroize (panic_on_non_zero_drop n) v m =
    Return (v\<lparr>vec_len := 0\<rparr>, poke m (vec_ptr v) (replicate (vec_cap v * n) 0))"
proof -
  have "size_of (panic_on_non_zero_drop n) = n"
    by (simp add: panic_on_non_zero_drop_def default_is_zeroes_def)
  then show ?thesis
    using vec_zeroize_flat [OF strict_law.zeroize_law_axioms [of n] assms(1), of m] assms(2) by simp
qed

theorem vec_zeroizes_before_drop_witness:
  "vec_zeroize (panic_on_non_zero_drop 8) \<lparr>vec_ptr = 64, vec_cap = 2, vec_len = 1\<rparr> (\<lambda>_. 42) =
   Return (\<lparr>vec_ptr = 64, vec_cap = 2, vec_len = 0\<rparr>, poke (\<lambda>_. 42) 64 (replicate 16 0))"
  using vec_zeroizes_before_drop [of "\<lparr>vec_ptr = 64, vec_cap = 2, vec_len = 1\<rparr>" 8 "\<lambda>_. 42"]
  by (simp add: isize_MAX_def)

text \<open>
  (C34) \<open>Option::zeroize\<close> erases the option and what its payload owns, whatever the layout of the option and whatever was
  there.  It leaves \<open>None\<close> over zero bytes, also where the value was already \<open>None\<close>, and so erases the remains of a payload
  that was moved out.  If there is a payload, of a type that keeps the contract of \<open>zeroize\<close> also for values that
  are moved (a primitive type, a \<open>Vec\<close> of a type with that contract, a \<open>String\<close>), everything it owns is zero, and the
  temporary of \<open>take\<close> holds the bytes of the zeroized payload, not the secret.  Nothing else is written.
\<close>

theorem option_zeroize_erases:
  assumes "\<And>bs. length (write_none L bs) = length bs" and "\<And>bs. \<not> is_some L (write_none L bs)"
    and "payload_offset L + size_of Z \<le> option_size L"
    and "tmp + size_of Z \<le> self \<or> self + option_size L \<le> tmp"
    and "moved_law Z good own"
    and "is_some L (peek m self (option_size L)) \<Longrightarrow> good (self + payload_offset L) m \<and>
      own (self + payload_offset L) m \<inter> ({self..<self + option_size L} \<union> {tmp..<tmp + size_of Z}) = {}"
  shows "\<exists>m'. option_zeroize L Z tmp self m = Return m' \<and>
    peek m' self (option_size L) = write_none L (replicate (option_size L) 0) \<and>
    \<not> is_some L (peek m' self (option_size L)) \<and>
    (if is_some L (peek m self (option_size L)) then
       (\<forall>x \<in> own (self + payload_offset L) m. m' x = 0) \<and>
       (\<exists>mz. zeroize Z (self + payload_offset L) m = Return mz \<and>
          peek m' tmp (size_of Z) = peek mz (self + payload_offset L) (size_of Z)) \<and>
       (\<forall>x. x \<notin> {self..<self + option_size L} \<union> own (self + payload_offset L) m \<union> {tmp..<tmp + size_of Z} \<longrightarrow> m' x = m x)
     else \<forall>x. x \<notin> {self..<self + option_size L} \<longrightarrow> m' x = m x)"
proof -
  let ?n = "option_size L" and ?p = "self + payload_offset L" and ?z = "size_of Z"
  let ?some = "is_some L (peek m self ?n)" and ?none = "write_none L (replicate ?n 0)"
  have len: "length ?none = ?n" by (simp add: assms(1))
  have last: "set_none L self (volatile_set m1 self [0] ?n) = poke m1 self ?none" for m1
    using peek_poke [of m1 self "replicate ?n 0"] by (auto simp: set_none_def volatile_set_bytes poke_def len)
  have none: "\<not> is_some L ?none" "peek (poke m1 self ?none) self ?n = ?none" for m1
    using assms(2) peek_poke [of m1 self ?none] by (simp_all add: len)
  show ?thesis
  proof (cases ?some)
    case False
    then show ?thesis using none poke_outside [of _ self ?none m] by (simp add: option_zeroize_def last len)
  next
    case True
    then have good: "good ?p m" and apart: "own ?p m \<inter> ({self..<self + ?n} \<union> {tmp..<tmp + ?z}) = {}"
      using assms(6) by simp_all
    obtain mz where mz: "zeroize Z ?p m = Return mz" "cleared Z own ?p m mz"
      using zeroize_law.clears [OF moved_law.axioms(1) [OF assms(5)] good] by blast
    define m1 where "m1 = set_none L self (poke mz tmp (peek mz ?p ?z))"
    have tmp: "peek m1 tmp ?z = peek mz ?p ?z"
      using assms(1,4) peek_poke [of mz tmp "peek mz ?p ?z"] by (auto simp: m1_def set_none_def)
    have out: "m1 x = mz x" if "x \<notin> {self..<self + ?n} \<union> {tmp..<tmp + ?z}" for x
      using that by (auto simp: m1_def set_none_def poke_def assms(1))
    have "drop_in_place Z tmp m1 = Return m1" by (rule moved_law.moved [OF assms(5) good mz(1) tmp])
    then have run: "option_zeroize L Z tmp self m = Return (poke m1 self ?none)"
      using True mz(1) by (simp add: option_zeroize_def option_take_def m1_def [symmetric] last)
    have keep: "poke m1 self ?none x = mz x" if "x \<notin> {self..<self + ?n} \<union> {tmp..<tmp + ?z}" for x
      using out [OF that] that poke_outside [of x self ?none m1] by (simp add: len)
    have "poke m1 self ?none x = 0" if "x \<in> own ?p m" for x
    proof -
      have "x \<notin> {self..<self + ?n} \<union> {tmp..<tmp + ?z}" using that apart by blast
      then show ?thesis using keep [of x] that mz(2) by (simp add: cleared_def)
    qed
    moreover have "poke m1 self ?none x = m x" if "x \<notin> {self..<self + ?n} \<union> own ?p m \<union> {tmp..<tmp + ?z}" for x
      using keep [of x] that mz(2) assms(3) by (auto simp: cleared_def footprint_def)
    moreover have "peek (poke m1 self ?none) tmp ?z = peek mz ?p ?z"
      using tmp assms(4) by (auto simp: len)
    ultimately show ?thesis using True run none mz(1) by auto
  qed
qed

text \<open>The payloads that keep the contract when they are moved: plain values, and vectors and strings of lawful elements.\<close>

lemma default_moved: "moved_law (default_is_zeroes d) always_good owns_nothing"
  by (intro moved_law.intro moved_law_axioms.intro default_is_zeroes_law) (simp add: default_is_zeroes_def)

interpretation u8_moved: moved_law u8_type always_good owns_nothing
  unfolding u8_type_def by (rule default_moved)

lemma string_moved:
  "layout_ok L \<Longrightarrow> moved_law (string_type L) (vec_good L u8_type always_good owns_nothing) (vec_own L u8_type owns_nothing)"
  unfolding string_type_def
  by (rule vec_law.vec_moved) (simp add: vec_law_def vec_law_axioms_def u8_law.zeroize_law_axioms)

interpretation string_moved: moved_law "string_type usize_layout" "vec_good usize_layout u8_type always_good owns_nothing"
  "vec_own usize_layout u8_type owns_nothing"
  by (rule string_moved [OF usize_layout_ok])

text \<open>An \<open>Option<String>\<close> with a tag byte.\<close>

definition tagged_layout :: option_layout where
  "tagged_layout = \<lparr>option_size = 32, payload_offset = 8, is_some = (\<lambda>bs. take 1 bs = [1]), write_none = (\<lambda>bs. bs[0 := 0])\<rparr>"

definition some_string :: mem where
  "some_string = poke (poke (\<lambda>_. 9) 0 [1]) 8 (write_header usize_layout \<lparr>vec_ptr = 100, vec_cap = 4, vec_len = 3\<rparr>)"

theorem option_zeroize_erases_witness:
  "\<exists>m'. option_zeroize tagged_layout (string_type usize_layout) 200 0 some_string = Return m' \<and>
     peek m' 0 32 = replicate 32 0 \<and> m' 100 = 0 \<and> m' 103 = 0 \<and> m' 104 = 9"
proof -
  let ?L = tagged_layout and ?Z = "string_type usize_layout" and ?m = some_string
  define v where "v = \<lparr>vec_ptr = 100, vec_cap = 4, vec_len = 3\<rparr>"
  have fits: "vec_fits v" by (simp add: vec_fits_def v_def usize_MAX_def)
  have load: "load_vec usize_layout 8 ?m = v"
    unfolding some_string_def v_def [symmetric] by (rule load_vec_write [OF usize_layout_ok fits])
  have sz: "size_of u8_type = 1" "header_size usize_layout = 24" "size_of ?Z = 24" "option_size ?L = 32" "payload_offset ?L = 8"
    by (simp_all add: u8_type_def default_is_zeroes_def usize_layout_def string_type_def vec_of_def tagged_layout_def)
  have own: "vec_own usize_layout u8_type owns_nothing 8 ?m = {100..<104}" by (simp add: vec_own_def load sz v_def)
  have good: "vec_good usize_layout u8_type always_good owns_nothing 8 ?m"
    unfolding vec_good_def Let_def own load using fits by (simp add: v_def sz isize_MAX_def slice_good_flat)
  have none: "\<not> is_some ?L (write_none ?L bs)" "length (write_none ?L bs) = length bs" for bs
    by (cases bs; simp add: tagged_layout_def)+
  have "?m 0 = 1" "?m 104 = 9" by (simp_all add: some_string_def poke_def usize_layout_def)
  then have some: "is_some ?L (peek ?m 0 (option_size ?L))" by (simp add: tagged_layout_def peek_def upt_rec)
  have apart: "{100..<104} \<inter> ({0..<32} \<union> {200..<224}) = ({} :: nat set)" by auto
  obtain m' where m': "option_zeroize ?L ?Z 200 0 ?m = Return m'" "peek m' 0 (option_size ?L) = write_none ?L (replicate (option_size ?L) 0)"
      "\<forall>x \<in> {100..<104}. m' x = 0" "\<forall>x. x \<notin> {0..<0 + option_size ?L} \<union> {100..<104} \<union> {200..<200 + size_of ?Z} \<longrightarrow> m' x = ?m x"
    using option_zeroize_erases [OF none(2,1), where Z = ?Z and tmp = 200 and self = 0 and m = ?m,
      OF _ _ string_moved.moved_law_axioms] some good own sz apart by auto
  have "(replicate 32 0)[0 := 0] = replicate 32 (0 :: u8)" by (simp add: numeral_eq_Suc)
  then show ?thesis using m' \<open>?m 104 = 9\<close> by (intro exI [of _ m']) (simp add: sz, simp add: tagged_layout_def)
qed

text \<open>
  Dropping a \<open>Zeroizing<String>\<close> erases it: the drop returns, the whole capacity of the buffer is zero
  afterwards, and nothing else than the buffer and the header is written.
\<close>

theorem zeroizing_drop_erases:
  assumes "layout_ok L" and "load_vec L a m = v" and "vec_fits v" and "vec_len v \<le> vec_cap v"
    and "vec_cap v \<le> isize_MAX"
    and "{vec_ptr v..<vec_ptr v + vec_cap v} \<inter> {a..<a + header_size L} = {}"
  shows "\<exists>m'. drop_in_place (zeroizing (string_type L)) a m = Return m' \<and>
    (\<forall>x \<in> {vec_ptr v..<vec_ptr v + vec_cap v}. m' x = 0) \<and>
    (\<forall>x. x \<notin> {a..<a + header_size L} \<union> {vec_ptr v..<vec_ptr v + vec_cap v} \<longrightarrow> m' x = m x)"
proof -
  have sz: "size_of u8_type = 1" by (simp add: u8_type_def default_is_zeroes_def)
  have own: "vec_own L u8_type owns_nothing a m = {vec_ptr v..<vec_ptr v + vec_cap v}"
    by (simp add: vec_own_def assms(2) sz)
  then have "vec_good L u8_type always_good owns_nothing a m"
    using assms by (simp add: vec_good_def sz slice_good_flat)
  from zeroize_law.zeroizing_drop [OF string_type_law [OF assms(1)] this] show ?thesis
    unfolding cleared_def footprint_def own by (simp add: string_type_def vec_of_def)
qed

theorem zeroizing_drop_erases_witness:
  "\<exists>m'. drop_in_place (zeroizing (string_type usize_layout)) 0
      (poke (\<lambda>_. 5) 0 (write_header usize_layout \<lparr>vec_ptr = 40, vec_cap = 9, vec_len = 6\<rparr>)) = Return m' \<and> m' 48 = 0"
proof -
  define v where "v = \<lparr>vec_ptr = 40, vec_cap = 9, vec_len = 6\<rparr>"
  have fits: "vec_fits v" by (simp add: vec_fits_def v_def usize_MAX_def)
  from zeroizing_drop_erases [OF usize_layout_ok load_vec_write [OF usize_layout_ok fits] fits, of 0 "\<lambda>_. 5"]
  show ?thesis unfolding v_def [symmetric]
    by (fastforce simp: v_def isize_MAX_def usize_layout_def)
qed

end
