(* ===== verification/Zeroize_On_Drop.thy ===== *)
theory Zeroize_On_Drop
  imports Zeroize
begin

text \<open>
  The marker trait \<open>ZeroizeOnDrop\<close> of \<^verbatim>\<open>zeroize/src/lib.rs\<close> and the wrapper \<open>Zeroizing\<close>.

  The trait has no method: an \<open>impl\<close> is a promise about \<open>Drop\<close>.  The promise is a locale, the
  implementations of the crate are the rules of an inductive predicate, and that each of them keeps
  its promise is proved by induction over the rules.  What the promise covers is part of the statement:
  for a vector it is the elements below the length and not the spare capacity.
\<close>

section \<open>The contract\<close>

text \<open>
  Dropping a good value returns, clears the bytes that the promise names, and writes nothing outside the value and what
  it owns.
\<close>

locale zeroize_on_drop = owned_region +
  fixes erased :: "nat \<Rightarrow> mem \<Rightarrow> nat set"
  assumes erased_local: "good a m \<Longrightarrow> agree m m' (footprint Z own a m) \<Longrightarrow> erased a m' = erased a m"
    and erased_within: "good a m \<Longrightarrow> erased a m \<subseteq> footprint Z own a m"
    and erases: "good a m \<Longrightarrow> \<exists>m'. drop_in_place Z a m = Return m' \<and> (\<forall>x \<in> erased a m. m' x = 0) \<and>
          (\<forall>x. x \<notin> footprint Z own a m \<longrightarrow> m' x = m x)"

section \<open>The types the crate marks\<close>

definition option_of :: "option_layout \<Rightarrow> nat \<Rightarrow> ty \<Rightarrow> ty" where
  "option_of L tmp Z =
     \<lparr>size_of = option_size L, zeroize = option_zeroize L Z tmp,
      drop_in_place = (\<lambda>self m. if is_some L (peek m self (option_size L))
        then drop_in_place Z (self + payload_offset L) m else Return m)\<rparr>"

text \<open>A boxed slice is a pointer and a length, that is, a vector without spare capacity.\<close>

definition box_of :: "vec_layout \<Rightarrow> ty \<Rightarrow> ty" where
  "box_of L Z =
     \<lparr>size_of = header_size L,
      zeroize = (\<lambda>self m. let v = load_vec L self m in box_slice_zeroize Z (vec_ptr v) (vec_len v) m),
      drop_in_place = (\<lambda>self m. let v = load_vec L self m in drop_slice Z (vec_ptr v) (vec_len v) m)\<rparr>"

text \<open>What each implementation is about: the values it accepts, the memory they own, the bytes that drop erases.\<close>

definition option_good :: "option_layout \<Rightarrow> (nat \<Rightarrow> mem \<Rightarrow> bool) \<Rightarrow> nat \<Rightarrow> mem \<Rightarrow> bool" where
  "option_good L good a m \<longleftrightarrow> (is_some L (peek m a (option_size L)) \<longrightarrow> good (a + payload_offset L) m)"

definition option_bytes :: "option_layout \<Rightarrow> (nat \<Rightarrow> mem \<Rightarrow> nat set) \<Rightarrow> nat \<Rightarrow> mem \<Rightarrow> nat set" where
  "option_bytes L own a m = (if is_some L (peek m a (option_size L)) then own (a + payload_offset L) m else {})"

definition box_good ::
  "vec_layout \<Rightarrow> ty \<Rightarrow> (nat \<Rightarrow> mem \<Rightarrow> bool) \<Rightarrow> (nat \<Rightarrow> mem \<Rightarrow> nat set) \<Rightarrow> nat \<Rightarrow> mem \<Rightarrow> bool" where
  "box_good L Z good own a m \<longleftrightarrow>
     vec_good L Z good own a m \<and> vec_cap (load_vec L a m) = vec_len (load_vec L a m)"

definition vec_erased :: "vec_layout \<Rightarrow> ty \<Rightarrow> (nat \<Rightarrow> mem \<Rightarrow> nat set) \<Rightarrow> nat \<Rightarrow> mem \<Rightarrow> nat set" where
  "vec_erased L Z erased a m = (let v = load_vec L a m in slice_own Z erased (vec_ptr v) (vec_len v) m)"

definition tuple_erased :: "(lawful_field \<times> (nat \<Rightarrow> mem \<Rightarrow> nat set)) list \<Rightarrow> nat \<Rightarrow> mem \<Rightarrow> nat set" where
  "tuple_erased fs a m = (\<Union>(f, erased) \<in> set fs. erased (a + lf_offset f) m)"

inductive ZeroizeOnDrop ::
  "ty \<Rightarrow> (nat \<Rightarrow> mem \<Rightarrow> bool) \<Rightarrow> (nat \<Rightarrow> mem \<Rightarrow> nat set) \<Rightarrow> (nat \<Rightarrow> mem \<Rightarrow> nat set) \<Rightarrow> bool" where
  Zeroizing: "zeroize_law Z good own \<Longrightarrow> ZeroizeOnDrop (zeroizing Z) good own own"
| Unit: "ZeroizeOnDrop zero_sized always_good owns_nothing owns_nothing"
| Array: "ZeroizeOnDrop Z good own erased \<Longrightarrow>
    ZeroizeOnDrop (array_of N Z) (\<lambda>a m. slice_good Z good own a N m) (\<lambda>a m. slice_own Z own a N m)
      (\<lambda>a m. slice_own Z erased a N m)"
| Option: "ZeroizeOnDrop Z good own erased \<Longrightarrow> payload_offset OL + size_of Z \<le> option_size OL \<Longrightarrow>
    ZeroizeOnDrop (option_of OL tmp Z) (option_good OL good) (option_bytes OL own) (option_bytes OL erased)"
| Tuple: "(\<forall>p \<in> set fs. ZeroizeOnDrop (lf_type (fst p)) (lf_good (fst p)) (lf_own (fst p)) (snd p)) \<Longrightarrow>
    fields_within sz (map fst fs) \<Longrightarrow>
    ZeroizeOnDrop (tuple sz (map (typed \<circ> fst) fs)) (fields_good (map fst fs)) (fields_own (map fst fs)) (tuple_erased fs)"
| Vec: "ZeroizeOnDrop Z good own erased \<Longrightarrow>
    ZeroizeOnDrop (vec_of L Z) (vec_good L Z good own) (vec_own L Z own) (vec_erased L Z erased)"
| Box: "ZeroizeOnDrop Z good own erased \<Longrightarrow>
    ZeroizeOnDrop (box_of L Z) (box_good L Z good own) (vec_own L Z own) (vec_erased L Z erased)"

section \<open>Zeroizing\<close>

text \<open>
  A value of type \<open>Zeroizing<Z>\<close> stands where its only field does.  Moving a value copies its bytes; what the wrapper forwards
  to \<open>Z\<close> is an argument: \<open>clone\<close> writes the new value to \<open>dst\<close>, a serializer returns its own result, a
  deserializer writes the value it reads to \<open>dst\<close>.
\<close>

definition move :: "ty \<Rightarrow> nat \<Rightarrow> nat \<Rightarrow> mem \<Rightarrow> mem" where
  "move Z dst src m = poke m dst (peek m src (size_of Z))"

definition zeroizing_new :: "ty \<Rightarrow> nat \<Rightarrow> nat \<Rightarrow> mem \<Rightarrow> mem" where
  "zeroizing_new Z dst src m = move Z dst src m"

definition zeroizing_from :: "ty \<Rightarrow> nat \<Rightarrow> nat \<Rightarrow> mem \<Rightarrow> mem" where
  "zeroizing_from Z dst src m = move Z dst src m"

definition zeroizing_clone :: "(nat \<Rightarrow> nat \<Rightarrow> mem \<Rightarrow> mem outcome) \<Rightarrow> nat \<Rightarrow> nat \<Rightarrow> mem \<Rightarrow> mem outcome" where
  "zeroizing_clone clone dst self m = clone dst self m"

definition zeroizing_deref :: "nat \<Rightarrow> nat" where
  "zeroizing_deref self = self"

definition zeroizing_deref_mut :: "nat \<Rightarrow> nat" where
  "zeroizing_deref_mut self = self"

definition zeroizing_as_ref :: "(nat \<Rightarrow> mem \<Rightarrow> 'r) \<Rightarrow> nat \<Rightarrow> mem \<Rightarrow> 'r" where
  "zeroizing_as_ref as_ref self m = as_ref self m"

definition zeroizing_as_mut :: "(nat \<Rightarrow> mem \<Rightarrow> 'r) \<Rightarrow> nat \<Rightarrow> mem \<Rightarrow> 'r" where
  "zeroizing_as_mut as_mut self m = as_mut self m"

definition zeroizing_serialize :: "(nat \<Rightarrow> mem \<Rightarrow> ('e, 'o) result) \<Rightarrow> nat \<Rightarrow> mem \<Rightarrow> ('e, 'o) result" where
  "zeroizing_serialize serialize self m = serialize self m"

definition zeroizing_deserialize :: "(nat \<Rightarrow> mem \<Rightarrow> ('e, mem) result) \<Rightarrow> nat \<Rightarrow> mem \<Rightarrow> ('e, mem) result" where
  "zeroizing_deserialize deserialize dst m = (case deserialize dst m of Err e \<Rightarrow> Err e | Ok m \<Rightarrow> Ok m)"

section \<open>Every implementation keeps its promise\<close>

lemma zeroizing_size [simp]: "size_of (zeroizing Z) = size_of Z" "footprint (zeroizing Z) own = footprint Z own"
  by (simp_all add: zeroizing_def footprint_def fun_eq_iff)

sublocale zeroize_law \<subseteq> wrapped: zeroize_on_drop "zeroizing Z" good own own
proof unfold_locales
  fix a m
  assume "good a m"
  then show "\<exists>m'. drop_in_place (zeroizing Z) a m = Return m' \<and> (\<forall>x \<in> own a m. m' x = 0) \<and>
      (\<forall>x. x \<notin> footprint (zeroizing Z) own a m \<longrightarrow> m' x = m x)"
    using zeroizing_drop by (auto simp: cleared_def)
qed (auto simp: local, simp add: footprint_def)

context zeroize_law
begin

lemma zeroizing_on_drop: "zeroize_on_drop (zeroizing Z) good own own"
  by (rule wrapped.zeroize_on_drop_axioms)

end

lemma drop_slice_for_each: "drop_slice Z a n m = for_each (\<lambda>i. drop_in_place Z (a + i * size_of Z)) [0..<n] m"
proof (induction n arbitrary: a m)
  case (Suc n)
  have "for_each (\<lambda>i. drop_in_place Z (a + i * size_of Z)) [0..<Suc n] m =
      and_then (drop_in_place Z a m) (for_each (\<lambda>i. drop_in_place Z (a + i * size_of Z)) (map Suc [0..<n]))"
    by (simp add: upt_conv_Cons map_Suc_upt del: upt_Suc)
  moreover have "drop_slice Z (a + size_of Z) n = for_each (\<lambda>i. drop_in_place Z (a + i * size_of Z)) (map Suc [0..<n])"
    by (rule ext) (simp add: Suc.IH for_each_map comp_def add.assoc)
  ultimately show ?case by (simp del: upt_Suc)
qed simp

context zeroize_on_drop
begin

lemma slice_erased_local:
  assumes "slice_good Z good own a n m" "agree m m' ({a..<a + n * size_of Z} \<union> slice_own Z own a n m)"
  shows "slice_own Z erased a n m' = slice_own Z erased a n m"
proof -
  have "erased (a + i * size_of Z) m' = erased (a + i * size_of Z) m" if "i < n" for i
  proof (rule erased_local)
    show "good (a + i * size_of Z) m" using assms(1) that by (simp add: slice_good_def)
    show "agree m m' (footprint Z own (a + i * size_of Z) m)"
      by (rule agree_mono [OF assms(2)]) (use that slice_footprints_eq [of Z own a m n] in blast)
  qed
  then show ?thesis by (simp add: slice_own_def)
qed

lemma slice_erased_within:
  assumes "slice_good Z good own a n m"
  shows "slice_own Z erased a n m \<subseteq> {a..<a + n * size_of Z} \<union> slice_own Z own a n m"
  unfolding slice_footprints_eq [symmetric] slice_own_def [of _ erased]
  using assms erased_within by (fastforce simp: slice_good_def)

lemma drop_slice_erases:
  assumes good: "slice_good Z good own a n m"
  shows "\<exists>m'. drop_slice Z a n m = Return m' \<and> (\<forall>x \<in> slice_own Z erased a n m. m' x = 0) \<and>
    (\<forall>x. x \<notin> {a..<a + n * size_of Z} \<union> slice_own Z own a n m \<longrightarrow> m' x = m x)"
proof -
  let ?at = "\<lambda>i. a + i * size_of Z"
  let ?R = "\<lambda>i. footprint Z own (?at i) m"
  let ?P = "\<lambda>i m'. good (?at i) m' \<and> footprint Z own (?at i) m' = ?R i \<and> erased (?at i) m' = erased (?at i) m"
  let ?Q = "\<lambda>i m'. \<forall>x \<in> erased (?at i) m. m' x = 0"
  have "\<exists>m'. for_each (\<lambda>i. drop_in_place Z (?at i)) [0..<n] m = Return m' \<and> (\<forall>i \<in> set [0..<n]. ?Q i m') \<and>
      (\<forall>x. x \<notin> (\<Union>i \<in> set [0..<n]. ?R i) \<longrightarrow> m' x = m x)"
  proof (rule for_each_disjoint [where P = ?P])
    show "\<exists>m''. drop_in_place Z (?at i) m' = Return m'' \<and> ?Q i m'' \<and> (\<forall>x. x \<notin> ?R i \<longrightarrow> m'' x = m' x)"
      if "?P i m'" for i m'
      using erases [of "?at i" m'] that by auto
    show "?P i m''" if "?P i m'" "agree m' m'' (?R i)" for i m' m''
      using local [of "?at i" m' m''] erased_local [of "?at i" m' m''] footprint_local [of "?at i" m' m''] that by auto
    show "?Q i m''" if "i \<in> set [0..<n]" "?Q i m'" "agree m' m'' (?R i)" for i m' m''
      using that erased_within [of "?at i" m] good by (auto simp: slice_good_def agree_def)
    show "sorted_wrt (\<lambda>i j. ?R i \<inter> ?R j = {}) [0..<n]"
      using slice_good_disjoint [OF good] by (auto simp: sorted_wrt_iff_nth_less)
    show "\<forall>i \<in> set [0..<n]. ?P i m" using good by (simp add: slice_good_def)
  qed
  then obtain m' where m': "drop_slice Z a n m = Return m'" "\<forall>i < n. ?Q i m'"
      "\<forall>x. x \<notin> (\<Union>i < n. ?R i) \<longrightarrow> m' x = m x"
    by (auto simp: drop_slice_for_each atLeast0LessThan)
  then show ?thesis unfolding slice_footprints_eq by (auto simp: slice_own_def)
qed

lemma array_on_drop:
  "zeroize_on_drop (array_of N Z) (\<lambda>a m. slice_good Z good own a N m) (\<lambda>a m. slice_own Z own a N m)
     (\<lambda>a m. slice_own Z erased a N m)"
proof (intro zeroize_on_drop.intro zeroize_on_drop_axioms.intro array_region)
  fix a m m'
  assume good: "slice_good Z good own a N m"
  show "slice_own Z erased a N m' = slice_own Z erased a N m"
    if "agree m m' (footprint (array_of N Z) (\<lambda>a m. slice_own Z own a N m) a m)"
    using slice_erased_local [OF good] that by (simp add: footprint_def array_of_def)
  show "slice_own Z erased a N m \<subseteq> footprint (array_of N Z) (\<lambda>a m. slice_own Z own a N m) a m"
    using slice_erased_within [OF good] by (simp add: footprint_def array_of_def)
  show "\<exists>m'. drop_in_place (array_of N Z) a m = Return m' \<and> (\<forall>x \<in> slice_own Z erased a N m. m' x = 0) \<and>
      (\<forall>x. x \<notin> footprint (array_of N Z) (\<lambda>a m. slice_own Z own a N m) a m \<longrightarrow> m' x = m x)"
    using drop_slice_erases [OF good] by (simp add: footprint_def array_of_def)
qed

lemma vec_erases:
  assumes good: "vec_good L Z good own a m"
  shows "\<exists>m'. drop_in_place (vec_of L Z) a m = Return m' \<and> (\<forall>x \<in> vec_erased L Z erased a m. m' x = 0) \<and>
    (let v = load_vec L a m in \<forall>x. x \<notin> {vec_ptr v..<vec_ptr v + vec_len v * size_of Z} \<union>
       slice_own Z own (vec_ptr v) (vec_len v) m \<longrightarrow> m' x = m x)"
  using drop_slice_erases [of "vec_ptr (load_vec L a m)" "vec_len (load_vec L a m)" m] good
  by (simp add: vec_good_def vec_erased_def vec_of_def Let_def)

lemma vec_elements_owned:
  assumes "vec_good L Z good own a m"
  defines "v \<equiv> load_vec L a m"
  shows "{vec_ptr v..<vec_ptr v + vec_len v * size_of Z} \<union> slice_own Z own (vec_ptr v) (vec_len v) m \<subseteq> vec_own L Z own a m"
proof -
  have "vec_len v \<le> vec_cap v" using assms(1) by (simp add: vec_good_def v_def Let_def)
  from elements_within [OF this, of "vec_ptr v" "size_of Z"] show ?thesis
    unfolding vec_own_def v_def Let_def by blast
qed

lemma vec_on_drop: "zeroize_on_drop (vec_of L Z) (vec_good L Z good own) (vec_own L Z own) (vec_erased L Z erased)"
proof (intro zeroize_on_drop.intro zeroize_on_drop_axioms.intro vec_region)
  fix a m m'
  assume good: "vec_good L Z good own a m"
  define v where "v = load_vec L a m"
  note elements = vec_elements_owned [OF good, folded v_def]
  have slice: "slice_good Z good own (vec_ptr v) (vec_len v) m" using good by (simp add: vec_good_def v_def Let_def)
  show "vec_erased L Z erased a m' = vec_erased L Z erased a m"
    if agree: "agree m m' (footprint (vec_of L Z) (vec_own L Z own) a m)"
  proof -
    have "agree m m' ({vec_ptr v..<vec_ptr v + vec_len v * size_of Z} \<union> slice_own Z own (vec_ptr v) (vec_len v) m)"
      using elements by (intro agree_mono [OF agree]) (auto simp: footprint_def)
    then show ?thesis
      using slice_erased_local [OF slice] load_vec_agree [OF agree] by (simp add: vec_erased_def v_def Let_def)
  qed
  show "vec_erased L Z erased a m \<subseteq> footprint (vec_of L Z) (vec_own L Z own) a m"
    using slice_erased_within [OF slice] elements unfolding vec_erased_def v_def footprint_def Let_def by blast
  show "\<exists>m'. drop_in_place (vec_of L Z) a m = Return m' \<and> (\<forall>x \<in> vec_erased L Z erased a m. m' x = 0) \<and>
      (\<forall>x. x \<notin> footprint (vec_of L Z) (vec_own L Z own) a m \<longrightarrow> m' x = m x)"
    using vec_erases [OF good] elements unfolding v_def footprint_def Let_def by blast
qed

text \<open>Only the size and the drop of a type matter, and fewer values may be good.\<close>

lemma restrict:
  assumes "size_of Z' = size_of Z" "drop_in_place Z' = drop_in_place Z" and good': "\<And>a m. good' a m \<Longrightarrow> good a m"
    and local': "\<And>a m m'. good' a m \<Longrightarrow> agree m m' (footprint Z own a m) \<Longrightarrow> good' a m'"
  shows "zeroize_on_drop Z' good' own erased"
proof -
  have [simp]: "footprint Z' own = footprint Z own" by (simp add: footprint_def fun_eq_iff assms(1))
  show ?thesis
    by unfold_locales (use assms(2) good' local' local erased_local erased_within erases in simp_all)
qed

lemma box_on_drop: "zeroize_on_drop (box_of L Z) (box_good L Z good own) (vec_own L Z own) (vec_erased L Z erased)"
proof (rule zeroize_on_drop.restrict [OF vec_on_drop])
  show "box_good L Z good own a m'"
    if "box_good L Z good own a m" "agree m m' (footprint (vec_of L Z) (vec_own L Z own) a m)" for a m m'
    using that owned_region.local [OF vec_region, of L a m m'] load_vec_agree [of m m' L Z _ a]
    by (auto simp: box_good_def)
qed (simp_all add: box_of_def vec_of_def box_good_def)

lemma option_on_drop:
  assumes fits: "payload_offset OL + size_of Z \<le> option_size OL"
  shows "zeroize_on_drop (option_of OL tmp Z) (option_good OL good) (option_bytes OL own) (option_bytes OL erased)"
proof -
  let ?foot = "footprint (option_of OL tmp Z) (option_bytes OL own)"
  have tag: "peek m' a (option_size OL) = peek m a (option_size OL)" if "agree m m' (?foot a m)" for a m m'
    using peek_agree [of m m' a "option_size OL"] agree_mono [OF that] by (simp add: footprint_def option_of_def)
  have inside: "footprint Z own (a + payload_offset OL) m \<subseteq> ?foot a m"
    if "is_some OL (peek m a (option_size OL))" for a m
    using fits that by (auto simp: footprint_def option_of_def option_bytes_def)
  show ?thesis
  proof
    fix a m m'
    assume good: "option_good OL good a m"
    show "option_good OL good a m' \<and> option_bytes OL own a m' = option_bytes OL own a m"
      if "agree m m' (?foot a m)"
      using local [of "a + payload_offset OL" m m'] agree_mono [OF that inside] tag [OF that] good
      by (auto simp: option_good_def option_bytes_def)
    show "option_bytes OL erased a m' = option_bytes OL erased a m" if "agree m m' (?foot a m)"
      using erased_local [of "a + payload_offset OL" m m'] agree_mono [OF that inside] tag [OF that] good
      by (auto simp: option_good_def option_bytes_def)
    show "option_bytes OL erased a m \<subseteq> ?foot a m"
      using erased_within [of "a + payload_offset OL" m] inside [of m a] good
      by (auto simp: option_good_def option_bytes_def)
    show "\<exists>m'. drop_in_place (option_of OL tmp Z) a m = Return m' \<and> (\<forall>x \<in> option_bytes OL erased a m. m' x = 0) \<and>
        (\<forall>x. x \<notin> ?foot a m \<longrightarrow> m' x = m x)"
    proof (cases "is_some OL (peek m a (option_size OL))")
      case True
      then have drop: "drop_in_place (option_of OL tmp Z) a m = drop_in_place Z (a + payload_offset OL) m"
        and bytes: "option_bytes OL erased a m = erased (a + payload_offset OL) m"
        and "good (a + payload_offset OL) m"
        using good by (simp_all add: option_of_def option_bytes_def option_good_def)
      from erases [OF this(3)] inside [OF True] show ?thesis unfolding drop bytes by blast
    next
      case False
      then show ?thesis by (simp add: option_of_def option_bytes_def)
    qed
  qed
qed

end

text \<open>Tuples: every field is dropped where it is, and no two of them share a byte.\<close>

text \<open>The fields of a tuple are dropped one after the other; each erases its part and leaves the rest alone.\<close>

lemma fields_drop:
  assumes one: "\<And>p. p \<in> set fs \<Longrightarrow> zeroize_on_drop (lf_type (fst p)) (lf_good (fst p)) (lf_own (fst p)) (snd p)"
    and good: "fields_good (map fst fs) a m"
  shows "\<exists>m'. for_each (\<lambda>p. drop_in_place (lf_type (fst p)) (a + lf_offset (fst p))) fs m = Return m' \<and>
      (\<forall>p \<in> set fs. \<forall>x \<in> snd p (a + lf_offset (fst p)) m. m' x = 0) \<and>
      (\<forall>x. x \<notin> (\<Union>p \<in> set fs. field_footprint a m (fst p)) \<longrightarrow> m' x = m x)"
proof -
  let ?P = "\<lambda>p m'. field_intact a m (fst p) m' \<and> snd p (a + lf_offset (fst p)) m' = snd p (a + lf_offset (fst p)) m"
  let ?Q = "\<lambda>p m'. \<forall>x \<in> snd p (a + lf_offset (fst p)) m. m' x = 0"
  let ?R = "\<lambda>p. field_footprint a m (fst p)"
  have at: "lf_good (fst p) (a + lf_offset (fst p)) m" if "p \<in> set fs" for p
    using good that by (auto simp: fields_good_def)
  show ?thesis
  proof (rule for_each_disjoint [where P = ?P])
    fix p m1 assume p: "p \<in> set fs" "?P p m1"
    have eq: "footprint (lf_type (fst p)) (lf_own (fst p)) (a + lf_offset (fst p)) m1 = ?R p"
      using p(2) by (simp add: field_intact_def field_footprint_def footprint_def)
    show "\<exists>m'. drop_in_place (lf_type (fst p)) (a + lf_offset (fst p)) m1 = Return m' \<and> ?Q p m' \<and> (\<forall>x. x \<notin> ?R p \<longrightarrow> m' x = m1 x)"
      using zeroize_on_drop.erases [OF one [OF p(1)], of "a + lf_offset (fst p)" m1] p(2)
      by (simp add: eq field_intact_def)
    show "?P p m2" if "agree m1 m2 (?R p)" for m2
      using p that field_intact_local [of "fst p" a m m1 m2] one [OF p(1)]
        zeroize_on_drop.erased_local [OF one [OF p(1)], of "a + lf_offset (fst p)" m1 m2]
      by (auto simp: eq field_is_local_iff zeroize_on_drop_def field_intact_def)
  next
    show "?Q p m2" if "p \<in> set fs" "?Q p m1" "agree m1 m2 (?R p)" for p m1 m2
      using that zeroize_on_drop.erased_within [OF one at, OF that(1) that(1)] by (auto simp: agree_def field_footprint_def)
    show "sorted_wrt (\<lambda>p q. ?R p \<inter> ?R q = {}) fs" "\<forall>p \<in> set fs. ?P p m"
      using good at by (simp_all add: fields_good_def sorted_wrt_map field_intact_def)
  qed
qed

lemma tuple_on_drop:
  assumes marked: "\<forall>p \<in> set fs. zeroize_on_drop (lf_type (fst p)) (lf_good (fst p)) (lf_own (fst p)) (snd p)"
    and within: "fields_within sz (map fst fs)"
  shows "zeroize_on_drop (tuple sz (map (typed \<circ> fst) fs)) (fields_good (map fst fs)) (fields_own (map fst fs)) (tuple_erased fs)"
proof -
  let ?T = "tuple sz (map (typed \<circ> fst) fs)" and ?own = "fields_own (map fst fs)"
  have region: "owned_region ?T (fields_good (map fst fs)) ?own"
    using tuple_region [of "map fst fs" sz] marked within
    by (auto simp: field_is_local_iff zeroize_on_drop_def comp_def)
  have foot: "field_footprint a m (fst p) \<subseteq> footprint ?T ?own a m" if "p \<in> set fs" for p a m
    using field_footprint_within [OF within, of "fst p"] that by (auto simp: footprint_def tuple_def)
  note one = marked [rule_format]
  show ?thesis
  proof (intro zeroize_on_drop.intro zeroize_on_drop_axioms.intro region)
    fix a m m'
    assume good: "fields_good (map fst fs) a m"
    then have at: "lf_good (fst p) (a + lf_offset (fst p)) m" if "p \<in> set fs" for p
      using that by (auto simp: fields_good_def)
    show "tuple_erased fs a m' = tuple_erased fs a m" if "agree m m' (footprint ?T ?own a m)"
      unfolding tuple_erased_def case_prod_beta
      using zeroize_on_drop.erased_local [OF one at] agree_mono [OF that foot] by (simp add: field_footprint_def)
    have "snd p (a + lf_offset (fst p)) m \<subseteq> field_footprint a m (fst p)" if "p \<in> set fs" for p
      using zeroize_on_drop.erased_within [OF one at] that by (simp add: field_footprint_def)
    then show "tuple_erased fs a m \<subseteq> footprint ?T ?own a m"
      using foot unfolding tuple_erased_def by fastforce
    have "drop_in_place ?T a m = for_each (\<lambda>p. drop_in_place (lf_type (fst p)) (a + lf_offset (fst p))) fs m"
      using tuple_fields_for_each [of drop_in_place "map fst fs" a m] by (simp add: tuple_def for_each_map comp_def)
    then show "\<exists>m'. drop_in_place ?T a m = Return m' \<and> (\<forall>x \<in> tuple_erased fs a m. m' x = 0) \<and>
        (\<forall>x. x \<notin> footprint ?T ?own a m \<longrightarrow> m' x = m x)"
      using fields_drop [OF one good] foot [of _ a m] unfolding tuple_erased_def by fastforce
  qed
qed

interpretation unit_on_drop: zeroize_on_drop zero_sized always_good owns_nothing owns_nothing
  by unfold_locales (simp_all add: zero_sized_def always_good_def owns_nothing_def)

lemma ZeroizeOnDrop_keeps: "ZeroizeOnDrop Z good own erased \<Longrightarrow> zeroize_on_drop Z good own erased"
proof (induction rule: ZeroizeOnDrop.induct)
  case Zeroizing
  then show ?case by (rule zeroize_law.zeroizing_on_drop)
next
  case Tuple
  then show ?case by (intro tuple_on_drop) blast+
qed (blast intro: unit_on_drop.zeroize_on_drop_axioms zeroize_on_drop.array_on_drop zeroize_on_drop.option_on_drop
  zeroize_on_drop.vec_on_drop zeroize_on_drop.box_on_drop)+

section \<open>Values without indirection\<close>

text \<open>A type whose default is all zeroes owns the bytes it stands on.\<close>

abbreviation zero_bytes :: "nat \<Rightarrow> ty" where
  "zero_bytes n \<equiv> default_is_zeroes (replicate n 0)"

definition owns_inline :: "nat \<Rightarrow> nat \<Rightarrow> mem \<Rightarrow> nat set" where
  "owns_inline n a m = {a..<a + n}"

lemma zero_bytes_size [simp]: "size_of (zero_bytes n) = n"
  by (simp add: default_is_zeroes_def)

interpretation inline: zeroize_law "zero_bytes n" always_good "owns_inline n" for n
  by unfold_locales
    (auto simp: always_good_def owns_inline_def default_is_zeroes_def volatile_write_def cleared_def footprint_def poke_def)

lemma zeroizing_inline_drop: "drop_in_place (zeroizing (zero_bytes n)) a m = Return (poke m a (replicate n 0))"
  by (simp add: zeroizing_def default_is_zeroes_def volatile_write_def)

interpretation wrapped_inline: zeroize_law "zeroizing (zero_bytes n)" always_good "owns_inline n" for n
proof unfold_locales
  fix a m
  let ?m = "poke m a (replicate n 0)"
  have "zeroize (zeroizing (zero_bytes n)) a m = Return ?m"
    by (simp add: zeroizing_def default_is_zeroes_def volatile_write_def)
  moreover have "cleared (zeroizing (zero_bytes n)) (owns_inline n) a m ?m"
    by (auto simp: cleared_def owns_inline_def footprint_def poke_def)
  moreover have "drop_in_place (zeroizing (zero_bytes n)) a m'' = Return m''"
    if "agree ?m m'' {a..<a + size_of (zeroizing (zero_bytes n))}" for m''
    using that by (auto simp: zeroizing_inline_drop agree_def poke_def fun_eq_iff)
  ultimately show "\<exists>m'. zeroize (zeroizing (zero_bytes n)) a m = Return m' \<and>
      cleared (zeroizing (zero_bytes n)) (owns_inline n) a m m' \<and>
      (\<forall>m''. agree m' m'' {a..<a + size_of (zeroizing (zero_bytes n))} \<longrightarrow>
        drop_in_place (zeroizing (zero_bytes n)) a m'' = Return m'')" by blast
qed

lemma inline_slices:
  assumes "size_of Z = s"
  shows "slice_own Z (owns_inline s) a n m = {a..<a + n * s}" "slice_good Z always_good (owns_inline s) a n m"
proof -
  have "footprint Z (owns_inline s) b m = footprint Z owns_nothing b m" "owns_inline s b m = footprint Z owns_nothing b m" for b m
    by (simp_all add: footprint_def owns_inline_def owns_nothing_def assms)
  then show "slice_own Z (owns_inline s) a n m = {a..<a + n * s}" "slice_good Z always_good (owns_inline s) a n m"
    using slice_footprints_eq [of Z owns_nothing a m n] slice_good_flat [of Z a n m]
    by (simp_all add: slice_own_def slice_good_def assms owns_nothing_def)
qed

text \<open>
  The life of a wrapped value: it is moved in by \<open>new\<close>, overwritten through \<open>deref_mut\<close> and dropped.  Its place holds
  zeroes afterwards; the place it was moved from keeps the first value.
\<close>

lemma zeroizing_life:
  fixes m :: mem
  assumes "length bs = n" "src + n \<le> dst \<or> dst + n \<le> src"
  defines "m1 \<equiv> poke (zeroizing_new (zero_bytes n) dst src m) (zeroizing_deref_mut dst) bs"
  shows "\<exists>m'. drop_in_place (zeroizing (zero_bytes n)) dst m1 = Return m' \<and>
    peek m' dst n = replicate n 0 \<and> peek m' src n = peek m src n"
proof -
  have "peek (poke m1 dst (replicate n 0)) src n = peek m src n"
    using assms(1,2) by (auto simp: peek_def poke_def m1_def zeroizing_new_def zeroizing_deref_mut_def move_def)
  moreover have "peek (poke m1 dst (replicate n 0)) dst n = replicate n 0"
    using peek_poke [of m1 dst "replicate n 0"] by simp
  ultimately show ?thesis by (simp add: zeroizing_inline_drop)
qed

section \<open>Properties\<close>

text \<open>
  (C11) Every implementation of \<open>ZeroizeOnDrop\<close> in the crate keeps its promise: for each type built from
  \<open>Zeroizing\<close>, \<open>()\<close>, arrays, \<open>Option\<close>, tuples, \<open>Vec\<close> and \<open>Box<[_]>\<close>, dropping a good value
  returns, every byte the promise names is zero afterwards, and nothing outside the value
  and what it owns is written.
\<close>

theorem zeroize_on_drop_sound:
  assumes "ZeroizeOnDrop Z good own erased" and "good a m"
  shows "\<exists>m'. drop_in_place Z a m = Return m' \<and> (\<forall>x \<in> erased a m. m' x = 0) \<and>
    (\<forall>x. x \<notin> footprint Z own a m \<longrightarrow> m' x = m x)"
  using zeroize_on_drop.erases [OF ZeroizeOnDrop_keeps] assms by blast

theorem zeroize_on_drop_sound_witness:
  "let L = \<lparr>option_size = 2, payload_offset = 1, is_some = (\<lambda>bs. take 1 bs = [1]), write_none = (\<lambda>bs. bs[0 := 0])\<rparr>;
       m = poke (\<lambda>_. 3) 10 [1, 7, 0, 9] in
   \<exists>m'. drop_in_place (array_of 2 (option_of L 90 (zeroizing (zero_bytes 1)))) 10 m = Return m' \<and> m' 11 = 0 \<and> m' 14 = 3"
proof -
  define L :: option_layout where
    "L = \<lparr>option_size = 2, payload_offset = 1, is_some = (\<lambda>bs. take 1 bs = [1]), write_none = (\<lambda>bs. bs[0 := 0])\<rparr>"
  define m :: mem where "m = poke (\<lambda>_. 3) 10 [1, 7, 0, 9]"
  define Opt where "Opt = option_of L 90 (zeroizing (zero_bytes 1))"
  define own where "own = option_bytes L (owns_inline 1)"
  let ?good = "option_good L always_good"
  have sz: "size_of Opt = 2" "option_size L = 2" "payload_offset L = 1" by (simp_all add: Opt_def option_of_def L_def)
  have tags: "peek m 10 2 = [1, 7]" "peek m 12 2 = [0, 9]"
    by (simp_all add: peek_def m_def poke_def upt_rec numeral_eq_Suc)
  have own: "own 10 m = {11}" "own 12 m = {}"
    unfolding own_def option_bytes_def sz tags by (auto simp: owns_inline_def L_def)
  have "slice_good Opt ?good own 10 2 m"
    by (auto simp: slice_good_def option_good_def always_good_def less_2_cases_iff footprint_def sz own)
  moreover have "ZeroizeOnDrop (array_of 2 Opt) (\<lambda>a m. slice_good Opt ?good own a 2 m) (\<lambda>a m. slice_own Opt own a 2 m)
      (\<lambda>a m. slice_own Opt own a 2 m)"
    unfolding Opt_def own_def
    by (intro ZeroizeOnDrop.Array ZeroizeOnDrop.Option ZeroizeOnDrop.Zeroizing inline.zeroize_law_axioms)
      (simp add: sz default_is_zeroes_def)
  ultimately obtain m' where "drop_in_place (array_of 2 Opt) 10 m = Return m'" "\<forall>x \<in> slice_own Opt own 10 2 m. m' x = 0"
      "\<forall>x. x \<notin> footprint (array_of 2 Opt) (\<lambda>a m. slice_own Opt own a 2 m) 10 m \<longrightarrow> m' x = m x"
    using zeroize_on_drop_sound by blast
  moreover have "slice_own Opt own 10 2 m = {11}"
  proof -
    have "{..<2 :: nat} = {0, 1}" by auto
    then show ?thesis by (simp add: slice_own_def sz own)
  qed
  moreover have "m 14 = 3" by (simp add: m_def poke_def)
  ultimately show ?thesis
    unfolding Let_def L_def [symmetric] m_def [symmetric] Opt_def [symmetric] by (auto simp: footprint_def array_of_def sz)
qed

text \<open>
  (C37) The promise of \<open>Vec\<close> ends at its length.  Dropping a \<open>Vec<Zeroizing<_>>\<close>, a type that the crate marks as
  \<open>ZeroizeOnDrop\<close>, erases its elements, and every byte of the spare capacity keeps what elements left
  there that were moved out; calling \<open>zeroize\<close> on the same vector clears the whole capacity.
\<close>

theorem vec_drop_keeps_spare_capacity:
  assumes "layout_ok L" and "load_vec L a m = v" and "vec_fits v" and "vec_len v \<le> vec_cap v"
    and "vec_cap v * n \<le> isize_MAX"
    and "{vec_ptr v..<vec_ptr v + vec_cap v * n} \<inter> {a..<a + header_size L} = {}"
  defines "V \<equiv> vec_of L (zeroizing (zero_bytes n))"
  shows "\<exists>m1 m2. drop_in_place V a m = Return m1 \<and> (\<forall>x \<in> {vec_ptr v..<vec_ptr v + vec_len v * n}. m1 x = 0) \<and>
    (\<forall>x \<in> {vec_ptr v + vec_len v * n..<vec_ptr v + vec_cap v * n}. m1 x = m x) \<and>
    zeroize V a m = Return m2 \<and> (\<forall>x \<in> {vec_ptr v..<vec_ptr v + vec_cap v * n}. m2 x = 0)"
proof -
  let ?Z = "zeroizing (zero_bytes n)"
  note slice = inline_slices [of ?Z n, simplified]
  have own: "vec_own L ?Z (owns_inline n) a m = {vec_ptr v..<vec_ptr v + vec_cap v * n}"
    unfolding vec_own_def Let_def assms(2) slice zeroizing_size zero_bytes_size
    using elements_within [OF assms(4), of "vec_ptr v" n] by blast
  have good: "vec_good L ?Z always_good (owns_inline n) a m"
    unfolding vec_good_def own using assms(2-6) by (simp add: slice)
  obtain m1 where m1: "drop_in_place V a m = Return m1" "\<forall>x \<in> {vec_ptr v..<vec_ptr v + vec_len v * n}. m1 x = 0"
      "\<forall>x. x \<notin> {vec_ptr v..<vec_ptr v + vec_len v * n} \<longrightarrow> m1 x = m x"
    using zeroize_on_drop.vec_erases [OF inline.zeroizing_on_drop good]
    by (auto simp: V_def vec_erased_def assms(2) slice)
  have "zeroize_law V (vec_good L ?Z always_good (owns_inline n)) (vec_own L ?Z (owns_inline n))"
    unfolding V_def
    by (rule vec_law.vec_of_law) (simp add: vec_law_def vec_law_axioms_def wrapped_inline.zeroize_law_axioms assms(1))
  from zeroize_law.clears [OF this good] obtain m2 where "zeroize V a m = Return m2"
      "\<forall>x \<in> {vec_ptr v..<vec_ptr v + vec_cap v * n}. m2 x = 0"
    unfolding cleared_def own by blast
  with m1 show ?thesis by auto
qed

theorem vec_drop_keeps_spare_capacity_witness:
  "\<exists>m'. drop_in_place (vec_of usize_layout (zeroizing (zero_bytes 1))) 0
      (poke (\<lambda>_. 5) 0 (write_header usize_layout \<lparr>vec_ptr = 40, vec_cap = 9, vec_len = 6\<rparr>)) = Return m' \<and>
    m' 45 = 0 \<and> m' 46 = 5"
proof -
  define v where "v = \<lparr>vec_ptr = 40, vec_cap = 9, vec_len = 6\<rparr>"
  define m :: mem where "m = poke (\<lambda>_. 5) 0 (write_header usize_layout v)"
  have fits: "vec_fits v" by (simp add: vec_fits_def v_def usize_MAX_def)
  have load: "load_vec usize_layout 0 m = v" unfolding m_def by (rule load_vec_write [OF usize_layout_ok fits])
  obtain m' where "drop_in_place (vec_of usize_layout (zeroizing (zero_bytes 1))) 0 m = Return m'"
      "\<forall>x \<in> {40..<46}. m' x = 0" "\<forall>x \<in> {46..<49}. m' x = m x"
    using vec_drop_keeps_spare_capacity [OF usize_layout_ok load fits, of 1]
    by (auto simp: v_def isize_MAX_def usize_layout_def)
  moreover have "m 46 = 5" by (simp add: m_def poke_def usize_layout_def)
  ultimately show ?thesis unfolding v_def [symmetric] m_def [symmetric] by auto
qed

text \<open>
  (C18) \<open>Zeroizing::clone_from\<close> leaves nothing of the value it replaces.  If the \<open>clone_from\<close> of the wrapped type
  returns on zeroized values and writes only the value it makes, then afterwards every byte that the old value owned
  is zero or belongs to the new one, and no other byte of memory has changed.
\<close>

theorem clone_from_forgets:
  assumes "zeroize_law Z good own" and "good self m"
    and "\<And>m1. cleared Z own self m m1 \<Longrightarrow> \<exists>m2. clone_from self source m1 = Return m2"
    and "\<And>m1 m2 x. clone_from self source m1 = Return m2 \<Longrightarrow> x \<notin> footprint Z own self m2 \<Longrightarrow> m2 x = m1 x"
  shows "\<exists>m2. zeroizing_clone_from Z clone_from self source m = Return m2 \<and>
    (\<forall>x \<in> own self m. x \<notin> footprint Z own self m2 \<longrightarrow> m2 x = 0) \<and>
    (\<forall>x. x \<notin> footprint Z own self m \<union> footprint Z own self m2 \<longrightarrow> m2 x = m x)"
proof -
  obtain m1 where m1: "zeroize Z self m = Return m1" "cleared Z own self m m1"
    using zeroize_law.clears [OF assms(1,2)] by blast
  obtain m2 where m2: "clone_from self source m1 = Return m2" using assms(3) [OF m1(2)] by blast
  have "m2 x = m1 x" if "x \<notin> footprint Z own self m2" for x using assms(4) [OF m2 that] .
  with m1(2) have "(\<forall>x \<in> own self m. x \<notin> footprint Z own self m2 \<longrightarrow> m2 x = 0) \<and>
      (\<forall>x. x \<notin> footprint Z own self m \<union> footprint Z own self m2 \<longrightarrow> m2 x = m x)"
    by (simp add: cleared_def)
  with m1(1) m2 show ?thesis by (simp add: zeroizing_clone_from_def)
qed

theorem clone_from_forgets_witness:
  "let L = usize_layout; old = \<lparr>vec_ptr = 100, vec_cap = 4, vec_len = 3\<rparr>; new = \<lparr>vec_ptr = 500, vec_cap = 2, vec_len = 2\<rparr>;
       clone_from = (\<lambda>self source m. Return (poke (poke m 500 (peek m source 2)) self (write_header L new))) in
   \<exists>m'. zeroizing_clone_from (string_type L) clone_from 0 300 (poke (\<lambda>_. 8) 0 (write_header L old)) = Return m' \<and>
     m' 100 = 0 \<and> m' 103 = 0 \<and> m' 104 = 8"
proof -
  let ?L = usize_layout
  define old new where "old = \<lparr>vec_ptr = 100, vec_cap = 4, vec_len = 3\<rparr>" and "new = \<lparr>vec_ptr = 500, vec_cap = 2, vec_len = 2\<rparr>"
  define clone_from :: "nat \<Rightarrow> nat \<Rightarrow> mem \<Rightarrow> mem outcome" where
    "clone_from = (\<lambda>self source m. Return (poke (poke m 500 (peek m source 2)) self (write_header ?L new)))"
  define m :: mem where "m = poke (\<lambda>_. 8) 0 (write_header ?L old)"
  have fits: "vec_fits old" "vec_fits new" by (simp_all add: vec_fits_def old_def new_def usize_MAX_def)
  have hs: "header_size ?L = 24" "length (write_header ?L u) = 24" for u by (simp_all add: usize_layout_def)
  have sz: "size_of u8_type = 1" "size_of (string_type ?L) = 24"
    by (simp_all add: u8_type_def default_is_zeroes_def string_type_def vec_of_def hs)
  have load: "load_vec ?L 0 m = old" "load_vec ?L 0 (poke m' 0 (write_header ?L new)) = new" for m'
    unfolding m_def by (rule load_vec_write [OF usize_layout_ok fits(1)] load_vec_write [OF usize_layout_ok fits(2)])+
  have own: "vec_own ?L u8_type owns_nothing 0 m = {100..<104}"
      "vec_own ?L u8_type owns_nothing 0 (poke m' 0 (write_header ?L new)) = {500..<502}" for m'
    unfolding vec_own_def Let_def load by (simp_all add: sz old_def new_def)
  have good: "vec_good ?L u8_type always_good owns_nothing 0 m"
    unfolding vec_good_def own(1) load Let_def using fits(1) by (simp add: old_def sz hs isize_MAX_def slice_good_flat)
  have foot: "footprint (string_type ?L) (vec_own ?L u8_type owns_nothing) 0 m2 = {0..<24} \<union> {500..<502}"
    if "clone_from 0 300 m1 = Return m2" for m1 m2
    using that by (auto simp: clone_from_def footprint_def own sz)
  let ?foot = "footprint (string_type ?L) (vec_own ?L u8_type owns_nothing) 0"
  have writes: "m2 x = m1 x" if "clone_from 0 300 m1 = Return m2" "x \<notin> ?foot m2" for m1 m2 x
    using that(1) that(2) [unfolded foot [OF that(1)]] by (auto simp: clone_from_def poke_def hs)
  have "\<exists>m2. zeroizing_clone_from (string_type ?L) clone_from 0 300 m = Return m2 \<and>
      (\<forall>x \<in> vec_own ?L u8_type owns_nothing 0 m. x \<notin> ?foot m2 \<longrightarrow> m2 x = 0) \<and> (\<forall>x. x \<notin> ?foot m \<union> ?foot m2 \<longrightarrow> m2 x = m x)"
  proof (rule clone_from_forgets [OF string_type_law [OF usize_layout_ok] good])
    show "\<exists>m2. clone_from 0 300 m1 = Return m2" for m1 by (simp add: clone_from_def)
  qed (rule writes)
  then obtain m2 where m2: "zeroizing_clone_from (string_type ?L) clone_from 0 300 m = Return m2"
      "\<forall>x \<in> {100..<104}. x \<notin> ?foot m2 \<longrightarrow> m2 x = 0" "\<forall>x. x \<notin> ?foot m \<union> ?foot m2 \<longrightarrow> m2 x = m x"
    unfolding own by blast
  have "?foot m = {0..<24} \<union> {100..<104}" by (simp add: footprint_def own sz)
  obtain m1 where "clone_from 0 300 m1 = Return m2"
    using m2(1) by (auto simp: zeroizing_clone_from_def and_then_eq_Return)
  moreover have "m 104 = 8" by (simp add: m_def poke_def hs)
  moreover note \<open>?foot m = _\<close>
  ultimately show ?thesis
    unfolding Let_def old_def [symmetric] new_def [symmetric] clone_from_def [symmetric] m_def [symmetric]
    using m2 foot by auto
qed

end
