(* ===== verification/Zeroize_Derived.thy ===== *)
theory Zeroize_Derived
  imports Zeroize_Derive Zeroize_On_Drop
begin

text \<open>
  The code that the derive macros of \<^verbatim>\<open>zeroize/derive/src/lib.rs\<close> generate, run on the memory of \<^verbatim>\<open>Zeroize\<close>.

  The layout of the item is an argument.  The generated \<open>match\<close> has one arm for each variant that is left, a call for
  each binding that is left, and an empty arm for the rest, as the expansions in the crate's tests show.
\<close>

section \<open>Running the generated code\<close>

text \<open>
  The type of a field comes with whether it implements \<open>ZeroizeOnDrop\<close>, which decides what
  \<open>zeroize_or_on_drop\<close> resolves to.  The layout of the item gives its size, the variant of the value at an address, and the offsets of
  the fields of each variant.
\<close>

type_synonym field_ty = "bool \<times> ty"

record item_layout =
  item_size :: nat
  active :: "nat \<Rightarrow> mem \<Rightarrow> nat"
  offset :: "nat \<Rightarrow> nat \<Rightarrow> nat"

definition call_field :: "string \<Rightarrow> field_ty \<Rightarrow> nat \<Rightarrow> mem \<Rightarrow> mem outcome" where
  "call_field meth t a m =
     (if meth = ''zeroize'' then zeroize (snd t) a m else zeroize_or_on_drop (fst t) (snd t) a m)"

definition run_match :: "item_layout \<Rightarrow> field_ty match_body \<Rightarrow> nat \<Rightarrow> mem \<Rightarrow> mem outcome" where
  "run_match L body self m =
     (let i = active L self m in
      case map_of (arms body) i of
        Some calls \<Rightarrow> for_each (\<lambda>(j, t). call_field (call_method body) t (self + offset L i j)) calls m
      | None \<Rightarrow> Return m)"

text \<open>After the body of \<open>Drop::drop\<close> the fields of the value are dropped in order.\<close>

definition drop_glue :: "item_layout \<Rightarrow> (field_ty, 'p) Structure \<Rightarrow> nat \<Rightarrow> mem \<Rightarrow> mem outcome" where
  "drop_glue L s self m =
     (let i = active L self m in
      for_each (\<lambda>(j, b). drop_in_place (snd (field_type b)) (self + offset L i j)) (enumerate 0 (bindings (variants s ! i))) m)"

fun zeroize_body :: "('t, 'p) impl list \<Rightarrow> 't match_body option" where
  "zeroize_body [] = None"
| "zeroize_body (Zeroize_impl w body # impls) = Some body"
| "zeroize_body (i # impls) = zeroize_body impls"

definition derived_zeroize :: "item_layout \<Rightarrow> (field_ty, 'p) impl list \<Rightarrow> nat \<Rightarrow> mem \<Rightarrow> mem outcome" where
  "derived_zeroize L impls self m =
     (case zeroize_body impls of Some body \<Rightarrow> run_match L body self m | None \<Rightarrow> Return m)"

fun derived_drop :: "item_layout \<Rightarrow> (field_ty, 'p) impl list \<Rightarrow> (field_ty, 'p) impl list \<Rightarrow> nat \<Rightarrow> mem \<Rightarrow> mem outcome" where
  "derived_drop L all [] self m = Return m"
| "derived_drop L all (Drop_impl w None # impls) self m = derived_zeroize L all self m"
| "derived_drop L all (Drop_impl w (Some body) # impls) self m = run_match L body self m"
| "derived_drop L all (i # impls) self m = derived_drop L all impls self m"

definition derived_type :: "item_layout \<Rightarrow> (field_ty, 'p) Structure \<Rightarrow> (field_ty, 'p) impl list \<Rightarrow> ty" where
  "derived_type L s impls =
     \<lparr>size_of = item_size L, zeroize = derived_zeroize L impls,
      drop_in_place = (\<lambda>self m. and_then (derived_drop L impls impls self m) (drop_glue L s self))\<rparr>"

section \<open>What the generated code does\<close>

text \<open>The fields of a variant that the generated \<open>zeroize\<close> visits.\<close>

definition live_fields :: "(field_ty, 'p) Structure \<Rightarrow> nat \<Rightarrow> (nat \<times> field_ty) list" where
  "live_fields s i = (if kept (variant_attrs (variants s ! i)) then kept_fields (variants s ! i) else [])"

lemma map_of_enumerate_filter:
  "i < length xs \<Longrightarrow>
   map_of (map (\<lambda>(i, x). (i, f x)) (filter (\<lambda>(i, x). P x) (enumerate 0 xs))) i = (if P (xs ! i) then Some (f (xs ! i)) else None)"
proof (induction xs rule: rev_induct)
  case (snoc x xs)
  have "map_of (map (\<lambda>(i, x). (i, f x)) (filter (\<lambda>(i, x). P x) (enumerate 0 xs))) (length xs) = None"
    by (auto simp: map_of_eq_None_iff image_iff in_set_enumerate_eq)
  then show ?case
    using snoc by (cases "i < length xs"; cases "P x")
      (simp_all add: enumerate_append_eq nth_append map_add_def not_less less_Suc_eq split: option.split)
qed simp

lemma call_field_zeroize: "call_field ''zeroize'' t = zeroize (snd t)"
  by (simp add: fun_eq_iff call_field_def)

lemma run_match_live:
  assumes "generate_fields s meth = Return body" "active L self m < length (variants s)"
  shows "run_match L body self m =
    for_each (\<lambda>(j, t). call_field meth t (self + offset L (active L self m) j)) (live_fields s (active L self m)) m"
proof -
  have "\<forall>v \<in> set (variants s). skip_legal v" using generate_fields_eq(1) [of s meth] assms(1) by (simp add: returns_iff)
  then have "body = \<lparr>call_method = meth, arms = expected_arms s,
      omitted_variants = (\<exists>v \<in> set (variants s). \<not> kept (variant_attrs v))\<rparr>"
    using generate_fields_eq(2) [of s meth] assms(1) by simp
  then show ?thesis
    using map_of_enumerate_filter [OF assms(2), of kept_fields "\<lambda>v. kept (variant_attrs v)"]
    by (simp add: run_match_def expected_arms_def live_fields_def Let_def)
qed

lemma derive_zeroize_body:
  assumes "derive_zeroize pb s = Return impls"
  shows "\<exists>body. generate_fields s ''zeroize'' = Return body \<and> zeroize_body impls = Some body"
  using assms
  by (auto simp: derive_zeroize_def derive_zeroize_with_drop_def derive_without_drop_Return Let_def split: if_split_asm option.split_asm)

lemma derived_zeroize_live:
  assumes "derive_zeroize pb s = Return impls" "active L self m < length (variants s)"
  shows "derived_zeroize L impls self m =
    for_each (\<lambda>(j, t). zeroize (snd t) (self + offset L (active L self m) j)) (live_fields s (active L self m)) m"
proof -
  obtain body where "generate_fields s ''zeroize'' = Return body" "zeroize_body impls = Some body"
    using derive_zeroize_body [OF assms(1)] by blast
  then show ?thesis
    using run_match_live [of s "''zeroize''" body L self m] assms(2)
    by (simp add: derived_zeroize_def call_field_zeroize case_prod_unfold)
qed

text \<open>
  What dropping needs of a field, and which of its bytes are erased: a field that the derived \<open>drop\<close> zeroizes keeps the contract
  of \<open>zeroize\<close> and loses what it owns; a field that is marked keeps its own promise; a skipped field at least
  stays within its own bytes.
\<close>

definition drop_confined :: "lawful_field \<Rightarrow> bool" where
  "drop_confined f \<longleftrightarrow> (\<forall>a m. lf_good f a m \<longrightarrow>
     (\<exists>m'. drop_in_place (lf_type f) a m = Return m' \<and> (\<forall>x. x \<notin> footprint (lf_type f) (lf_own f) a m \<longrightarrow> m' x = m x)))"

definition droppable :: "bool \<Rightarrow> bool \<Rightarrow> lawful_field \<Rightarrow> (nat \<Rightarrow> mem \<Rightarrow> nat set) \<Rightarrow> bool" where
  "droppable is_kept on_drop f erased \<longleftrightarrow>
     (if is_kept then
        if on_drop then zeroize_on_drop (lf_type f) (lf_good f) (lf_own f) erased
        else lawful f \<and> erased = lf_own f
      else field_is_local f \<and> drop_confined f)"

definition still_intact ::
  "bool \<Rightarrow> bool \<Rightarrow> nat \<Rightarrow> mem \<Rightarrow> lawful_field \<Rightarrow> (nat \<Rightarrow> mem \<Rightarrow> nat set) \<Rightarrow> mem \<Rightarrow> bool" where
  "still_intact is_kept on_drop a m f erased m' \<longleftrightarrow>
     field_intact a m f m' \<and> (is_kept \<and> on_drop \<longrightarrow> erased (a + lf_offset f) m' = erased (a + lf_offset f) m)"

definition drop_ready ::
  "bool \<Rightarrow> bool \<Rightarrow> nat \<Rightarrow> mem \<Rightarrow> lawful_field \<Rightarrow> (nat \<Rightarrow> mem \<Rightarrow> nat set) \<Rightarrow> mem \<Rightarrow> bool" where
  "drop_ready is_kept on_drop a m f erased m' \<longleftrightarrow>
     (if is_kept \<and> \<not> on_drop then field_done a m f m' else still_intact is_kept on_drop a m f erased m')"

lemma droppable_local: "droppable k d f e \<Longrightarrow> field_is_local f"
  by (auto simp: droppable_def field_is_local_iff zeroize_on_drop_def dest: lawful_local split: if_split_asm)

lemma field_intact_footprint:
  "field_intact a m0 f m \<Longrightarrow> footprint (lf_type f) (lf_own f) (a + lf_offset f) m = field_footprint a m0 f"
  by (simp add: field_intact_def field_footprint_def footprint_def)

lemma still_intact_local:
  assumes "droppable k d f e" "still_intact k d a m0 f e m" "agree m m' (field_footprint a m0 f)"
  shows "still_intact k d a m0 f e m'"
proof -
  have intact: "field_intact a m0 f m" using assms(2) by (simp add: still_intact_def)
  have "e (a + lf_offset f) m' = e (a + lf_offset f) m" if "k \<and> d"
    using zeroize_on_drop.erased_local [of "lf_type f" "lf_good f" "lf_own f" e "a + lf_offset f" m m'] that assms(1,3)
      intact field_intact_footprint [OF intact] by (auto simp: droppable_def field_intact_def)
  then show ?thesis
    using assms(2) field_intact_local [OF droppable_local [OF assms(1)] intact assms(3)] by (auto simp: still_intact_def)
qed

lemma drop_ready_local:
  "droppable k d f e \<Longrightarrow> drop_ready k d a m0 f e m \<Longrightarrow> agree m m' (field_footprint a m0 f) \<Longrightarrow> drop_ready k d a m0 f e m'"
  by (auto simp: drop_ready_def intro: field_done_local still_intact_local split: if_split_asm)

lemma first_phase:
  assumes "droppable k d f e" "still_intact k d a m0 f e m"
  shows "\<exists>m'. (if k \<and> \<not> d then zeroize (lf_type f) (a + lf_offset f) m else Return m) = Return m' \<and>
    drop_ready k d a m0 f e m' \<and> (\<forall>x. x \<notin> field_footprint a m0 f \<longrightarrow> m' x = m x)"
  using field_zeroize [of f a m0 m] assms by (auto simp: droppable_def drop_ready_def still_intact_def)

lemma second_phase:
  assumes "droppable k d f e" "drop_ready k d a m0 f e m"
  shows "\<exists>m'. drop_in_place (lf_type f) (a + lf_offset f) m = Return m' \<and>
    (k \<longrightarrow> (\<forall>x \<in> e (a + lf_offset f) m0. m' x = 0)) \<and> (\<forall>x. x \<notin> field_footprint a m0 f \<longrightarrow> m' x = m x)"
proof (cases "k \<and> \<not> d")
  case True
  then have fin: "field_done a m0 f m" "e = lf_own f" using assms by (simp_all add: drop_ready_def droppable_def)
  then have "drop_in_place (lf_type f) (a + lf_offset f) m = Return m" by (auto simp: field_done_def agree_def)
  with fin show ?thesis by (auto simp: field_done_def)
next
  case False
  then have intact: "field_intact a m0 f m" "k \<longrightarrow> e (a + lf_offset f) m = e (a + lf_offset f) m0"
    using assms(2) by (auto simp: drop_ready_def still_intact_def)
  then have good: "lf_good f (a + lf_offset f) m" by (simp add: field_intact_def)
  note foot = field_intact_footprint [OF intact(1)]
  show ?thesis
  proof (cases k)
    case True
    with False assms(1) have "zeroize_on_drop (lf_type f) (lf_good f) (lf_own f) e" by (simp add: droppable_def)
    from zeroize_on_drop.erases [OF this good] show ?thesis using intact(2) True unfolding foot by auto
  next
    case False
    with assms(1) have "drop_confined f" by (simp add: droppable_def)
    with good have "\<exists>m'. drop_in_place (lf_type f) (a + lf_offset f) m = Return m' \<and>
        (\<forall>x. x \<notin> footprint (lf_type f) (lf_own f) (a + lf_offset f) m \<longrightarrow> m' x = m x)"
      by (simp only: drop_confined_def)
    then show ?thesis unfolding foot using False by simp
  qed
qed

lemma droppable_within: "droppable True d f e \<Longrightarrow> lf_good f (a + lf_offset f) m \<Longrightarrow>
    e (a + lf_offset f) m \<subseteq> field_footprint a m f"
  using zeroize_on_drop.erased_within [of "lf_type f" "lf_good f" "lf_own f" e "a + lf_offset f" m]
  by (cases d) (auto simp: droppable_def field_footprint_def footprint_def)

lemma enumerate_map_nth: "enumerate 0 xs = map (\<lambda>i. (i, xs ! i)) [0..<length xs]"
  by (rule nth_equalityI) (simp_all add: nth_enumerate_eq)

lemma fields_good_indices:
  assumes "fields_good fs a m"
  shows "sorted_wrt (\<lambda>i j. field_footprint a m (fs ! i) \<inter> field_footprint a m (fs ! j) = {}) [0..<length fs]"
proof -
  have "sorted_wrt (\<lambda>f g. field_footprint a m f \<inter> field_footprint a m g = {}) (map ((!) fs) [0..<length fs])"
    using assms by (simp add: fields_good_def map_nth)
  then show ?thesis by (simp add: sorted_wrt_map)
qed

text \<open>Both phases of the drop of a value: the body of \<open>drop\<close>, then the fields.\<close>

lemma drop_phases:
  assumes "\<forall>j < length fs. droppable (k j) (d j) (fs ! j) (e j)" "fields_good fs a m"
  shows "\<exists>m1 m'. for_each (\<lambda>j m. if k j \<and> \<not> d j then zeroize (lf_type (fs ! j)) (a + lf_offset (fs ! j)) m else Return m) [0..<length fs] m = Return m1 \<and>
    (\<forall>x. x \<notin> (\<Union>f \<in> set fs. field_footprint a m f) \<longrightarrow> m1 x = m x) \<and>
    for_each (\<lambda>j. drop_in_place (lf_type (fs ! j)) (a + lf_offset (fs ! j))) [0..<length fs] m1 = Return m' \<and>
    (\<forall>j < length fs. k j \<longrightarrow> (\<forall>x \<in> e j (a + lf_offset (fs ! j)) m. m' x = 0)) \<and>
    (\<forall>x. x \<notin> (\<Union>f \<in> set fs. field_footprint a m f) \<longrightarrow> m' x = m x)"
proof -
  let ?R = "\<lambda>j. field_footprint a m (fs ! j)"
  let ?ready = "\<lambda>j. drop_ready (k j) (d j) a m (fs ! j) (e j)"
  let ?start = "\<lambda>j. still_intact (k j) (d j) a m (fs ! j) (e j)"
  let ?erased = "\<lambda>j m'. k j \<longrightarrow> (\<forall>x \<in> e j (a + lf_offset (fs ! j)) m. m' x = 0)"
  have R: "(\<Union>j \<in> set [0..<length fs]. ?R j) = (\<Union>f \<in> set fs. field_footprint a m f)"
    by (auto simp: set_conv_nth)
  note sorted = fields_good_indices [OF assms(2)]
  have ok: "droppable (k j) (d j) (fs ! j) (e j)" if "j \<in> set [0..<length fs]" for j
    using assms(1) that by simp
  have good: "lf_good (fs ! j) (a + lf_offset (fs ! j)) m" if "j \<in> set [0..<length fs]" for j
    using assms(2) that by (simp add: fields_good_def)
  have "\<exists>m1. for_each (\<lambda>j m. if k j \<and> \<not> d j then zeroize (lf_type (fs ! j)) (a + lf_offset (fs ! j)) m else Return m) [0..<length fs] m = Return m1 \<and>
      (\<forall>j \<in> set [0..<length fs]. ?ready j m1) \<and> (\<forall>x. x \<notin> (\<Union>j \<in> set [0..<length fs]. ?R j) \<longrightarrow> m1 x = m x)"
  proof (rule for_each_disjoint [where P = ?start, OF _ _ _ sorted])
    show "\<forall>j \<in> set [0..<length fs]. ?start j m"
      using assms(2) by (simp add: fields_good_def field_intact_def still_intact_def)
    show "\<exists>m'. (if k j \<and> \<not> d j then zeroize (lf_type (fs ! j)) (a + lf_offset (fs ! j)) m'' else Return m'') = Return m' \<and>
        ?ready j m' \<and> (\<forall>x. x \<notin> ?R j \<longrightarrow> m' x = m'' x)" if "j \<in> set [0..<length fs]" "?start j m''" for j m''
      by (rule first_phase [OF ok]) (use that in simp_all)
  qed (rule still_intact_local [OF ok] drop_ready_local [OF ok]; assumption)+
  then obtain m1 where m1: "for_each (\<lambda>j m. if k j \<and> \<not> d j then zeroize (lf_type (fs ! j)) (a + lf_offset (fs ! j)) m else Return m) [0..<length fs] m = Return m1"
      "\<forall>j \<in> set [0..<length fs]. ?ready j m1" "\<forall>x. x \<notin> (\<Union>f \<in> set fs. field_footprint a m f) \<longrightarrow> m1 x = m x"
    unfolding R by blast
  have "\<exists>m'. for_each (\<lambda>j. drop_in_place (lf_type (fs ! j)) (a + lf_offset (fs ! j))) [0..<length fs] m1 = Return m' \<and>
      (\<forall>j \<in> set [0..<length fs]. ?erased j m') \<and> (\<forall>x. x \<notin> (\<Union>j \<in> set [0..<length fs]. ?R j) \<longrightarrow> m' x = m1 x)"
  proof (rule for_each_disjoint [where P = ?ready, OF _ _ _ sorted m1(2)])
    show "?erased j m''" if "j \<in> set [0..<length fs]" "?erased j m'" "agree m' m'' (?R j)" for j m' m''
    proof (intro impI ballI)
      fix x assume "k j" "x \<in> e j (a + lf_offset (fs ! j)) m"
      then show "m'' x = 0"
        using that droppable_within [OF _ good [OF that(1)]] ok [OF that(1)] by (fastforce simp: agree_def)
    qed
    show "\<exists>m'. drop_in_place (lf_type (fs ! j)) (a + lf_offset (fs ! j)) m'' = Return m' \<and>
        ?erased j m' \<and> (\<forall>x. x \<notin> ?R j \<longrightarrow> m' x = m'' x)" if "j \<in> set [0..<length fs]" "?ready j m''" for j m''
      by (rule second_phase [OF ok]) (use that in simp_all)
  qed (rule drop_ready_local [OF ok]; assumption)
  then show ?thesis using m1(1,3) unfolding R by auto
qed

lemma live_calls:
  "i < length (variants s) \<Longrightarrow>
   for_each (\<lambda>(j, t). f t (self + offset L i j)) (live_fields s i) m =
   (if kept (variant_attrs (variants s ! i)) then
      for_each (\<lambda>j m. if kept (field_attrs (bindings (variants s ! i) ! j))
                 then f (field_type (bindings (variants s ! i) ! j)) (self + offset L i j) m else Return m)
        [0..<length (bindings (variants s ! i))] m
    else Return m)"
  by (simp add: live_fields_def kept_fields_def enumerate_map_nth filter_map for_each_map for_each_filter case_prod_unfold comp_def)

text \<open>A field of type \<open>Zeroizing<Z>\<close> erases itself.\<close>

lemma zeroizing_droppable:
  assumes "zeroize_law Z good own"
  shows "droppable True True \<lparr>lf_offset = o', lf_type = zeroizing Z, lf_good = good, lf_own = own\<rparr> own"
  using zeroize_law.zeroizing_on_drop [OF assms] by (simp add: droppable_def)

text \<open>
  The two ways to a \<open>Drop\<close> implementation: \<open>zeroize(drop)\<close>, whose \<open>drop\<close> calls the derived
  \<open>zeroize\<close>, and \<open>derive(ZeroizeOnDrop)\<close>, which calls \<open>zeroize_or_on_drop\<close> on the fields.  Only the second leaves
  out the fields that are marked.
\<close>

definition generates_drop ::
  "(string \<Rightarrow> (string, 'p list) result) \<Rightarrow> (field_ty, 'p) Structure \<Rightarrow> string \<Rightarrow> (field_ty, 'p) impl list \<Rightarrow> bool" where
  "generates_drop pb s meth impls \<longleftrightarrow>
     meth = ''zeroize'' \<and> derive_zeroize pb s = Return impls \<and> 0 < flag_count ''drop'' (entries s) \<or>
     meth = ''zeroize_or_on_drop'' \<and> derive_zeroize_on_drop s = Return impls"

definition leaves_out :: "string \<Rightarrow> field_ty \<Rightarrow> bool" where
  "leaves_out meth t \<longleftrightarrow> meth = ''zeroize_or_on_drop'' \<and> fst t"

lemma on_drop_generates:
  "derive_zeroize_on_drop s = Return impls \<Longrightarrow> generates_drop (\<lambda>_. Err []) s ''zeroize_or_on_drop'' impls"
  by (simp add: generates_drop_def)

lemma derived_drop_live:
  assumes "generates_drop pb s meth impls" "active L self m < length (variants s)"
  shows "derived_drop L impls impls self m =
    for_each (\<lambda>(j, t). call_field meth t (self + offset L (active L self m) j)) (live_fields s (active L self m)) m"
  using assms(1) unfolding generates_drop_def
proof (elim disjE conjE)
  assume meth: "meth = ''zeroize''" and impls: "derive_zeroize pb s = Return impls" "0 < flag_count ''drop'' (entries s)"
  obtain r where "parse pb s = Return r" "attr_drop r"
    using derive_zeroize_drop [OF impls(1)] parse_flags impls(2) by blast
  then obtain w w' body where "impls = [Zeroize_impl w body, Drop_impl w' None]"
    using impls(1)
    by (auto simp: derive_zeroize_def derive_zeroize_with_drop_def derive_without_drop_Return Let_def)
  then have "derived_drop L impls impls self m = derived_zeroize L impls self m" by simp
  then show ?thesis
    using derived_zeroize_live [OF impls(1) assms(2)] by (simp add: meth call_field_zeroize case_prod_unfold)
next
  assume meth: "meth = ''zeroize_or_on_drop''" and impls: "derive_zeroize_on_drop s = Return impls"
  obtain body w where gen: "generate_fields s ''zeroize_or_on_drop'' = Return body"
    and eq: "impls = [Drop_impl w (Some body), ZeroizeOnDrop_impl w]"
    using impls by (auto simp: derive_zeroize_on_drop_def impl_zeroize_on_drop_def Let_def)
  then show ?thesis using run_match_live [OF gen assms(2)] by (simp add: meth)
qed

text \<open>The generated \<open>drop\<close> and the drops of the fields, on a value of variant \<open>i\<close>.\<close>

lemma derived_drop_fields:
  assumes "generates_drop pb s meth impls" and "active L self m = i" and "i < length (variants s)"
    and "kept (variant_attrs (variants s ! i))"
    and "length fs = length (bindings (variants s ! i))"
    and "\<forall>j < length fs. typed (fs ! j) = (offset L i j, snd (field_type (bindings (variants s ! i) ! j)))"
    and "\<forall>j < length fs. droppable (kept (field_attrs (bindings (variants s ! i) ! j)))
           (leaves_out meth (field_type (bindings (variants s ! i) ! j))) (fs ! j) (erased j)"
    and "fields_good fs self m"
    and "\<And>m'. (\<forall>x. x \<notin> (\<Union>f \<in> set fs. field_footprint self m f) \<longrightarrow> m' x = m x) \<Longrightarrow> active L self m' = i"
  shows "\<exists>m'. drop_in_place (derived_type L s impls) self m = Return m' \<and>
    (\<forall>j < length fs. kept (field_attrs (bindings (variants s ! i) ! j)) \<longrightarrow>
       (\<forall>x \<in> erased j (self + lf_offset (fs ! j)) m. m' x = 0)) \<and>
    (\<forall>x. x \<notin> (\<Union>f \<in> set fs. field_footprint self m f) \<longrightarrow> m' x = m x)"
proof -
  let ?b = "\<lambda>j. bindings (variants s ! i) ! j"
  let ?k = "\<lambda>j. kept (field_attrs (?b j))" and ?d = "\<lambda>j. leaves_out meth (field_type (?b j))"
  have ty: "lf_offset (fs ! j) = offset L i j" "lf_type (fs ! j) = snd (field_type (?b j))" if "j < length fs" for j
    using assms(6) that by (auto simp: typed_def)
  have meth: "meth = ''zeroize'' \<or> meth = ''zeroize_or_on_drop''" using assms(1) by (auto simp: generates_drop_def)
  obtain m1 m' where m1: "for_each (\<lambda>j m. if ?k j \<and> \<not> ?d j then zeroize (lf_type (fs ! j)) (self + lf_offset (fs ! j)) m else Return m) [0..<length fs] m = Return m1"
      "\<forall>x. x \<notin> (\<Union>f \<in> set fs. field_footprint self m f) \<longrightarrow> m1 x = m x"
    and m': "for_each (\<lambda>j. drop_in_place (lf_type (fs ! j)) (self + lf_offset (fs ! j))) [0..<length fs] m1 = Return m'"
      "\<forall>j < length fs. ?k j \<longrightarrow> (\<forall>x \<in> erased j (self + lf_offset (fs ! j)) m. m' x = 0)"
      "\<forall>x. x \<notin> (\<Union>f \<in> set fs. field_footprint self m f) \<longrightarrow> m' x = m x"
    using drop_phases [of fs ?k ?d erased self m] assms(7,8) by auto
  have "derived_drop L impls impls self m = for_each (\<lambda>(j, t). call_field meth t (self + offset L i j)) (live_fields s i) m"
    using derived_drop_live [OF assms(1)] assms(2,3) by simp
  also have "\<dots> = for_each (\<lambda>j m. if ?k j \<and> \<not> ?d j then zeroize (lf_type (fs ! j)) (self + lf_offset (fs ! j)) m else Return m) [0..<length fs] m"
    unfolding live_calls [OF assms(3)] using assms(4) meth
    by (auto simp: assms(5) [symmetric] ty call_field_def zeroize_or_on_drop_def leaves_out_def intro!: for_each_cong)
  finally have run: "derived_drop L impls impls self m = Return m1" using m1(1) by simp
  have "drop_glue L s self m1 = for_each (\<lambda>j. drop_in_place (lf_type (fs ! j)) (self + lf_offset (fs ! j))) [0..<length fs] m1"
    using assms(9) [OF m1(2)]
    by (auto simp: drop_glue_def Let_def enumerate_map_nth for_each_map assms(5) [symmetric] ty intro!: for_each_cong)
  then have "drop_in_place (derived_type L s impls) self m = Return m'"
    using run m'(1) by (simp add: derived_type_def)
  then show ?thesis using m'(2,3) by blast
qed

text \<open>
  An item with the derived implementation is again a type that keeps the promise of \<open>ZeroizeOnDrop\<close>, so that it can stand in arrays, vectors
  and further derived items.  Its good values have a variant that writing to the fields does not change.
\<close>

type_synonym marked_field = "lawful_field \<times> (nat \<Rightarrow> mem \<Rightarrow> nat set)"

definition item_good :: "item_layout \<Rightarrow> marked_field list list \<Rightarrow> nat \<Rightarrow> mem \<Rightarrow> bool" where
  "item_good L F a m \<longleftrightarrow>
     (let i = active L a m; fs = map fst (F ! i) in
      i < length F \<and> fields_good fs a m \<and>
      (\<forall>m'. (\<forall>x. x \<notin> (\<Union>f \<in> set fs. field_footprint a m f) \<longrightarrow> m' x = m x) \<longrightarrow> active L a m' = i))"

definition item_own :: "item_layout \<Rightarrow> marked_field list list \<Rightarrow> nat \<Rightarrow> mem \<Rightarrow> nat set" where
  "item_own L F a m = fields_own (map fst (F ! active L a m)) a m"

definition item_erased :: "(field_ty, 'p) Structure \<Rightarrow> item_layout \<Rightarrow> marked_field list list \<Rightarrow> nat \<Rightarrow> mem \<Rightarrow> nat set" where
  "item_erased s L F a m =
     (let i = active L a m in
      \<Union>j \<in> {j. j < length (F ! i) \<and> kept (field_attrs (bindings (variants s ! i) ! j))}.
        snd (F ! i ! j) (a + lf_offset (fst (F ! i ! j))) m)"

lemma droppable_erased_local:
  assumes "droppable True d f e" "lf_good f (a + lf_offset f) m" "agree m m' (field_footprint a m f)"
  shows "e (a + lf_offset f) m' = e (a + lf_offset f) m"
  using zeroize_on_drop.erased_local [of "lf_type f" "lf_good f" "lf_own f" e "a + lf_offset f" m m']
    field_local(2) [OF droppable_local [OF assms(1)] assms(2,3)] assms
  by (cases d) (simp_all add: droppable_def field_footprint_def)

text \<open>A variant that the fields do not change stays when the value is moved to a memory that agrees on it.\<close>

lemma item_tag_local:
  assumes tag: "\<And>m m'. agree m m' {a..<a + item_size L} \<Longrightarrow> active L a m' = active L a m"
    and stable: "\<And>m'. (\<forall>x. x \<notin> R \<longrightarrow> m' x = m x) \<Longrightarrow> active L a m' = i"
    and agree: "agree m m2 {a..<a + item_size L}" and m': "\<forall>x. x \<notin> R \<longrightarrow> m' x = m2 x"
  shows "active L a m' = i"
proof -
  let ?m = "\<lambda>x. if x \<in> R then m' x else m x"
  have "active L a ?m = i" by (rule stable) simp
  moreover have "agree ?m m' {a..<a + item_size L}" using agree m' by (auto simp: agree_def)
  ultimately show ?thesis using tag by metis
qed

text \<open>The fields of every variant as the layout and the item have them, none of the variants skipped, and a variant that only the bytes of the value decide.\<close>

definition item_ok :: "(field_ty, 'p) Structure \<Rightarrow> item_layout \<Rightarrow> marked_field list list \<Rightarrow> bool" where
  "item_ok s L F \<longleftrightarrow> length F = length (variants s) \<and>
     (\<forall>i < length F. length (F ! i) = length (bindings (variants s ! i)) \<and> kept (variant_attrs (variants s ! i)) \<and>
        fields_within (item_size L) (map fst (F ! i)) \<and>
        (\<forall>j < length (F ! i).
           typed (fst (F ! i ! j)) = (offset L i j, snd (field_type (bindings (variants s ! i) ! j))) \<and>
           droppable (kept (field_attrs (bindings (variants s ! i) ! j))) (fst (field_type (bindings (variants s ! i) ! j)))
             (fst (F ! i ! j)) (snd (F ! i ! j)))) \<and>
     (\<forall>a m m'. agree m m' {a..<a + item_size L} \<longrightarrow> active L a m' = active L a m)"

lemma item_ok_tag: "item_ok s L F \<Longrightarrow> agree m m' {a..<a + item_size L} \<Longrightarrow> active L a m' = active L a m"
  by (simp add: item_ok_def)

lemma item_ok_field:
  "item_ok s L F \<Longrightarrow> i < length F \<Longrightarrow> j < length (F ! i) \<Longrightarrow>
   droppable (kept (field_attrs (bindings (variants s ! i) ! j))) (fst (field_type (bindings (variants s ! i) ! j)))
     (fst (F ! i ! j)) (snd (F ! i ! j))"
  by (simp add: item_ok_def)

lemma item_goodD:
  "item_good L F a m \<Longrightarrow> \<exists>i fs. active L a m = i \<and> fs = map fst (F ! i) \<and> i < length F \<and> fields_good fs a m \<and>
    (\<forall>m'. (\<forall>x. x \<notin> (\<Union>f \<in> set fs. field_footprint a m f) \<longrightarrow> m' x = m x) \<longrightarrow> active L a m' = i)"
  unfolding item_good_def Let_def
  by (rule exI [of _ "active L a m"], rule exI [of _ "map fst (F ! active L a m)"])
     (elim conjE, intro conjI refl; assumption)

lemma item_footprint:
  assumes "item_ok s L F" "active L a m = i" "i < length F"
  shows "footprint (derived_type L s impls) (item_own L F) a m = {a..<a + item_size L} \<union> fields_own (map fst (F ! i)) a m"
      (is "?foot = _")
    and "f \<in> set (map fst (F ! i)) \<Longrightarrow>
      field_footprint a m f \<subseteq> footprint (derived_type L s impls) (item_own L F) a m"
    and "f \<in> set (map fst (F ! i)) \<Longrightarrow> field_is_local f"
proof -
  show eq: "footprint (derived_type L s impls) (item_own L F) a m = {a..<a + item_size L} \<union> fields_own (map fst (F ! i)) a m"
    by (simp add: footprint_def derived_type_def item_own_def assms(2))
  have "fields_within (item_size L) (map fst (F ! i))" using assms(1,3) by (simp add: item_ok_def)
  then show "f \<in> set (map fst (F ! i)) \<Longrightarrow> field_footprint a m f \<subseteq> footprint (derived_type L s impls) (item_own L F) a m"
    unfolding eq by (rule field_footprint_within)
  assume "f \<in> set (map fst (F ! i))"
  then obtain j where j: "j < length (F ! i)" "f = fst (F ! i ! j)" by (auto simp: in_set_conv_nth)
  then show "field_is_local f" using droppable_local [OF item_ok_field [OF assms(1,3)]] by blast
qed

lemma item_region:
  assumes ok: "item_ok s L F"
  shows "owned_region (derived_type L s impls) (item_good L F) (item_own L F)"
proof
  fix a m m'
  assume good: "item_good L F a m" and agree: "agree m m' (footprint (derived_type L s impls) (item_own L F) a m)"
  obtain i fs where i: "active L a m = i" "fs = map fst (F ! i)" "i < length F" "fields_good fs a m"
      "\<forall>m'. (\<forall>x. x \<notin> (\<Union>f \<in> set fs. field_footprint a m f) \<longrightarrow> m' x = m x) \<longrightarrow> active L a m' = i"
    using item_goodD [OF good] by (elim exE conjE) (rule that)
  let ?R = "\<Union>f \<in> set fs. field_footprint a m f"
  note foot = item_footprint [OF ok i(1,3), folded i(2)]
  have ag: "agree m m' {a..<a + item_size L}" using agree_mono [OF agree] unfolding foot(1) by blast
  then have act: "active L a m' = i" using item_ok_tag [OF ok] i(1) by simp
  have loc: "\<forall>f \<in> set fs. field_is_local f" "\<forall>f \<in> set fs. agree m m' (field_footprint a m f)"
    using foot(3) agree_mono [OF agree foot(2)] by blast+
  have "field_footprint a m' f = field_footprint a m f" if "f \<in> set fs" for f
    using field_local(3) [of f a m m'] loc that i(4) by (auto simp: fields_good_def)
  then have R: "(\<Union>f \<in> set fs. field_footprint a m' f) = ?R" by simp
  have "active L a m'' = i" if "\<forall>x. x \<notin> ?R \<longrightarrow> m'' x = m' x" for m''
    by (rule item_tag_local [where R = ?R and m = m, OF item_ok_tag [OF ok] i(5) [THEN spec, THEN mp] ag that])
  with fields_local [OF loc(1) i(4) loc(2)] i(3) R
  show "item_good L F a m' \<and> item_own L F a m' = item_own L F a m"
    unfolding item_good_def item_own_def Let_def act i(1) i(2) [symmetric] by simp
qed

lemma item_erased_bytes:
  assumes ok: "item_ok s L F" and good: "item_good L F a m"
  shows "agree m m' (footprint (derived_type L s impls) (item_own L F) a m) \<Longrightarrow> item_erased s L F a m' = item_erased s L F a m"
    and "item_erased s L F a m \<subseteq> footprint (derived_type L s impls) (item_own L F) a m"
proof -
  obtain i fs where i: "active L a m = i" "fs = map fst (F ! i)" "i < length F" "fields_good fs a m"
    using item_goodD [OF good] by (elim exE conjE) (rule that)
  note foot = item_footprint [OF ok i(1,3), folded i(2)]
  have field: "droppable True (fst (field_type (bindings (variants s ! i) ! j))) (fst (F ! i ! j)) (snd (F ! i ! j))"
      "lf_good (fst (F ! i ! j)) (a + lf_offset (fst (F ! i ! j))) m" "fst (F ! i ! j) \<in> set fs"
    if "j < length (F ! i)" "kept (field_attrs (bindings (variants s ! i) ! j))" for j
    using item_ok_field [OF ok i(3) that(1)] that i(2,4) by (simp_all add: fields_good_def)
  show "item_erased s L F a m' = item_erased s L F a m"
    if agree: "agree m m' (footprint (derived_type L s impls) (item_own L F) a m)"
  proof -
    have "agree m m' {a..<a + item_size L}" using agree_mono [OF agree] unfolding foot(1) by blast
    then have act: "active L a m' = i" using item_ok_tag [OF ok] i(1) by simp
    have "snd (F ! i ! j) (a + lf_offset (fst (F ! i ! j))) m' = snd (F ! i ! j) (a + lf_offset (fst (F ! i ! j))) m"
      if "j < length (F ! i)" "kept (field_attrs (bindings (variants s ! i) ! j))" for j
      using droppable_erased_local [OF field(1,2) [OF that]] agree_mono [OF agree foot(2) [OF field(3) [OF that]]] .
    then show ?thesis unfolding item_erased_def Let_def act i(1) by auto
  qed
  show "item_erased s L F a m \<subseteq> footprint (derived_type L s impls) (item_own L F) a m"
    unfolding item_erased_def Let_def i(1) using droppable_within [OF field(1,2)] foot(2) [OF field(3)] by blast
qed

lemma derived_on_drop:
  assumes impls: "derive_zeroize_on_drop s = Return impls" and ok: "item_ok s L F"
  shows "zeroize_on_drop (derived_type L s impls) (item_good L F) (item_own L F) (item_erased s L F)"
proof (intro zeroize_on_drop.intro zeroize_on_drop_axioms.intro item_region [OF ok] item_erased_bytes [OF ok])
  fix a m
  assume good: "item_good L F a m"
  obtain i fs where i: "active L a m = i" "fs = map fst (F ! i)" "i < length F" "fields_good fs a m"
      "\<forall>m'. (\<forall>x. x \<notin> (\<Union>f \<in> set fs. field_footprint a m f) \<longrightarrow> m' x = m x) \<longrightarrow> active L a m' = i"
    using item_goodD [OF good] by (elim exE conjE) (rule that)
  have len: "i < length (variants s)" using ok i(3) by (simp add: item_ok_def)
  have "\<exists>m'. drop_in_place (derived_type L s impls) a m = Return m' \<and>
      (\<forall>j < length fs. kept (field_attrs (bindings (variants s ! i) ! j)) \<longrightarrow>
         (\<forall>x \<in> snd (F ! i ! j) (a + lf_offset (fs ! j)) m. m' x = 0)) \<and>
      (\<forall>x. x \<notin> (\<Union>f \<in> set fs. field_footprint a m f) \<longrightarrow> m' x = m x)"
    by (rule derived_drop_fields [OF on_drop_generates [OF impls] i(1) len _ _ _ _ i(4) i(5) [THEN spec, THEN mp]])
      (use ok i(2,3) in \<open>simp_all add: item_ok_def leaves_out_def\<close>)
  moreover have "(\<Union>f \<in> set fs. field_footprint a m f) \<subseteq> footprint (derived_type L s impls) (item_own L F) a m"
    using item_footprint(2) [OF ok i(1,3)] i(2) by blast
  ultimately show "\<exists>m'. drop_in_place (derived_type L s impls) a m = Return m' \<and> (\<forall>x \<in> item_erased s L F a m. m' x = 0) \<and>
      (\<forall>x. x \<notin> footprint (derived_type L s impls) (item_own L F) a m \<longrightarrow> m' x = m x)"
    unfolding item_erased_def Let_def i(1) by (fastforce simp: i(2))
qed

text \<open>A vector of derived items, for instance.\<close>

lemma derived_items_in_vec:
  assumes "derive_zeroize_on_drop s = Return impls" "item_ok s L F"
    and "vec_good VL (derived_type L s impls) (item_good L F) (item_own L F) a m"
  shows "\<exists>m'. drop_in_place (vec_of VL (derived_type L s impls)) a m = Return m' \<and>
    (\<forall>x \<in> vec_erased VL (derived_type L s impls) (item_erased s L F) a m. m' x = 0)"
  using zeroize_on_drop.vec_erases [OF derived_on_drop [OF assms(1,2)] assms(3)] by blast

section \<open>Properties\<close>

text \<open>
  (C8) What \<open>derive(Zeroize)\<close> generates erases the value.  For a struct or an enum, whatever its layout: on a value of
  variant \<open>i\<close> whose fields that are not skipped keep the contract of \<open>zeroize\<close>, the generated code returns, everything these fields own is
  zero, and nothing but these fields and what they own is written.
\<close>

theorem derived_zeroize_clears:
  assumes "derive_zeroize pb s = Return impls" and "active L self m = i" and "i < length (variants s)"
    and "map typed fs = map (\<lambda>(j, t). (offset L i j, snd t)) (live_fields s i)"
    and "\<forall>f \<in> set fs. lawful f" and "fields_good fs self m"
  shows "\<exists>m'. zeroize (derived_type L s impls) self m = Return m' \<and> (\<forall>x \<in> fields_own fs self m. m' x = 0) \<and>
    (\<forall>x. x \<notin> (\<Union>f \<in> set fs. field_footprint self m f) \<longrightarrow> m' x = m x)"
proof -
  have "tuple_fields zeroize (map (\<lambda>(j, t). (offset L i j, snd t)) ts) self m =
      for_each (\<lambda>(j, t). zeroize (snd t) (self + offset L i j)) ts m" for ts :: "(nat \<times> field_ty) list" and m
    by (induction ts arbitrary: m) (auto cong: and_then_cong)
  then have "zeroize (derived_type L s impls) self m = tuple_fields zeroize (map typed fs) self m"
    using derived_zeroize_live [OF assms(1), of L self m] assms(2,3,4) by (simp add: derived_type_def)
  then show ?thesis using fields_clear [OF assms(5,6)] by auto
qed

theorem derived_zeroize_clears_witness:
  "\<exists>impls m'. derive_zeroize (\<lambda>_. Ok [()])
       \<lparr>ast_attrs = [], variants = [\<lparr>prefix = None, variant_attrs = [], bindings = [\<lparr>field_attrs = [], field_type = (False, u8_type)\<rparr>,
          \<lparr>field_attrs = [], field_type = (False, string_type usize_layout)\<rparr>]\<rparr>],
        infer_bounds = True, where_predicates = []\<rparr> = Return impls \<and>
     zeroize (derived_type \<lparr>item_size = 32, active = (\<lambda>_ _. 0), offset = (\<lambda>_ j. 8 * j)\<rparr>
       \<lparr>ast_attrs = [], variants = [\<lparr>prefix = None, variant_attrs = [], bindings = [\<lparr>field_attrs = [], field_type = (False, u8_type)\<rparr>,
          \<lparr>field_attrs = [], field_type = (False, string_type usize_layout)\<rparr>]\<rparr>],
        infer_bounds = True, where_predicates = []\<rparr> impls) 0
       (poke (\<lambda>_. 9) 8 (write_header usize_layout \<lparr>vec_ptr = 100, vec_cap = 4, vec_len = 3\<rparr>)) = Return m' \<and> m' 103 = 0"
proof -
  define v where "v = \<lparr>vec_ptr = 100, vec_cap = 4, vec_len = 3\<rparr>"
  define m where "m = poke (\<lambda>_. 9) 8 (write_header usize_layout v)"
  define L where "L = \<lparr>item_size = 32, active = (\<lambda>_ _. 0), offset = (\<lambda>_ j. 8 * j)\<rparr>"
  define s :: "(field_ty, unit) Structure" where
    "s = \<lparr>ast_attrs = [], variants = [\<lparr>prefix = None, variant_attrs = [], bindings = [\<lparr>field_attrs = [], field_type = (False, u8_type)\<rparr>,
          \<lparr>field_attrs = [], field_type = (False, string_type usize_layout)\<rparr>]\<rparr>], infer_bounds = True, where_predicates = []\<rparr>"
  define f where "f = \<lparr>lf_offset = 0, lf_type = u8_type, lf_good = always_good, lf_own = owns_nothing\<rparr>"
  define g where "g = \<lparr>lf_offset = 8, lf_type = string_type usize_layout,
    lf_good = vec_good usize_layout u8_type always_good owns_nothing, lf_own = vec_own usize_layout u8_type owns_nothing\<rparr>"
  have "returns (derive_zeroize (\<lambda>_. Ok [()]) s)"
    by (simp add: returns_derive_zeroize returns_parse generate_fields_eq(1) s_def visited_def entries_def skip_legal_def skip_count_def)
  then obtain impls where impls: "derive_zeroize (\<lambda>_. Ok [()]) s = Return impls" by (auto simp: returns_iff)
  have fits: "vec_fits v" by (simp add: vec_fits_def v_def usize_MAX_def)
  have load: "load_vec usize_layout 8 m = v" unfolding m_def by (rule load_vec_write [OF usize_layout_ok fits])
  have sz: "size_of u8_type = 1" "size_of (string_type usize_layout) = 24" "header_size usize_layout = 24"
    by (simp_all add: u8_type_def default_is_zeroes_def string_type_def vec_of_def usize_layout_def)
  have own: "vec_own usize_layout u8_type owns_nothing 8 m = {100..<104}" by (simp add: vec_own_def load sz v_def)
  have good: "vec_good usize_layout u8_type always_good owns_nothing 8 m"
    unfolding vec_good_def Let_def own load using fits by (simp add: v_def sz isize_MAX_def slice_good_flat)
  have "lawful f" "lawful g"
    using u8_law.zeroize_law_axioms string_type_law [OF usize_layout_ok] by (simp_all add: lawful_def f_def g_def)
  moreover have "fields_good [f, g] 0 m"
    using good by (simp add: fields_good_def f_def g_def always_good_def field_footprint_def footprint_def owns_nothing_def own sz)
  moreover have "map typed [f, g] = map (\<lambda>(j, t). (offset L 0 j, snd t)) (live_fields s 0)"
    by (simp add: typed_def f_def g_def L_def s_def live_fields_def kept_def skip_count_def kept_fields_def)
  ultimately have "\<exists>m'. zeroize (derived_type L s impls) 0 m = Return m' \<and> (\<forall>x \<in> fields_own [f, g] 0 m. m' x = 0) \<and>
      (\<forall>x. x \<notin> (\<Union>f \<in> set [f, g]. field_footprint 0 m f) \<longrightarrow> m' x = m x)"
    by (intro derived_zeroize_clears [OF impls]) (simp_all add: L_def s_def)
  moreover have "103 \<in> fields_own [f, g] 0 m" by (simp add: fields_own_def g_def own)
  ultimately show ?thesis using impls unfolding s_def L_def m_def v_def by blast
qed

text \<open>
  (C17) What the macros generate erases the value when it is dropped, both by \<open>derive(Zeroize)\<close> with
  \<open>zeroize(drop)\<close> (\<open>meth\<close> is \<open>zeroize\<close>) and by \<open>derive(ZeroizeOnDrop)\<close> (\<open>meth\<close> is
  \<open>zeroize_or_on_drop\<close>).  On a value whose variant is not skipped, the body of \<open>drop\<close> and then the drops of the fields return.  Of
  the fields that are not skipped, everything is zero that the fields own which \<open>drop\<close> zeroizes; with
  \<open>derive(ZeroizeOnDrop)\<close> the fields marked \<open>ZeroizeOnDrop\<close> themselves are left to their own drop, and everything
  is zero that they promise to erase.  Nothing but the fields and what they own is written.  The layout keeps
  the variant outside of the fields: writing to them does not change it.
\<close>

theorem derived_drop_erases:
  assumes "generates_drop pb s meth impls" and "active L self m = i" and "i < length (variants s)"
    and "kept (variant_attrs (variants s ! i))"
    and "length fs = length (bindings (variants s ! i))"
    and "\<forall>j < length fs. typed (fs ! j) = (offset L i j, snd (field_type (bindings (variants s ! i) ! j)))"
    and "\<forall>j < length fs. droppable (kept (field_attrs (bindings (variants s ! i) ! j)))
           (leaves_out meth (field_type (bindings (variants s ! i) ! j))) (fs ! j) (erased j)"
    and "fields_good fs self m"
    and "\<And>m'. (\<forall>x. x \<notin> (\<Union>f \<in> set fs. field_footprint self m f) \<longrightarrow> m' x = m x) \<Longrightarrow> active L self m' = i"
  shows "\<exists>m'. drop_in_place (derived_type L s impls) self m = Return m' \<and>
    (\<forall>j < length fs. kept (field_attrs (bindings (variants s ! i) ! j)) \<longrightarrow>
       (\<forall>x \<in> erased j (self + lf_offset (fs ! j)) m. m' x = 0)) \<and>
    (\<forall>x. x \<notin> (\<Union>f \<in> set fs. field_footprint self m f) \<longrightarrow> m' x = m x)"
  using derived_drop_fields [OF assms(1-8)] assms(9) by blast

definition one_field :: "attribute list \<Rightarrow> field_ty \<Rightarrow> (field_ty, unit) Structure" where
  "one_field attrs t = \<lparr>ast_attrs = attrs, variants = [\<lparr>prefix = None, variant_attrs = attrs, bindings = [\<lparr>field_attrs = [], field_type = t\<rparr>]\<rparr>],
     infer_bounds = True, where_predicates = []\<rparr>"

definition drop_flag :: attribute where
  "drop_flag = Some (MetaList [''zeroize''] [NMeta (MetaPath [''drop''])])"

definition one_layout :: item_layout where
  "one_layout = \<lparr>item_size = 24, active = (\<lambda>_ _. 0), offset = (\<lambda>_ _. 0)\<rparr>"

definition secret_mem :: mem where
  "secret_mem = poke (\<lambda>_. 9) 8 (write_header usize_layout \<lparr>vec_ptr = 100, vec_cap = 4, vec_len = 3\<rparr>)"

lemma secret_string:
  shows "vec_own usize_layout u8_type owns_nothing 8 secret_mem = {100..<104}"
    and "vec_good usize_layout u8_type always_good owns_nothing 8 secret_mem"
proof -
  define v where "v = \<lparr>vec_ptr = 100, vec_cap = 4, vec_len = 3\<rparr>"
  have fits: "vec_fits v" by (simp add: vec_fits_def v_def usize_MAX_def)
  have load: "load_vec usize_layout 8 secret_mem = v"
    unfolding secret_mem_def v_def [symmetric] by (rule load_vec_write [OF usize_layout_ok fits])
  have sz: "size_of u8_type = 1" "header_size usize_layout = 24"
    by (simp_all add: u8_type_def default_is_zeroes_def usize_layout_def)
  show own: "vec_own usize_layout u8_type owns_nothing 8 secret_mem = {100..<104}"
    by (simp add: vec_own_def load sz v_def)
  show "vec_good usize_layout u8_type always_good owns_nothing 8 secret_mem"
    unfolding vec_good_def Let_def own load using fits by (simp add: v_def sz isize_MAX_def slice_good_flat)
qed

lemma one_field_derives:
  "\<exists>impls. generates_drop (\<lambda>_. Ok [()]) (one_field [drop_flag] t) ''zeroize'' impls"
  "\<exists>impls. generates_drop (\<lambda>_. Ok [()]) (one_field [] t) ''zeroize_or_on_drop'' impls"
proof -
  note defs = one_field_def drop_flag_def visited_def entries_def zeroize_nested_def entry_legal_def is_flag_def is_ident_def
    ZEROIZE_ATTR_def skip_legal_def skip_count_def
  have "returns (derive_zeroize (\<lambda>_. Ok [()]) (one_field [drop_flag] t))"
    by (simp add: returns_derive_zeroize returns_parse generate_fields_eq(1) defs)
  then show "\<exists>impls. generates_drop (\<lambda>_. Ok [()]) (one_field [drop_flag] t) ''zeroize'' impls"
    by (auto simp: returns_iff generates_drop_def) (simp add: defs)
  have "returns (generate_fields (one_field [] t) ''zeroize_or_on_drop'')" by (simp add: generate_fields_eq(1) defs)
  then show "\<exists>impls. generates_drop (\<lambda>_. Ok [()]) (one_field [] t) ''zeroize_or_on_drop'' impls"
    by (auto simp: returns_iff generates_drop_def derive_zeroize_on_drop_def Let_def)
qed

theorem derived_drop_erases_witness:
  "(\<exists>impls m'. generates_drop (\<lambda>_. Ok [()]) (one_field [drop_flag] (False, string_type usize_layout)) ''zeroize'' impls \<and>
     drop_in_place (derived_type one_layout (one_field [drop_flag] (False, string_type usize_layout)) impls) 8 secret_mem = Return m' \<and>
     m' 103 = 0) \<and>
   (\<exists>impls m'. generates_drop (\<lambda>_. Ok [()]) (one_field [] (True, zeroizing (string_type usize_layout))) ''zeroize_or_on_drop'' impls \<and>
     drop_in_place (derived_type one_layout (one_field [] (True, zeroizing (string_type usize_layout))) impls) 8 secret_mem = Return m' \<and>
     m' 103 = 0)"
proof -
  define f where "f ty = \<lparr>lf_offset = 0, lf_type = ty,
    lf_good = vec_good usize_layout u8_type always_good owns_nothing, lf_own = vec_own usize_layout u8_type owns_nothing\<rparr>" for ty
  have drops: "\<exists>m'. drop_in_place (derived_type one_layout (one_field attrs t) impls) 8 secret_mem = Return m' \<and> m' 103 = 0"
    if "generates_drop (\<lambda>_. Ok [()]) (one_field attrs t) meth impls" "skip_count attrs = 0"
      "droppable True (leaves_out meth t) (f (snd t)) (lf_own (f (snd t)))" for attrs t meth impls
  proof -
    have "fields_good [f (snd t)] 8 secret_mem" using secret_string(2) by (simp add: fields_good_def f_def)
    then have "\<exists>m'. drop_in_place (derived_type one_layout (one_field attrs t) impls) 8 secret_mem = Return m' \<and>
        (\<forall>j < length [f (snd t)]. kept (field_attrs (bindings (variants (one_field attrs t) ! 0) ! j)) \<longrightarrow>
           (\<forall>x \<in> lf_own (f (snd t)) (8 + lf_offset ([f (snd t)] ! j)) secret_mem. m' x = 0)) \<and>
        (\<forall>x. x \<notin> (\<Union>f \<in> set [f (snd t)]. field_footprint 8 secret_mem f) \<longrightarrow> m' x = secret_mem x)"
      using that(2,3) by (intro derived_drop_erases [OF that(1), where erased = "\<lambda>_. lf_own (f (snd t))"])
        (simp_all add: one_layout_def one_field_def kept_def typed_def f_def skip_count_def)
    moreover have "103 \<in> lf_own (f (snd t)) 8 secret_mem" by (simp add: f_def secret_string(1))
    ultimately show ?thesis by (auto simp: one_field_def kept_def skip_count_def f_def)
  qed
  have law: "zeroize_law (string_type usize_layout) (lf_good (f ty)) (lf_own (f ty))" for ty
    unfolding f_def lawful_field.simps by (rule string_type_law [OF usize_layout_ok])
  have "droppable True (leaves_out ''zeroize'' (False, string_type usize_layout)) (f (string_type usize_layout)) (lf_own (f (string_type usize_layout)))"
    using law by (simp add: droppable_def leaves_out_def lawful_def f_def)
  moreover have "droppable True (leaves_out ''zeroize_or_on_drop'' (True, zeroizing (string_type usize_layout)))
      (f (zeroizing (string_type usize_layout))) (lf_own (f (zeroizing (string_type usize_layout))))"
    using zeroizing_droppable [OF law, of 0] by (simp add: leaves_out_def f_def)
  ultimately show ?thesis
    using one_field_derives(1) [of "(False, string_type usize_layout)"] one_field_derives(2) [of "(True, zeroizing (string_type usize_layout))"]
      drops [of "[drop_flag]" "(False, string_type usize_layout)" "''zeroize''"]
      drops [of "[]" "(True, zeroizing (string_type usize_layout))" "''zeroize_or_on_drop''"]
    by (simp add: skip_count_def drop_flag_def zeroize_nested_def is_ident_def ZEROIZE_ATTR_def) blast
qed

text \<open>
  Two attribute mistakes go unnoticed and leave secrets in memory or surprise.  \<open>derive(ZeroizeOnDrop)\<close> does not validate
  attributes: with \<open>#[zeroize(skip)]\<close> on the struct itself, where \<open>derive(Zeroize)\<close> panics, it generates a \<open>drop\<close> without arms,
  which erases nothing.  And \<open>skip\<close> with a value is accepted on a field but does not skip it.
\<close>

theorem derive_misses_mistakes:
  fixes s :: "(field_ty, 'p) Structure"
  assumes "ast_attrs s = [Some (MetaList [''zeroize''] [NMeta (MetaPath [''skip''])])]"
    and "variants s = [\<lparr>prefix = None, variant_attrs = ast_attrs s, bindings = bs\<rparr>]"
    and "\<forall>b \<in> set bs. skip_count (field_attrs b) = 0"
  shows "\<not> returns (derive_zeroize pb s) \<and>
    (\<exists>w body. derive_zeroize_on_drop s = Return [Drop_impl w (Some body), ZeroizeOnDrop_impl w] \<and>
       (\<forall>L self m. run_match L body self m = Return m)) \<and>
    entry_legal pb (Some v, Some b, NMeta (MetaNameValue [''skip''] l)) \<and>
    kept [Some (MetaList [''zeroize''] [NMeta (MetaNameValue [''skip''] l)])]"
proof -
  have count: "skip_count (ast_attrs s) = 1" by (simp add: assms(1) skip_count_def zeroize_nested_def is_ident_def ZEROIZE_ATTR_def)
  have "entries s = (None, None, NMeta (MetaPath [''skip''])) # tl (entries s)"
    unfolding entries_def visited_def assms(1) by (simp add: zeroize_nested_def is_ident_def ZEROIZE_ATTR_def)
  then have "(None, None, NMeta (MetaPath [''skip''])) \<in> set (entries s)" by (metis list.set_intros(1))
  moreover have "\<not> entry_legal pb (None :: field_ty variant option, None, NMeta (MetaPath [''skip'']))"
    by (simp add: entry_legal_def is_flag_def is_ident_def)
  ultimately have "\<not> (\<forall>e \<in> set (entries s). entry_legal pb e)" by blast
  then have "\<not> returns (derive_zeroize pb s)"
    by (simp add: returns_derive_zeroize returns_parse)
  moreover have legal: "\<forall>v \<in> set (variants s). skip_legal v"
    using assms(3) count by (simp add: assms(2) skip_legal_def)
  have "generate_fields s ''zeroize_or_on_drop'' =
      Return \<lparr>call_method = ''zeroize_or_on_drop'', arms = [], omitted_variants = True\<rparr>"
    unfolding generate_fields_eq(2) [OF legal] expected_arms_def using count by (simp add: assms(2) kept_def)
  then have "derive_zeroize_on_drop s = Return [Drop_impl (where_of (s\<lparr>infer_bounds := False\<rparr>))
      (Some \<lparr>call_method = ''zeroize_or_on_drop'', arms = [], omitted_variants = True\<rparr>),
      ZeroizeOnDrop_impl (where_of (s\<lparr>infer_bounds := False\<rparr>))]"
    by (simp add: derive_zeroize_on_drop_def impl_zeroize_on_drop_def Let_def)
  moreover have "run_match L \<lparr>call_method = ''zeroize_or_on_drop'', arms = [], omitted_variants = True\<rparr> self m = Return m" for L self m
    by (simp add: run_match_def)
  ultimately have "\<not> returns (derive_zeroize pb s) \<and>
      (\<exists>w body. derive_zeroize_on_drop s = Return [Drop_impl w (Some body), ZeroizeOnDrop_impl w] \<and>
         (\<forall>L self m. run_match L body self m = Return m))" by blast
  then show ?thesis
    by (simp add: entry_legal_def is_flag_def is_ident_def kept_def skip_count_def zeroize_nested_def ZEROIZE_ATTR_def)
qed

theorem derive_misses_mistakes_witness:
  "\<not> returns (derive_zeroize (\<lambda>_. Err [] :: (string, unit list) result)
      \<lparr>ast_attrs = [Some (MetaList [''zeroize''] [NMeta (MetaPath [''skip''])])],
       variants = [\<lparr>prefix = None, variant_attrs = [Some (MetaList [''zeroize''] [NMeta (MetaPath [''skip''])])],
         bindings = [\<lparr>field_attrs = [], field_type = (False, u8_type)\<rparr>]\<rparr>],
       infer_bounds = True, where_predicates = []\<rparr>)"
  by (rule derive_misses_mistakes [where bs = "[\<lparr>field_attrs = [], field_type = (False, u8_type)\<rparr>]", THEN conjunct1])
     (simp_all add: skip_count_def)

end
