(* ===== verification/Block_Buffer.thy ===== *)
theory Block_Buffer
  imports Rust_Prelude
begin

text \<open>
  The crate \<^verbatim>\<open>block-buffer\<close>: \<open>BlockBuffer\<close>, a fixed-size buffer that cuts an input stream into
  blocks.  The buffer kinds \<open>Eager\<close> and \<open>Lazy\<close> implement the sealed trait of \<^verbatim>\<open>sealed.rs\<close>; the
  trait is a record of its functions and each kind is a value of that record, passed to the
  operations of \<open>BlockBuffer<BS, K>\<close> together with the block size \<open>BS::USIZE\<close>.

  The bound \<open>BS: BlockSizes\<close> of the crate \<^verbatim>\<open>crypto-common\<close> admits the sizes 1 to 255 only
  (\<open>block_sizes\<close> below), which makes \<open>as u8\<close> on a position lossless.

  A closure \<open>impl FnMut(&[Block])\<close> is a state transformer on the captured state.  It returns; where it panics instead
  is the subject of a section of its own, which lists the states in which a panic can leave the buffer.
\<close>

section \<open>Data\<close>

datatype Error = Error

record 'p sealed =
  K_get_pos :: "bytes \<Rightarrow> 'p \<Rightarrow> nat outcome"
  K_set_pos :: "bytes \<Rightarrow> 'p \<Rightarrow> nat \<Rightarrow> (bytes \<times> 'p) outcome"
  K_invariant :: "nat \<Rightarrow> nat \<Rightarrow> bool"
  K_split_blocks :: "nat \<Rightarrow> bytes \<Rightarrow> bytes list \<times> bytes"
  K_default_pos :: 'p

record 'p block_buffer =
  buffer :: bytes
  pos :: 'p

definition block_sizes :: "nat \<Rightarrow> bool" where
  "block_sizes bs \<longleftrightarrow> 0 < bs \<and> bs < 256"

section \<open>Buffer kinds\<close>

definition eager_get_pos :: "bytes \<Rightarrow> unit \<Rightarrow> nat outcome" where
  "eager_get_pos buf _ =
     and_then (checked_sub (length buf) 1) (\<lambda>l.
     and_then (index_at buf l) (\<lambda>b. Return (unat b)))"

definition eager_set_pos :: "bytes \<Rightarrow> unit \<Rightarrow> nat \<Rightarrow> (bytes \<times> unit) outcome" where
  "eager_set_pos buf p val =
     and_then (rust_assert (val \<le> 255) Assert_Failed) (\<lambda>_.
     and_then (checked_sub (length buf) 1) (\<lambda>l.
     and_then (set_at buf l (of_nat val)) (\<lambda>buf'. Return (buf', p))))"

definition eager_invariant :: "nat \<Rightarrow> nat \<Rightarrow> bool" where
  "eager_invariant p block_size \<longleftrightarrow> p < block_size"

definition eager_split_blocks :: "nat \<Rightarrow> bytes \<Rightarrow> bytes list \<times> bytes" where
  "eager_split_blocks n data =
     (let nb = length data div n;
          blocks_len = nb * n;
          tail_len = length data - blocks_len
      in (chunks_of n nb data, take tail_len (drop blocks_len data)))"

definition lazy_get_pos :: "bytes \<Rightarrow> u8 \<Rightarrow> nat outcome" where
  "lazy_get_pos _ p = Return (unat p)"

definition lazy_set_pos :: "bytes \<Rightarrow> u8 \<Rightarrow> nat \<Rightarrow> (bytes \<times> u8) outcome" where
  "lazy_set_pos buf _ val =
     and_then (rust_assert (val \<le> 255) Assert_Failed) (\<lambda>_. Return (buf, of_nat val))"

definition lazy_invariant :: "nat \<Rightarrow> nat \<Rightarrow> bool" where
  "lazy_invariant p block_size \<longleftrightarrow> p \<le> block_size"

definition lazy_split_blocks :: "nat \<Rightarrow> bytes \<Rightarrow> bytes list \<times> bytes" where
  "lazy_split_blocks n data =
     (if data = [] then ([], [])
      else
        let (nb, tail_len) =
              (if length data mod n = 0 then (length data div n - 1, n)
               else let nb = length data div n in (nb, length data - nb * n));
            blocks_len = nb * n
        in (chunks_of n nb data, take tail_len (drop blocks_len data)))"

definition Eager :: "unit sealed" where
  "Eager = \<lparr>K_get_pos = eager_get_pos, K_set_pos = eager_set_pos,
            K_invariant = eager_invariant, K_split_blocks = eager_split_blocks,
            K_default_pos = ()\<rparr>"

definition Lazy :: "u8 sealed" where
  "Lazy = \<lparr>K_get_pos = lazy_get_pos, K_set_pos = lazy_set_pos,
           K_invariant = lazy_invariant, K_split_blocks = lazy_split_blocks,
           K_default_pos = 0\<rparr>"

section \<open>Operations of every kind\<close>

definition Error_fmt :: "Error \<Rightarrow> string" where
  "Error_fmt self = ''Block buffer error''"

definition bb_default :: "'p sealed \<Rightarrow> nat \<Rightarrow> 'p block_buffer" where
  "bb_default K bs = \<lparr>buffer = replicate bs 0, pos = K_default_pos K\<rparr>"

definition bb_clone :: "'p block_buffer \<Rightarrow> 'p block_buffer" where
  "bb_clone self = \<lparr>buffer = buffer self, pos = pos self\<rparr>"

definition bb_get_pos :: "'p sealed \<Rightarrow> nat \<Rightarrow> 'p block_buffer \<Rightarrow> nat outcome" where
  "bb_get_pos K bs self =
     and_then (K_get_pos K (buffer self) (pos self)) (\<lambda>p.
       if \<not> K_invariant K p bs then Panic Undefined_Behaviour else Return p)"

definition set_pos_unchecked ::
  "'p sealed \<Rightarrow> nat \<Rightarrow> 'p block_buffer \<Rightarrow> nat \<Rightarrow> 'p block_buffer outcome" where
  "set_pos_unchecked K bs self p =
     and_then (rust_assert (K_invariant K p bs) Assert_Failed) (\<lambda>_.
     and_then (K_set_pos K (buffer self) (pos self) p) (\<lambda>(b, q).
       Return (self\<lparr>buffer := b, pos := q\<rparr>)))"

definition try_new ::
  "'p sealed \<Rightarrow> nat \<Rightarrow> bytes \<Rightarrow> (Error, 'p block_buffer) result outcome" where
  "try_new K bs buf =
     (let p = length buf in
      if \<not> K_invariant K p bs then Return (Err Error)
      else
        let res = bb_default K bs in
        and_then (copy_at (buffer res) 0 p buf) (\<lambda>b.
        and_then (K_set_pos K b (pos res) p) (\<lambda>(b', q).
          Return (Ok (res\<lparr>buffer := b', pos := q\<rparr>)))))"

definition bb_new :: "'p sealed \<Rightarrow> nat \<Rightarrow> bytes \<Rightarrow> 'p block_buffer outcome" where
  "bb_new K bs buf = and_then (try_new K bs buf) unwrap"

definition digest_blocks ::
  "'p sealed \<Rightarrow> nat \<Rightarrow> ('s \<Rightarrow> bytes list \<Rightarrow> 's) \<Rightarrow> 'p block_buffer \<Rightarrow> bytes \<Rightarrow> 's
     \<Rightarrow> ('p block_buffer \<times> 's) outcome" where
  "digest_blocks K bs compress self input s =
     and_then (bb_get_pos K bs self) (\<lambda>p.
     and_then (checked_sub bs p) (\<lambda>rem.
       let n = length input in
       if K_invariant K n rem then
         and_then (copy_at (buffer self) p (p + n) input) (\<lambda>b.
         and_then (set_pos_unchecked K bs (self\<lparr>buffer := b\<rparr>) (p + n)) (\<lambda>self'.
           Return (self', s)))
       else
         and_then
           (if p \<noteq> 0 then
              and_then (split_at input rem) (\<lambda>(left, right).
              and_then (copy_at (buffer self) p (length (buffer self)) left) (\<lambda>b.
                Return (self\<lparr>buffer := b\<rparr>, right, compress s [b])))
            else Return (self, input, s))
           (\<lambda>(self, input, s).
             let (blocks, leftover) = K_split_blocks K bs input;
                 s = (if blocks \<noteq> [] then compress s blocks else s);
                 n = length leftover
             in and_then (copy_at (buffer self) 0 n leftover) (\<lambda>b.
                and_then (set_pos_unchecked K bs (self\<lparr>buffer := b\<rparr>) n) (\<lambda>self'.
                  Return (self', s))))))"

definition bb_reset :: "'p sealed \<Rightarrow> nat \<Rightarrow> 'p block_buffer \<Rightarrow> 'p block_buffer outcome" where
  "bb_reset K bs self = set_pos_unchecked K bs self 0"

definition pad_with_zeros ::
  "'p sealed \<Rightarrow> nat \<Rightarrow> 'p block_buffer \<Rightarrow> (bytes \<times> 'p block_buffer) outcome" where
  "pad_with_zeros K bs self =
     and_then (bb_get_pos K bs self) (\<lambda>p.
     and_then (fill_range (buffer self) p (length (buffer self)) 0) (\<lambda>res.
     and_then (set_pos_unchecked K bs self 0) (\<lambda>self'. Return (res, self'))))"

definition get_data :: "'p sealed \<Rightarrow> nat \<Rightarrow> 'p block_buffer \<Rightarrow> bytes outcome" where
  "get_data K bs self = and_then (bb_get_pos K bs self) (\<lambda>p. slice_to (buffer self) p)"

definition bb_set ::
  "'p sealed \<Rightarrow> nat \<Rightarrow> 'p block_buffer \<Rightarrow> bytes \<Rightarrow> nat \<Rightarrow> 'p block_buffer outcome" where
  "bb_set K bs self buf p =
     and_then (rust_assert (K_invariant K p bs) Assert_Failed) (\<lambda>_.
       set_pos_unchecked K bs (self\<lparr>buffer := buf\<rparr>) p)"

definition bb_remaining :: "'p sealed \<Rightarrow> nat \<Rightarrow> 'p block_buffer \<Rightarrow> nat outcome" where
  "bb_remaining K bs self = and_then (bb_get_pos K bs self) (\<lambda>p. checked_sub bs p)"

section \<open>Operations of the eager buffer\<close>

definition digest_pad ::
  "nat \<Rightarrow> ('s \<Rightarrow> bytes \<Rightarrow> 's) \<Rightarrow> unit block_buffer \<Rightarrow> u8 \<Rightarrow> bytes \<Rightarrow> 's
     \<Rightarrow> (unit block_buffer \<times> 's) outcome" where
  "digest_pad bs compress self delim suffix s =
     (if length suffix > bs then Panic (Message ''suffix is too long'')
      else
        and_then (bb_get_pos Eager bs self) (\<lambda>p.
        and_then (set_at (buffer self) p delim) (\<lambda>b.
        and_then (fill_range b (p + 1) (length b) 0) (\<lambda>b.
        and_then (checked_sub bs (length suffix)) (\<lambda>n.
        and_then (checked_sub bs p) (\<lambda>r.
        and_then (checked_sub r 1) (\<lambda>r.
        and_then
          (if r < length suffix then
             and_then (copy_at (replicate bs 0) n bs suffix) (\<lambda>block.
               Return (b, compress (compress s b) block))
           else
             and_then (copy_at b n (length b) suffix) (\<lambda>b.
               Return (b, compress s b)))
          (\<lambda>(b, s).
             and_then (set_pos_unchecked Eager bs (self\<lparr>buffer := b\<rparr>) 0) (\<lambda>self'.
               Return (self', s))))))))))"

definition len64_padding_be ::
  "nat \<Rightarrow> ('s \<Rightarrow> bytes \<Rightarrow> 's) \<Rightarrow> unit block_buffer \<Rightarrow> u64 \<Rightarrow> 's \<Rightarrow> (unit block_buffer \<times> 's) outcome" where
  "len64_padding_be bs compress self data_len s =
     digest_pad bs compress self 0x80 (to_be_bytes data_len) s"

definition len64_padding_le ::
  "nat \<Rightarrow> ('s \<Rightarrow> bytes \<Rightarrow> 's) \<Rightarrow> unit block_buffer \<Rightarrow> u64 \<Rightarrow> 's \<Rightarrow> (unit block_buffer \<times> 's) outcome" where
  "len64_padding_le bs compress self data_len s =
     digest_pad bs compress self 0x80 (to_le_bytes data_len) s"

definition len128_padding_be ::
  "nat \<Rightarrow> ('s \<Rightarrow> bytes \<Rightarrow> 's) \<Rightarrow> unit block_buffer \<Rightarrow> u128 \<Rightarrow> 's \<Rightarrow> (unit block_buffer \<times> 's) outcome" where
  "len128_padding_be bs compress self data_len s =
     digest_pad bs compress self 0x80 (to_be_bytes data_len) s"

definition eager_serialize :: "nat \<Rightarrow> unit block_buffer \<Rightarrow> bytes outcome" where
  "eager_serialize bs self =
     and_then (bb_get_pos Eager bs self) (\<lambda>p.
     and_then (checked_sub bs 1) (\<lambda>l. fill_range (buffer self) p l 0))"

definition eager_deserialize :: "nat \<Rightarrow> bytes \<Rightarrow> (Error, unit block_buffer) result outcome" where
  "eager_deserialize bs buf =
     and_then (checked_sub bs 1) (\<lambda>l.
     and_then (index_at buf l) (\<lambda>b.
       let p = unat b in
       if \<not> eager_invariant p bs then Return (Err Error)
       else
         and_then (slice buf p l) (\<lambda>gap.
           if \<exists>x \<in> set gap. x \<noteq> 0 then Return (Err Error)
           else Return (Ok \<lparr>buffer = buf, pos = ()\<rparr>))))"

section \<open>Unwinding out of a closure\<close>

text \<open>
  A closure may panic, and a client that catches the panic still has the buffer.  The calls of \<open>compress\<close> are the points
  where the buffer can be left; \<open>compress_points\<close> and \<open>pad_points\<close> run the code of
  \<open>digest_blocks\<close> and \<open>digest_pad\<close> and list what \<open>self\<close> is at each call, in order.
\<close>

definition compress_points ::
  "'p sealed \<Rightarrow> nat \<Rightarrow> 'p block_buffer \<Rightarrow> bytes \<Rightarrow> 'p block_buffer list outcome" where
  "compress_points K bs self input =
     and_then (bb_get_pos K bs self) (\<lambda>p.
     and_then (checked_sub bs p) (\<lambda>rem.
       if K_invariant K (length input) rem then Return []
       else
         and_then
           (if p \<noteq> 0 then
              and_then (split_at input rem) (\<lambda>(left, right).
              and_then (copy_at (buffer self) p (length (buffer self)) left) (\<lambda>b.
                Return (self\<lparr>buffer := b\<rparr>, right, [self\<lparr>buffer := b\<rparr>])))
            else Return (self, input, []))
           (\<lambda>(self, input, points).
             let (blocks, leftover) = K_split_blocks K bs input
             in Return (if blocks \<noteq> [] then points @ [self] else points))))"

definition pad_points :: "nat \<Rightarrow> unit block_buffer \<Rightarrow> u8 \<Rightarrow> bytes \<Rightarrow> unit block_buffer list outcome" where
  "pad_points bs self delim suffix =
     (if length suffix > bs then Panic (Message ''suffix is too long'')
      else
        and_then (bb_get_pos Eager bs self) (\<lambda>p.
        and_then (set_at (buffer self) p delim) (\<lambda>b.
        and_then (fill_range b (p + 1) (length b) 0) (\<lambda>b.
        and_then (checked_sub bs (length suffix)) (\<lambda>n.
        and_then (checked_sub bs p) (\<lambda>r.
        and_then (checked_sub r 1) (\<lambda>r.
          if r < length suffix then Return [self\<lparr>buffer := b\<rparr>, self\<lparr>buffer := b\<rparr>]
          else and_then (copy_at b n (length b) suffix) (\<lambda>b. Return [self\<lparr>buffer := b\<rparr>]))))))))"

section \<open>Operations of the lazy buffer\<close>

definition lazy_serialize :: "nat \<Rightarrow> u8 block_buffer \<Rightarrow> bytes outcome" where
  "lazy_serialize bs self =
     (let res = replicate (bs + 1) 0 in
      and_then (set_at res 0 (pos self)) (\<lambda>res.
      and_then (get_data Lazy bs self) (\<lambda>data.
        copy_at res 1 (1 + length data) data)))"

definition lazy_deserialize :: "nat \<Rightarrow> bytes \<Rightarrow> (Error, u8 block_buffer) result outcome" where
  "lazy_deserialize bs buf =
     and_then (index_at buf 0) (\<lambda>p.
       if \<not> lazy_invariant (unat p) bs then Return (Err Error)
       else
         and_then (slice_from buf 1) (\<lambda>rest.
         and_then (slice_from rest (unat p)) (\<lambda>gap.
           if \<exists>x \<in> set gap. x \<noteq> 0 then Return (Err Error)
           else Return (Ok \<lparr>buffer = rest, pos = p\<rparr>))))"

section \<open>Sequences of calls\<close>

text \<open>A client that feeds its input piece by piece; \<open>f\<close> processes one block.\<close>

fun digest_all ::
  "'p sealed \<Rightarrow> nat \<Rightarrow> ('s \<Rightarrow> bytes \<Rightarrow> 's) \<Rightarrow> 'p block_buffer \<Rightarrow> bytes list \<Rightarrow> 's
     \<Rightarrow> ('p block_buffer \<times> 's) outcome" where
  "digest_all K bs f self [] s = Return (self, s)"
| "digest_all K bs f self (x # xs) s =
     and_then (digest_blocks K bs (foldl f) self x s) (\<lambda>(self', s'). digest_all K bs f self' xs s')"

section \<open>The contract of a buffer kind\<close>

text \<open>
  The state of a buffer is sound when the array has the block size and the position its kind
  stores satisfies the invariant; its content is the prefix up to that position.
\<close>

definition bb_wf :: "'p sealed \<Rightarrow> nat \<Rightarrow> 'p block_buffer \<Rightarrow> bool" where
  "bb_wf K bs self \<longleftrightarrow> block_sizes bs \<and> length (buffer self) = bs \<and> returns (bb_get_pos K bs self)"

lemma bb_clone_eq [simp]: "bb_clone self = self"
  by (simp add: bb_clone_def)

definition bb_content :: "'p sealed \<Rightarrow> 'p block_buffer \<Rightarrow> bytes" where
  "bb_content K self =
     (case K_get_pos K (buffer self) (pos self) of
        Return p \<Rightarrow> take p (buffer self) | Panic _ \<Rightarrow> [])"

text \<open>
  The laws of the sealed trait.  The position can be stored and read back, storing it
  disturbs neither the array's size nor the bytes before it, the invariant is a bound that
  moves with the position, and \<open>split_blocks\<close> cuts off as few blocks as the invariant allows.
\<close>

locale buffer_kind =
  fixes K :: "'p sealed"
  assumes set_get_pos:
      "buf \<noteq> [] \<Longrightarrow> v < 256 \<Longrightarrow> K_invariant K v (length buf) \<Longrightarrow>
       \<exists>buf' q'. K_set_pos K buf q v = Return (buf', q') \<and> length buf' = length buf \<and>
         K_get_pos K buf' q' = Return v \<and> take v buf' = take v buf"
    and default_pos: "0 < n \<Longrightarrow> K_get_pos K (replicate n 0) (K_default_pos K) = Return 0"
    and invariant_le: "K_invariant K p n \<Longrightarrow> p \<le> n"
    and less_invariant: "p < n \<Longrightarrow> K_invariant K p n"
    and invariant_shift: "K_invariant K p bs \<Longrightarrow> K_invariant K n (bs - p) \<longleftrightarrow> K_invariant K (p + n) bs"
    and split_blocks_law:
      "0 < bs \<Longrightarrow> K_split_blocks K bs data = (blocks, tail) \<Longrightarrow>
       data = concat blocks @ tail \<and> (\<forall>b \<in> set blocks. length b = bs) \<and>
       K_invariant K (length tail) bs \<and> (blocks \<noteq> [] \<longrightarrow> \<not> K_invariant K (bs + length tail) bs)"
begin

lemma get_pos_default: "block_sizes bs \<Longrightarrow> bb_get_pos K bs (bb_default K bs) = Return 0"
  by (simp add: bb_get_pos_def bb_default_def default_pos less_invariant block_sizes_def)

lemma default_wf: "block_sizes bs \<Longrightarrow> bb_wf K bs (bb_default K bs)"
  using get_pos_default by (simp add: bb_wf_def bb_default_def)

lemma default_content: "block_sizes bs \<Longrightarrow> bb_content K (bb_default K bs) = []"
  by (simp add: bb_content_def bb_default_def default_pos block_sizes_def)

lemma wf_cases:
  assumes "bb_wf K bs self"
  obtains p where "bb_get_pos K bs self = Return p" "p \<le> bs" "K_invariant K p bs"
    "bb_content K self = take p (buffer self)" "length (bb_content K self) = p"
    "length (buffer self) = bs" "0 < bs" "bs < 256"
  using assms
  by (auto simp: bb_wf_def returns_iff bb_get_pos_def bb_content_def block_sizes_def
      dest: invariant_le split: if_splits)

lemma get_pos_content: "bb_wf K bs self \<Longrightarrow> bb_get_pos K bs self = Return (length (bb_content K self))"
  by (erule wf_cases) simp

lemma get_data_content: "bb_wf K bs self \<Longrightarrow> get_data K bs self = Return (bb_content K self)"
  by (erule wf_cases) (simp add: get_data_def slice_to_def slice_def)

lemma set_pos_unchecked_wf:
  assumes "block_sizes bs" "length (buffer self) = bs" "K_invariant K v bs"
  shows "\<exists>self'. set_pos_unchecked K bs self v = Return self' \<and> bb_wf K bs self' \<and>
           bb_content K self' = take v (buffer self)"
proof -
  have "buffer self \<noteq> []" "v < 256"
    using assms invariant_le [of v bs] by (auto simp: block_sizes_def)
  with set_get_pos [of "buffer self" v "pos self"] assms obtain buf' q' where
    "K_set_pos K (buffer self) (pos self) v = Return (buf', q')" "length buf' = bs"
    "K_get_pos K buf' q' = Return v" "take v buf' = take v (buffer self)" by auto
  then show ?thesis
    using assms by (simp add: set_pos_unchecked_def bb_wf_def bb_get_pos_def bb_content_def)
qed

lemma invariant_mono: "K_invariant K p n \<Longrightarrow> p' \<le> p \<Longrightarrow> K_invariant K p' n"
  using invariant_le [of p n] less_invariant [of p' n] by (cases "p' = p") auto

lemma split_unique:
  assumes bs: "0 < bs" and data: "data = concat B @ t"
    and blocks: "\<forall>b \<in> set B. length b = bs" and inv: "K_invariant K (length t) bs"
    and least: "B \<noteq> [] \<longrightarrow> \<not> K_invariant K (bs + length t) bs"
  shows "K_split_blocks K bs data = (B, t)"
proof -
  obtain B' t' where split: "K_split_blocks K bs data = (B', t')" by fastforce
  note law = split_blocks_law [OF bs split]
  have "length (concat B) = length B * bs" "length (concat B') = length B' * bs"
    using blocks law by (auto intro: concat_all_length)
  moreover have "length (concat B @ t) = length (concat B' @ t')" using law data by metis
  ultimately have len: "length B * bs + length t = length B' * bs + length t'" by simp
  have "\<not> length B < length B'"
  proof
    assume lt: "length B < length B'"
    then have "Suc (length B) * bs \<le> length B' * bs" by (intro mult_le_mono1) simp
    with len have "bs + length t' \<le> length t" by simp
    moreover have "\<not> K_invariant K (bs + length t') bs" using law lt by auto
    ultimately show False using inv invariant_mono by blast
  qed
  moreover have "\<not> length B' < length B"
  proof
    assume lt: "length B' < length B"
    then have "Suc (length B') * bs \<le> length B * bs" by (intro mult_le_mono1) simp
    with len have "bs + length t \<le> length t'" by simp
    moreover have "\<not> K_invariant K (bs + length t) bs" using least lt by auto
    ultimately show False using law invariant_mono by blast
  qed
  ultimately have "length B = length B'" by simp
  moreover have "B = chunks_of bs (length B) data" "B' = chunks_of bs (length B') data"
    using chunks_of_concat [of B bs t] chunks_of_concat [of B' bs t'] law data blocks by auto
  ultimately have "B = B'" by simp
  with law data have "t = t'" by simp
  with \<open>B = B'\<close> split show ?thesis by simp
qed

lemma split_append:
  assumes "0 < bs" and x: "K_split_blocks K bs x = (b1, t1)"
    and y: "K_split_blocks K bs (t1 @ y) = (b2, t2)"
  shows "K_split_blocks K bs (x @ y) = (b1 @ b2, t2)"
proof (rule split_unique)
  note lx = split_blocks_law [OF assms(1) x] and ly = split_blocks_law [OF assms(1) y]
  show "x @ y = concat (b1 @ b2) @ t2" "\<forall>b \<in> set (b1 @ b2). length b = bs" "K_invariant K (length t2) bs"
    using lx ly by auto
  show "b1 @ b2 \<noteq> [] \<longrightarrow> \<not> K_invariant K (bs + length t2) bs"
  proof (cases "b2 = []")
    case True
    then have "t2 = t1 @ y" using ly by simp
    then show ?thesis
      using True lx invariant_mono [of "bs + length t2" bs "bs + length t1"] by auto
  qed (use ly in simp)
qed (rule assms(1))

lemma split_content:
  assumes "K_invariant K (length t) bs" "0 < bs"
  shows "K_split_blocks K bs t = ([], t)"
  using assms by (intro split_unique) auto

lemma foldl_if: "(if xs \<noteq> [] then foldl f a xs else a) = foldl f a xs"
  by simp

lemma store_tail:
  assumes "block_sizes bs" and b: "length (buffer self) = bs" and t: "K_invariant K (length t) bs"
  shows "\<exists>self'. and_then (copy_at (buffer self) 0 (length t) t)
        (\<lambda>b. and_then (set_pos_unchecked K bs (self\<lparr>buffer := b\<rparr>) (length t)) (\<lambda>self'. Return (self', s))) =
        Return (self', s) \<and> bb_wf K bs self' \<and> bb_content K self' = t"
proof -
  have "length t \<le> bs" using t by (rule invariant_le)
  then have copy: "copy_at (buffer self) 0 (length t) t = Return (overwrite (buffer self) 0 t)"
      "length (overwrite (buffer self) 0 t) = bs" "take (length t) (overwrite (buffer self) 0 t) = t"
    using b by (auto simp: copy_at_def overwrite_def)
  show ?thesis
    using set_pos_unchecked_wf [of bs "self\<lparr>buffer := overwrite (buffer self) 0 t\<rparr>" "length t"]
      assms(1) copy t by auto
qed

text \<open>
  One call of \<open>digest_blocks\<close> refines one step of cutting the stream: buffered bytes and input
  are split together, the blocks go to the compression function in order, the tail stays.
  Three cases: everything fits, the buffer was empty, the buffer is completed first.
\<close>

lemma digest_fits:
  assumes wf: "bb_wf K bs self" and fits: "K_invariant K (length input) (bs - length (bb_content K self))"
  shows "\<exists>self'. digest_blocks K bs (foldl f) self input s = Return (self', s) \<and>
           bb_wf K bs self' \<and> bb_content K self' = bb_content K self @ input"
proof -
  obtain p where p: "bb_get_pos K bs self = Return p" "p \<le> bs" "K_invariant K p bs"
    "bb_content K self = take p (buffer self)" "length (bb_content K self) = p"
    "length (buffer self) = bs" "0 < bs" "bs < 256"
    using wf by (rule wf_cases)
  let ?b = "overwrite (buffer self) p input" and ?n = "length input"
  have inv: "K_invariant K (p + ?n) bs" using invariant_shift [OF p(3)] fits p(5) by simp
  then have "p + ?n \<le> bs" by (rule invariant_le)
  then have copy: "copy_at (buffer self) p (p + ?n) input = Return ?b" "length ?b = bs"
      "take (p + ?n) ?b = bb_content K self @ input"
    using p by (auto simp: copy_at_def take_overwrite_end)
  have "digest_blocks K bs (foldl f) self input s =
      and_then (set_pos_unchecked K bs (self\<lparr>buffer := ?b\<rparr>) (p + ?n)) (\<lambda>self'. Return (self', s))"
    using p(1,2,5) fits copy(1) by (simp add: digest_blocks_def checked_sub_def)
  then show ?thesis
    using set_pos_unchecked_wf [of bs "self\<lparr>buffer := ?b\<rparr>" "p + ?n"] copy inv p(7,8)
    by (auto simp: block_sizes_def)
qed

lemma digest_empty:
  assumes wf: "bb_wf K bs self" and "bb_content K self = []" and "\<not> K_invariant K (length input) bs"
    and split: "K_split_blocks K bs input = (B, t)"
  shows "\<exists>self'. digest_blocks K bs (foldl f) self input s = Return (self', foldl f s B) \<and>
           bb_wf K bs self' \<and> bb_content K self' = t"
proof -
  have p: "bb_get_pos K bs self = Return 0" "length (buffer self) = bs" "block_sizes bs" "0 < bs"
    using wf get_pos_content [OF wf] assms(2) by (auto simp: bb_wf_def block_sizes_def)
  have "K_invariant K (length t) bs" using split_blocks_law [OF p(4) split] by blast
  moreover have "digest_blocks K bs (foldl f) self input s =
      and_then (copy_at (buffer self) 0 (length t) t)
        (\<lambda>b. and_then (set_pos_unchecked K bs (self\<lparr>buffer := b\<rparr>) (length t))
          (\<lambda>self'. Return (self', foldl f s B)))"
    using p(1) assms(3) by (simp add: digest_blocks_def checked_sub_def split foldl_if Let_def)
  ultimately show ?thesis
    using store_tail [of bs self t "foldl f s B"] p(2,3) by simp
qed

lemma digest_completes:
  assumes wf: "bb_wf K bs self" and "bb_content K self \<noteq> []"
    and full: "\<not> K_invariant K (length input) (bs - length (bb_content K self))"
    and r: "r = bs - length (bb_content K self)"
    and split: "K_split_blocks K bs (drop r input) = (B, t)"
  shows "\<exists>self'. digest_blocks K bs (foldl f) self input s =
             Return (self', foldl f s ((bb_content K self @ take r input) # B)) \<and>
           bb_wf K bs self' \<and> bb_content K self' = t"
proof -
  obtain p where p: "bb_get_pos K bs self = Return p" "p \<le> bs"
    "bb_content K self = take p (buffer self)" "length (bb_content K self) = p"
    "length (buffer self) = bs" "block_sizes bs" "0 < bs"
    using wf by (rule wf_cases) (auto simp: block_sizes_def)
  let ?b = "bb_content K self @ take r input"
  have le: "r \<le> length input" using less_invariant full r by (meson not_le)
  have b: "length ?b = bs" using p(2,4) le r by simp
  have rp: "bs - p = r" "p \<noteq> 0" "\<not> K_invariant K (length input) r" using p(4) r full assms(2) by auto
  have "K_invariant K (length t) bs" using split_blocks_law [OF p(7) split] by blast
  moreover have "copy_at (buffer self) p (length (buffer self)) (take r input) = Return ?b"
    using le p(2-5) r by (simp add: copy_at_def)
  then have "digest_blocks K bs (foldl f) self input s =
      and_then (copy_at ?b 0 (length t) t)
        (\<lambda>b. and_then (set_pos_unchecked K bs (self\<lparr>buffer := b\<rparr>) (length t))
          (\<lambda>self'. Return (self', foldl f (f s ?b) B)))"
    using p(1,2) rp le by (simp add: digest_blocks_def checked_sub_def split_at_def split Let_def)
  ultimately show ?thesis
    using store_tail [of bs "self\<lparr>buffer := ?b\<rparr>" t "foldl f (f s ?b) B"] p(6) b by simp
qed

lemma split_completes:
  assumes bs: "0 < bs" and p: "K_invariant K (length d) bs" "r = bs - length d"
    and full: "\<not> K_invariant K (length input) r" and split: "K_split_blocks K bs (drop r input) = (B, t)"
  shows "K_split_blocks K bs (d @ input) = ((d @ take r input) # B, t)"
proof (rule split_unique)
  note law = split_blocks_law [OF bs split]
  have le: "r \<le> length input" using less_invariant full by (meson not_le)
  have ld: "length d \<le> bs" using p(1) by (rule invariant_le)
  have "take r input @ concat B @ t = input"
    using law by (metis append_take_drop_id)
  then show "d @ input = concat ((d @ take r input) # B) @ t" by simp
  show "\<forall>b \<in> set ((d @ take r input) # B). length b = bs" using law le ld p(2) by simp
  have "B = [] \<Longrightarrow> length t = length input - r"
    using law by (metis append_Nil concat.simps(1) length_drop)
  then have "B = [] \<Longrightarrow> bs + length t = length d + length input" using le ld p(2) by simp
  then show "(d @ take r input) # B \<noteq> [] \<longrightarrow> \<not> K_invariant K (bs + length t) bs"
    using law invariant_shift [OF p(1), of "length input"] full p(2) by (cases "B = []") auto
qed (use bs split_blocks_law [OF bs split] in auto)

lemma digest_blocks_step:
  assumes wf: "bb_wf K bs self"
    and split: "K_split_blocks K bs (bb_content K self @ input) = (blocks, tail)"
  shows "\<exists>self'. digest_blocks K bs (foldl f) self input s = Return (self', foldl f s blocks) \<and>
           bb_wf K bs self' \<and> bb_content K self' = tail"
proof -
  let ?d = "bb_content K self"
  have p: "K_invariant K (length ?d) bs" "0 < bs" using wf by (rule wf_cases, simp)+
  consider (fits) "K_invariant K (length input) (bs - length ?d)"
    | (empty) "?d = []" "\<not> K_invariant K (length input) bs"
    | (completes) "?d \<noteq> []" "\<not> K_invariant K (length input) (bs - length ?d)"
    by (cases "?d = []") auto
  then show ?thesis
  proof cases
    case fits
    then have "K_invariant K (length (?d @ input)) bs" using invariant_shift [OF p(1)] by simp
    then have "blocks = []" "tail = ?d @ input" using split split_content [OF _ p(2)] by auto
    then show ?thesis using digest_fits [OF wf fits] by simp
  next
    case empty
    with split show ?thesis by (intro digest_empty [OF wf empty]) simp
  next
    case completes
    obtain B t where Bt: "K_split_blocks K bs (drop (bs - length ?d) input) = (B, t)" by fastforce
    have "blocks = (?d @ take (bs - length ?d) input) # B" "tail = t"
      using split split_completes [OF p(2,1) refl completes(2) Bt] by auto
    then show ?thesis using digest_completes [OF wf completes refl Bt] by simp
  qed
qed

lemma digest_all_stream:
  assumes "bb_wf K bs self"
    and "K_split_blocks K bs (bb_content K self @ concat inputs) = (blocks, tail)"
  shows "\<exists>self'. digest_all K bs f self inputs s = Return (self', foldl f s blocks) \<and>
           bb_wf K bs self' \<and> bb_content K self' = tail"
  using assms
proof (induction inputs arbitrary: self s blocks tail)
  case Nil
  have "K_invariant K (length (bb_content K self)) bs" "0 < bs"
    using Nil.prems(1) by (rule wf_cases, simp)+
  with Nil show ?case using split_content by auto
next
  case (Cons x xs)
  have bs: "0 < bs" using Cons.prems(1) by (rule wf_cases)
  obtain b1 t1 where 1: "K_split_blocks K bs (bb_content K self @ x) = (b1, t1)" by fastforce
  obtain b2 t2 where 2: "K_split_blocks K bs (t1 @ concat xs) = (b2, t2)" by fastforce
  have "blocks = b1 @ b2" "tail = t2"
    using split_append [OF bs 1 2] Cons.prems(2) by auto
  moreover obtain self1 where self1: "digest_blocks K bs (foldl f) self x s = Return (self1, foldl f s b1)"
      "bb_wf K bs self1" "bb_content K self1 = t1"
    using digest_blocks_step [OF Cons.prems(1) 1, of f s] by auto
  moreover obtain self2 where "digest_all K bs f self1 xs (foldl f s b1) = Return (self2, foldl f (foldl f s b1) b2)"
      "bb_wf K bs self2" "bb_content K self2 = t2"
    using Cons.IH [OF self1(2), of b2 t2] 2 self1(3) by auto
  ultimately show ?case by simp
qed

lemma digest_all_from_default:
  assumes "block_sizes bs" and "K_split_blocks K bs (concat inputs) = (blocks, tail)"
  shows "\<exists>self'. digest_all K bs f (bb_default K bs) inputs s = Return (self', foldl f s blocks) \<and>
           bb_wf K bs self' \<and> get_data K bs self' = Return tail"
  using digest_all_stream [OF default_wf [OF assms(1)], of inputs blocks tail f s] assms
  by (auto simp: default_content get_data_content)

lemma try_new_content:
  assumes "block_sizes bs"
  shows "if K_invariant K (length buf) bs
         then \<exists>self. try_new K bs buf = Return (Ok self) \<and> bb_wf K bs self \<and> bb_content K self = buf
         else try_new K bs buf = Return (Err Error)"
proof (cases "K_invariant K (length buf) bs")
  case True
  let ?z = "overwrite (replicate bs 0) 0 buf"
  have le: "length buf \<le> bs" using True by (rule invariant_le)
  then have "length ?z = bs" by simp
  then have "?z \<noteq> []" "length buf < 256" using le assms by (auto simp: block_sizes_def simp del: length_overwrite)
  with set_get_pos [of ?z "length buf" "K_default_pos K"] True \<open>length ?z = bs\<close> obtain b q where
    "K_set_pos K ?z (K_default_pos K) (length buf) = Return (b, q)" "length b = bs"
    "K_get_pos K b q = Return (length buf)" "take (length buf) b = take (length buf) ?z" by auto
  then show ?thesis
    using True le assms
    by (simp add: try_new_def bb_default_def copy_at_def bb_wf_def bb_get_pos_def bb_content_def
        overwrite_def Let_def)
qed (simp add: try_new_def)

lemma pad_with_zeros_content:
  assumes "bb_wf K bs self"
  shows "\<exists>self'. pad_with_zeros K bs self =
             Return (bb_content K self @ replicate (bs - length (bb_content K self)) 0, self') \<and>
           bb_wf K bs self' \<and> bb_content K self' = []"
proof -
  obtain p where p: "bb_get_pos K bs self = Return p" "p \<le> bs"
    "bb_content K self = take p (buffer self)" "length (buffer self) = bs" "block_sizes bs"
    using assms by (rule wf_cases) (auto simp: block_sizes_def)
  have "K_invariant K 0 bs" using p(5) less_invariant by (simp add: block_sizes_def)
  then show ?thesis
    using set_pos_unchecked_wf [of bs self 0] p
    by (auto simp: pad_with_zeros_def fill_range_to_end [where xs = "buffer self", unfolded p(4)])
qed

end

section \<open>The kinds keep the contract\<close>

lemma eager_split_law:
  assumes "0 < bs" and "eager_split_blocks bs data = (blocks, tail)"
  shows "data = concat blocks @ tail" and "\<forall>b \<in> set blocks. length b = bs"
    and "length tail = length data mod bs"
proof -
  let ?nb = "length data div bs"
  have le: "?nb * bs \<le> length data" by simp
  have eqs: "blocks = chunks_of bs ?nb data" "tail = drop (?nb * bs) data"
    using assms(2) by (auto simp: eager_split_blocks_def Let_def)
  show "data = concat blocks @ tail"
    unfolding eqs concat_chunks_of [OF le] by simp
  show "\<forall>b \<in> set blocks. length b = bs"
    unfolding eqs using chunks_of_block_length [OF le] by blast
  show "length tail = length data mod bs"
    unfolding eqs by (simp add: minus_div_mult_eq_mod)
qed

lemma eager_set_get:
  assumes "buf \<noteq> []" "v < length buf" "v < 256"
  shows "\<exists>buf'. eager_set_pos buf () v = Return (buf', ()) \<and> length buf' = length buf \<and>
           eager_get_pos buf' () = Return v \<and> take v buf' = take v buf"
proof -
  have "v \<le> length buf - 1" "0 < length buf" using assms(1,2) by auto
  then show ?thesis
    using assms(3)
    by (simp add: eager_set_pos_def eager_get_pos_def index_at_def set_at_def checked_sub_def Suc_le_eq)
qed

interpretation eager: buffer_kind Eager
proof
  fix bs data blocks tail
  assume "0 < bs" "K_split_blocks Eager bs data = (blocks, tail)"
  then show "data = concat blocks @ tail \<and> (\<forall>b \<in> set blocks. length b = bs) \<and>
      K_invariant Eager (length tail) bs \<and> (blocks \<noteq> [] \<longrightarrow> \<not> K_invariant Eager (bs + length tail) bs)"
    unfolding Eager_def eager_invariant_def sealed.simps
    using eager_split_law [of bs data blocks tail] by (metis mod_less_divisor not_add_less1)
qed (use eager_set_get in \<open>auto simp: Eager_def eager_invariant_def eager_get_pos_def rust_simps\<close>)

lemma lazy_split_law:
  assumes "0 < bs" and "lazy_split_blocks bs data = (blocks, tail)"
  shows "data = concat blocks @ tail \<and> (\<forall>b \<in> set blocks. length b = bs) \<and>
         length tail \<le> bs \<and> (data \<noteq> [] \<longrightarrow> tail \<noteq> [])"
proof (cases "data = []")
  case False
  define nb where "nb = (if length data mod bs = 0 then length data div bs - 1 else length data div bs)"
  have len: "length data = length data div bs * bs + length data mod bs" by simp
  have nb: "nb * bs < length data \<and> length data - nb * bs \<le> bs \<and>
      (length data mod bs = 0 \<longrightarrow> length data - nb * bs = bs)"
  proof (cases "length data mod bs = 0")
    case True
    then obtain q where q: "length data div bs = Suc q"
      using False len by (metis add_0_right length_0_conv mult_0 not0_implies_Suc)
    then have "length data = bs + q * bs" using len True by simp
    then show ?thesis using True q assms(1) unfolding nb_def by simp
  next
    case nz: False
    have "length data mod bs < bs" using assms(1) by simp
    moreover have "nb * bs + length data mod bs = length data" using nz by (simp add: nb_def)
    then have "length data - nb * bs = length data mod bs" "nb * bs < length data"
      using nz by linarith+
    ultimately show ?thesis using nz by simp
  qed
  have tl: "take tl (drop (nb * bs) data) = drop (nb * bs) data" if "tl = length data - nb * bs" for tl
    using that by simp
  have "blocks = chunks_of bs nb data \<and> tail = drop (nb * bs) data"
  proof (cases "length data mod bs = 0")
    case True
    then have "bs = length data - nb * bs"
      using nb by simp
    then show ?thesis using assms False True tl [of bs] by (simp add: lazy_split_blocks_def nb_def)
  qed (use assms False in \<open>auto simp: lazy_split_blocks_def nb_def Let_def\<close>)
  then show ?thesis
    using nb chunks_of_block_length [of nb bs data] by (auto simp: concat_chunks_of)
qed (use assms in \<open>simp add: lazy_split_blocks_def\<close>)

interpretation lazy: buffer_kind Lazy
proof
  fix bs data blocks tail
  assume "0 < bs" "K_split_blocks Lazy bs data = (blocks, tail)"
  then show "data = concat blocks @ tail \<and> (\<forall>b \<in> set blocks. length b = bs) \<and>
      K_invariant Lazy (length tail) bs \<and> (blocks \<noteq> [] \<longrightarrow> \<not> K_invariant Lazy (bs + length tail) bs)"
    using lazy_split_law [of bs data blocks tail] by (cases blocks) (auto simp: Lazy_def lazy_invariant_def)
qed (auto simp: Lazy_def lazy_invariant_def lazy_get_pos_def lazy_set_pos_def)

section \<open>Padding and serialisation\<close>

lemma eager_wf_cases:
  assumes "bb_wf Eager bs self"
  obtains p where "bb_get_pos Eager bs self = Return p" "p < bs"
    "bb_content Eager self = take p (buffer self)" "length (bb_content Eager self) = p"
    "length (buffer self) = bs" "block_sizes bs" "p = unat (last (buffer self))"
  using assms
proof (rule eager.wf_cases)
  fix p assume p: "bb_get_pos Eager bs self = Return p" "K_invariant Eager p bs"
    "bb_content Eager self = take p (buffer self)" "length (bb_content Eager self) = p"
    "length (buffer self) = bs" "0 < bs" "bs < 256"
  have "eager_get_pos (buffer self) () = Return (unat (last (buffer self)))"
    using p(5,6) by (auto simp: eager_get_pos_def checked_sub_def index_at_def last_conv_nth)
  then have "p = unat (last (buffer self))"
    using p(1) by (auto simp: bb_get_pos_def Eager_def split: if_splits)
  with p that show thesis by (simp add: Eager_def eager_invariant_def block_sizes_def)
qed

text \<open>The number of zero bytes \<open>digest_pad\<close> inserts after \<open>d\<close> message bytes.\<close>

definition pad_zeros :: "nat \<Rightarrow> nat \<Rightarrow> nat \<Rightarrow> nat" where
  "pad_zeros bs d suf = (if d + 1 + suf \<le> bs then bs - (d + 1 + suf) else 2 * bs - (d + 1 + suf))"

text \<open>The one or two blocks that \<open>digest_pad\<close> compresses, before the position is reset.\<close>

definition filled_block :: "nat \<Rightarrow> bytes \<Rightarrow> u8 \<Rightarrow> bytes" where
  "filled_block bs d delim = d @ delim # replicate (bs - length d - 1) 0"

definition pad_blocks :: "nat \<Rightarrow> bytes \<Rightarrow> u8 \<Rightarrow> bytes \<Rightarrow> bytes list" where
  "pad_blocks bs d delim suffix =
     (let n = bs - length suffix; b = filled_block bs d delim in
      if bs - Suc (length d) < length suffix then [b, replicate n 0 @ suffix] else [take n b @ suffix])"

lemma pad_fill:
  fixes delim :: u8
  assumes p: "p < bs" "d = take p (buffer self)" "length d = p" "length (buffer self) = bs"
  defines "c \<equiv> d @ delim # drop (p + 1) (buffer self)"
  shows "set_at (buffer self) p delim = Return c" "fill_range c (Suc p) bs 0 = Return (filled_block bs d delim)"
    "length c = bs" "length (filled_block bs d delim) = bs"
proof -
  show len: "length c = bs" "length (filled_block bs d delim) = bs" using p by (auto simp: c_def filled_block_def)
  show "set_at (buffer self) p delim = Return c"
    using p by (simp add: set_at_def upd_conv_take_nth_drop c_def)
  show "fill_range c (Suc p) bs 0 = Return (filled_block bs d delim)"
    using p(1,3) len(1) by (simp add: fill_range_Return) (simp add: c_def filled_block_def)
qed

lemma digest_pad_eq:
  assumes "bb_wf Eager bs self" and "length suffix \<le> bs"
  defines "d \<equiv> bb_content Eager self"
  shows "\<exists>b. digest_pad bs f self delim suffix s =
      and_then (set_pos_unchecked Eager bs (self\<lparr>buffer := b\<rparr>) 0) (\<lambda>self'. Return (self', foldl f s (pad_blocks bs d delim suffix))) \<and>
    length b = bs"
proof -
  obtain p where p: "bb_get_pos Eager bs self = Return p" "p < bs" "d = take p (buffer self)" "length d = p"
    "length (buffer self) = bs"
    using assms(1) unfolding d_def by (rule eager_wf_cases)
  let ?n = "bs - length suffix" and ?b = "filled_block bs d delim"
  note fill = pad_fill [OF p(2-5), of delim]
  then have len: "length (d @ delim # drop (p + 1) (buffer self)) = bs" "length ?b = bs" by simp_all
  have "checked_sub bs (length suffix) = Return ?n" "checked_sub bs p = Return (bs - p)"
      "checked_sub (bs - p) (Suc 0) = Return (bs - Suc p)"
    using assms(2) p(2) by (auto simp: checked_sub_def)
  moreover have "copy_at (replicate bs 0) ?n bs suffix = Return (replicate ?n 0 @ suffix)"
      "copy_at ?b ?n bs suffix = Return (take ?n ?b @ suffix)"
    using assms(2) len(2) by (simp_all add: copy_at_def)
  ultimately show ?thesis
    using assms(2) fill len p(1,4)
    by (cases "bs - Suc p < length suffix") (auto simp: digest_pad_def pad_blocks_def Let_def)
qed

lemma pad_blocks_concat:
  assumes "length d < bs" and "length suffix \<le> bs"
  shows "concat (pad_blocks bs d delim suffix) = d @ delim # replicate (pad_zeros bs (length d) (length suffix)) 0 @ suffix"
    and "\<forall>b \<in> set (pad_blocks bs d delim suffix). length b = bs"
proof -
  show "\<forall>b \<in> set (pad_blocks bs d delim suffix). length b = bs"
    using assms by (auto simp: pad_blocks_def filled_block_def Let_def)
  show "concat (pad_blocks bs d delim suffix) = d @ delim # replicate (pad_zeros bs (length d) (length suffix)) 0 @ suffix"
  proof (cases "bs - Suc (length d) < length suffix")
    case True
    then have "pad_zeros bs (length d) (length suffix) = (bs - length d - 1) + (bs - length suffix)"
      using assms by (auto simp: pad_zeros_def)
    then show ?thesis using True by (simp only: replicate_add) (simp add: pad_blocks_def filled_block_def Let_def)
  next
    case False
    then have "Suc (length d + length suffix) \<le> bs" using assms by linarith
    with False show ?thesis
      by (auto simp: pad_blocks_def filled_block_def pad_zeros_def Let_def take_Cons' min_def add.commute)
  qed
qed

lemma digest_pad_blocks:
  assumes wf: "bb_wf Eager bs self" and suf: "length suffix \<le> bs"
  shows "\<exists>self' blocks. digest_pad bs f self delim suffix s = Return (self', foldl f s blocks) \<and>
           bb_wf Eager bs self' \<and> bb_content Eager self' = [] \<and> (\<forall>b \<in> set blocks. length b = bs) \<and>
           concat blocks = bb_content Eager self @ delim #
             replicate (pad_zeros bs (length (bb_content Eager self)) (length suffix)) 0 @ suffix"
proof -
  define d where "d = bb_content Eager self"
  obtain b where b: "digest_pad bs f self delim suffix s =
      and_then (set_pos_unchecked Eager bs (self\<lparr>buffer := b\<rparr>) 0) (\<lambda>self'. Return (self', foldl f s (pad_blocks bs d delim suffix)))"
    "length b = bs"
    using digest_pad_eq [OF assms, of f delim s] unfolding d_def by blast
  obtain p where p: "length d = p" "p < bs" "block_sizes bs" using wf unfolding d_def by (rule eager_wf_cases)
  have "\<exists>self'. set_pos_unchecked Eager bs (self\<lparr>buffer := b\<rparr>) 0 = Return self' \<and> bb_wf Eager bs self' \<and>
      bb_content Eager self' = []"
    using b(2) p eager.set_pos_unchecked_wf [of bs "self\<lparr>buffer := b\<rparr>" 0] by (auto simp: Eager_def eager_invariant_def)
  then obtain self' where "digest_pad bs f self delim suffix s = Return (self', foldl f s (pad_blocks bs d delim suffix))"
    "bb_wf Eager bs self'" "bb_content Eager self' = []" using b(1) by auto
  with pad_blocks_concat [of d bs suffix delim] p suf show ?thesis unfolding d_def by blast
qed

lemma pad_zeros_less: "d < bs \<Longrightarrow> pad_zeros bs d suf < bs"
  by (auto simp: pad_zeros_def)

text \<open>A message digested in pieces and closed: the blocks that reach the compression function.\<close>

lemma digest_then_pad:
  assumes "block_sizes bs" and "length suffix \<le> bs"
  shows "\<exists>self1 s1 self2 blocks z.
           digest_all Eager bs f (bb_default Eager bs) inputs s = Return (self1, s1) \<and>
           digest_pad bs f self1 delim suffix s1 = Return (self2, foldl f s blocks) \<and>
           get_data Eager bs self2 = Return [] \<and> z < bs \<and>
           concat blocks = concat inputs @ delim # replicate z 0 @ suffix \<and>
           (\<forall>b \<in> set blocks. length b = bs)"
proof -
  obtain B t where split: "eager_split_blocks bs (concat inputs) = (B, t)" by fastforce
  have bs: "0 < bs" using assms(1) by (simp add: block_sizes_def)
  note law1 = eager_split_law [OF bs split]
  have law: "concat inputs = concat B @ t" "\<forall>b \<in> set B. length b = bs" "length t < bs"
    by (rule law1(1), rule law1(2)) (simp only: law1(3) mod_less_divisor [OF bs])
  have "K_split_blocks Eager bs (bb_content Eager (bb_default Eager bs) @ concat inputs) = (B, t)"
    using split assms(1) by (simp add: Eager_def eager.default_content [unfolded Eager_def])
  then obtain self1 where self1: "digest_all Eager bs f (bb_default Eager bs) inputs s = Return (self1, foldl f s B)"
      "bb_wf Eager bs self1" "bb_content Eager self1 = t"
    using eager.digest_all_stream [OF eager.default_wf [OF assms(1)]] by metis
  obtain self2 C where "digest_pad bs f self1 delim suffix (foldl f s B) = Return (self2, foldl f (foldl f s B) C)"
      "bb_wf Eager bs self2" "bb_content Eager self2 = []" "\<forall>b \<in> set C. length b = bs"
      "concat C = t @ delim # replicate (pad_zeros bs (length t) (length suffix)) 0 @ suffix"
    using digest_pad_blocks [OF self1(2) assms(2), of f delim "foldl f s B"] self1(3) by auto
  then show ?thesis
    using self1(1) law(1,2) pad_zeros_less [OF law(3)] eager.get_data_content [of bs self2]
    by (intro exI [of _ self1] exI [of _ "foldl f s B"] exI [of _ self2] exI [of _ "B @ C"]
        exI [of _ "pad_zeros bs (length t) (length suffix)"]) auto
qed

text \<open>The serialised form of an eager buffer: content, zeros, position byte.\<close>

lemma eager_serialize_eq:
  assumes "bb_wf Eager bs self"
  shows "eager_serialize bs self =
           Return (bb_content Eager self @ replicate (bs - 1 - length (bb_content Eager self)) 0 @
             [of_nat (length (bb_content Eager self))])"
proof -
  obtain p where p: "bb_get_pos Eager bs self = Return p" "p < bs"
    "bb_content Eager self = take p (buffer self)" "length (bb_content Eager self) = p"
    "length (buffer self) = bs" "p = unat (last (buffer self))"
    using assms by (rule eager_wf_cases)
  have "buffer self \<noteq> []" using p(2,5) by auto
  then have "drop (bs - 1) (buffer self) = [last (buffer self)]"
    using p(5) by (cases "buffer self" rule: rev_cases) auto
  then show ?thesis
    using p by (simp add: eager_serialize_def checked_sub_def fill_range_Return Suc_le_eq)
qed

lemma eager_deserialize_Ok:
  assumes "length buf = bs" "block_sizes bs"
  shows "eager_deserialize bs buf = Return (Ok self) \<longleftrightarrow>
         self = \<lparr>buffer = buf, pos = ()\<rparr> \<and> unat (last buf) < bs \<and>
         drop (unat (last buf)) buf = replicate (bs - 1 - unat (last buf)) 0 @ [last buf]"
proof -
  let ?p = "unat (last buf)"
  have ne: "buf \<noteq> []" and bs: "0 < bs" using assms by (auto simp: block_sizes_def)
  have "(\<exists>x \<in> set (take (bs - 1 - ?p) (drop ?p buf)). x \<noteq> 0) \<longleftrightarrow>
      drop ?p buf \<noteq> replicate (bs - 1 - ?p) 0 @ [last buf]" if "?p < bs"
    using that ne assms(1) filler_iff [of buf ?p 0] by auto
  moreover have "index_at buf (bs - 1) = Return (last buf)" "checked_sub bs 1 = Return (bs - 1)"
    using ne bs assms(1) by (auto simp: index_at_def checked_sub_def last_conv_nth)
  moreover have "slice buf ?p (bs - 1) = Return (take (bs - 1 - ?p) (drop ?p buf))" if "?p < bs"
    using that assms(1) by (simp add: slice_def)
  ultimately show ?thesis
    by (cases "?p < bs") (auto simp: eager_deserialize_def eager_invariant_def Let_def)
qed

lemma eager_content_of_buffer:
  assumes "length buf = bs" "block_sizes bs" "unat (last buf) < bs"
  shows "bb_wf Eager bs \<lparr>buffer = buf, pos = ()\<rparr>"
    and "bb_content Eager \<lparr>buffer = buf, pos = ()\<rparr> = take (unat (last buf)) buf"
proof -
  have "eager_get_pos buf () = Return (unat (last buf))"
    using assms last_conv_nth [of buf]
    by (cases "buf = []") (auto simp: eager_get_pos_def checked_sub_def index_at_def
        block_sizes_def Suc_le_eq)
  then show "bb_wf Eager bs \<lparr>buffer = buf, pos = ()\<rparr>"
    "bb_content Eager \<lparr>buffer = buf, pos = ()\<rparr> = take (unat (last buf)) buf"
    using assms
    by (simp_all add: bb_wf_def bb_get_pos_def bb_content_def Eager_def eager_invariant_def)
qed

lemma eager_deserialize_sound:
  assumes "length buf = bs" "block_sizes bs" "eager_deserialize bs buf = Return (Ok self)"
  shows "bb_wf Eager bs self \<and> eager_serialize bs self = Return buf"
proof -
  let ?p = "unat (last buf)"
  have ok: "self = \<lparr>buffer = buf, pos = ()\<rparr>" "?p < bs"
      "drop ?p buf = replicate (bs - 1 - ?p) 0 @ [last buf]"
    using assms by (auto simp: eager_deserialize_Ok)
  note wf = eager_content_of_buffer [OF assms(1,2) ok(2)]
  have "eager_serialize bs self = Return (take ?p buf @ replicate (bs - 1 - ?p) 0 @ [last buf])"
    using eager_serialize_eq [OF wf(1)] wf(2) assms(1) ok(1,2) by simp
  also have "take ?p buf @ replicate (bs - 1 - ?p) 0 @ [last buf] = buf"
    by (metis ok(3) append_take_drop_id)
  finally show ?thesis using wf ok(1) by simp
qed

lemma eager_roundtrip:
  assumes "bb_wf Eager bs self"
  shows "\<exists>out self'. eager_serialize bs self = Return out \<and> eager_deserialize bs out = Return (Ok self') \<and>
           bb_wf Eager bs self' \<and> bb_content Eager self' = bb_content Eager self"
proof -
  obtain p where p: "p < bs" "length (bb_content Eager self) = p" "block_sizes bs"
    using assms by (rule eager_wf_cases)
  let ?out = "bb_content Eager self @ replicate (bs - 1 - p) 0 @ [of_nat p]"
  have out: "eager_serialize bs self = Return ?out" using eager_serialize_eq [OF assms] p(2) by simp
  have last: "unat (last ?out) = p" "length ?out = bs" using p by (auto simp: block_sizes_def)
  then have "eager_deserialize bs ?out = Return (Ok \<lparr>buffer = ?out, pos = ()\<rparr>)"
    using p by (subst eager_deserialize_Ok [OF last(2) p(3)]) auto
  then show ?thesis
    using out eager_content_of_buffer [OF last(2) p(3)] last p by auto
qed

lemma lazy_wf_iff:
  "bb_wf Lazy bs self \<longleftrightarrow> block_sizes bs \<and> length (buffer self) = bs \<and> unat (pos self) \<le> bs"
  by (auto simp: bb_wf_def bb_get_pos_def Lazy_def lazy_get_pos_def lazy_invariant_def)

lemma lazy_content [simp]: "bb_content Lazy self = take (unat (pos self)) (buffer self)"
  by (simp add: bb_content_def Lazy_def lazy_get_pos_def)

lemma lazy_serialize_eq:
  assumes "bb_wf Lazy bs self"
  shows "lazy_serialize bs self =
           Return (pos self # bb_content Lazy self @ replicate (bs - unat (pos self)) 0)"
proof -
  have len: "unat (pos self) \<le> bs" "length (buffer self) = bs" using assms by (auto simp: lazy_wf_iff)
  let ?d = "take (unat (pos self)) (buffer self)"
  have "overwrite (pos self # replicate bs 0) 1 ?d = pos self # ?d @ replicate (bs - unat (pos self)) 0"
    using len by (simp add: overwrite_def min_def)
  then show ?thesis
    using len lazy.get_data_content [OF assms]
    by (simp add: lazy_serialize_def set_at_def copy_at_def Let_def)
qed

lemma lazy_deserialize_Ok:
  assumes "length buf = bs + 1"
  shows "lazy_deserialize bs buf = Return (Ok self) \<longleftrightarrow>
         self = \<lparr>buffer = tl buf, pos = hd buf\<rparr> \<and> unat (hd buf) \<le> bs \<and>
         drop (unat (hd buf)) (tl buf) = replicate (bs - unat (hd buf)) 0"
proof -
  obtain h t where buf: "buf = h # t" "length t = bs" using assms by (cases buf) auto
  have "(\<exists>x \<in> set (drop (unat h) t). x \<noteq> 0) \<longleftrightarrow> drop (unat h) t \<noteq> replicate (bs - unat h) 0"
    using all_set_replicate [of "drop (unat h) t" 0] buf(2) by auto
  moreover have "slice_from t (unat h) = Return (drop (unat h) t)" if "unat h \<le> bs"
    using that buf(2) by (simp add: slice_from_def slice_def)
  ultimately show ?thesis
    using buf by (cases "unat h \<le> bs")
      (auto simp: lazy_deserialize_def lazy_invariant_def index_at_def slice_from_def [of "h # t"] slice_def [of "h # t"])
qed

lemma lazy_deserialize_sound:
  assumes "length buf = bs + 1" "block_sizes bs" "lazy_deserialize bs buf = Return (Ok self)"
  shows "bb_wf Lazy bs self \<and> lazy_serialize bs self = Return buf"
proof -
  have ok: "self = \<lparr>buffer = tl buf, pos = hd buf\<rparr>" "unat (hd buf) \<le> bs"
      "drop (unat (hd buf)) (tl buf) = replicate (bs - unat (hd buf)) 0"
    using assms by (auto simp: lazy_deserialize_Ok)
  then have wf: "bb_wf Lazy bs self" using assms by (simp add: lazy_wf_iff)
  have "tl buf = take (unat (hd buf)) (tl buf) @ replicate (bs - unat (hd buf)) 0"
    by (metis ok(3) append_take_drop_id)
  then show ?thesis
    using wf lazy_serialize_eq [OF wf] ok(1) assms(1) by (cases buf) auto
qed

lemma lazy_roundtrip:
  assumes "bb_wf Lazy bs self"
  shows "\<exists>out self'. lazy_serialize bs self = Return out \<and> lazy_deserialize bs out = Return (Ok self') \<and>
           bb_wf Lazy bs self' \<and> bb_content Lazy self' = bb_content Lazy self"
proof -
  let ?p = "unat (pos self)"
  let ?out = "pos self # take ?p (buffer self) @ replicate (bs - ?p) 0"
  have p: "?p \<le> bs" "length (buffer self) = bs" "block_sizes bs" using assms by (auto simp: lazy_wf_iff)
  then have "lazy_deserialize bs ?out = Return (Ok \<lparr>buffer = tl ?out, pos = pos self\<rparr>)"
    by (subst lazy_deserialize_Ok) (auto simp: min_def)
  then show ?thesis
    using lazy_serialize_eq [OF assms] p by (auto simp: lazy_wf_iff)
qed

lemma deserialize_returns:
  assumes "block_sizes bs"
  shows "length a = bs \<Longrightarrow> returns (eager_deserialize bs a)"
    and "length c = bs + 1 \<Longrightarrow> returns (lazy_deserialize bs c)"
  using assms
  by (auto simp: eager_deserialize_def lazy_deserialize_def eager_invariant_def lazy_invariant_def block_sizes_def rust_simps Let_def)

section \<open>Buffers left by a panic\<close>

text \<open>\<open>compress_points\<close> lists as many buffers as \<open>digest_blocks\<close> makes calls.\<close>

lemma compress_points_calls:
  assumes "compress_points K bs self input = Return points"
    and "digest_blocks K bs (\<lambda>n _. Suc n) self input 0 = Return (self', n)"
  shows "n = length points"
proof -
  obtain p r where p: "bb_get_pos K bs self = Return p" "checked_sub bs p = Return r"
    using assms(1) by (auto simp: compress_points_def)
  show ?thesis
  proof (cases "K_invariant K (length input) r")
    case True
    then show ?thesis using p assms by (auto simp: compress_points_def digest_blocks_def Let_def)
  next
    case False
    then show ?thesis
      using p assms
      by (cases "p = 0") (auto simp: compress_points_def digest_blocks_def Let_def case_prod_unfold split: if_splits)
  qed
qed

context buffer_kind
begin

lemma compress_points_eq:
  assumes wf: "bb_wf K bs self" and full: "\<not> K_invariant K (length input) (bs - length (bb_content K self))"
    and d: "d = bb_content K self"
    and split: "K_split_blocks K bs (d @ input) = (blocks, tail)"
  shows "compress_points K bs self input = Return
    (if d = [] then (if blocks \<noteq> [] then [self] else [])
     else replicate (if tl blocks \<noteq> [] then 2 else 1) (self\<lparr>buffer := hd blocks\<rparr>))"
proof -
  obtain p where p: "bb_get_pos K bs self = Return p" "p \<le> bs" "d = take p (buffer self)" "length d = p"
    "length (buffer self) = bs" "0 < bs" "K_invariant K p bs"
    using wf unfolding d by (rule wf_cases)
  show ?thesis
  proof (cases "d = []")
    case True
    then have "bb_get_pos K bs self = Return 0" "K_split_blocks K bs input = (blocks, tail)"
      "\<not> K_invariant K (length input) bs"
      using p(1,4) split full d by auto
    with True show ?thesis by (simp add: compress_points_def checked_sub_def)
  next
    case False
    let ?r = "bs - p"
    obtain B t where Bt: "K_split_blocks K bs (drop ?r input) = (B, t)" by fastforce
    have le: "?r \<le> length input" using less_invariant full p(4) d by (meson not_le)
    have "blocks = (d @ take ?r input) # B"
      using split_completes [OF p(6), of d ?r input B t] p(4,7) full d Bt split by auto
    moreover have "copy_at (buffer self) p (length (buffer self)) (take ?r input) = Return (d @ take ?r input)"
      using le p(2-5) by (simp add: copy_at_def)
    ultimately show ?thesis
      using False p(1,2,4) full d le Bt
      by (auto simp: compress_points_def checked_sub_def split_at_def Let_def numeral_2_eq_2)
  qed
qed

lemma compress_points_fit:
  assumes "bb_wf K bs self" and "K_invariant K (length input) (bs - length (bb_content K self))"
  shows "compress_points K bs self input = Return []"
  using assms(1) by (rule wf_cases) (use assms(2) in \<open>simp add: compress_points_def checked_sub_def\<close>)

lemma compress_points_cases:
  assumes wf: "bb_wf K bs self"
  obtains points where "compress_points K bs self input = Return points"
    "\<And>self'. self' \<in> set points \<Longrightarrow> bb_content K self = [] \<Longrightarrow> self' = self"
    "\<And>self'. self' \<in> set points \<Longrightarrow> bb_content K self \<noteq> [] \<Longrightarrow>
      self' = self\<lparr>buffer := bb_content K self @ take (bs - length (bb_content K self)) input\<rparr> \<and>
      bs - length (bb_content K self) \<le> length input"
    "bb_content K self \<noteq> [] \<Longrightarrow> \<not> K_invariant K (length input) (bs - length (bb_content K self)) \<Longrightarrow> points \<noteq> []"
proof (cases "K_invariant K (length input) (bs - length (bb_content K self))")
  case True
  then show thesis using compress_points_fit [OF wf] by (intro that [of "[]"]) auto
next
  case False
  let ?d = "bb_content K self"
  let ?r = "bs - length ?d"
  have p: "K_invariant K (length ?d) bs" "0 < bs" using wf by (rule wf_cases, simp)+
  obtain B t where Bt: "K_split_blocks K bs (drop ?r input) = (B, t)" by fastforce
  have le: "?r \<le> length input" using less_invariant False by (meson not_le)
  note split = split_completes [OF p(2,1) refl False Bt]
  show thesis
    by (rule that [OF compress_points_eq [OF wf False refl split]]) (use le in \<open>auto split: if_splits\<close>)
qed

end

lemma eager_pos_of_buffer:
  assumes "length (buffer self) = bs" "0 < bs"
  shows "bb_get_pos Eager bs self =
    (if unat (last (buffer self)) < bs then Return (unat (last (buffer self))) else Panic Undefined_Behaviour)"
proof -
  have "eager_get_pos (buffer self) () = Return (unat (last (buffer self)))"
    using assms by (auto simp: eager_get_pos_def checked_sub_def index_at_def last_conv_nth)
  then show ?thesis by (simp add: bb_get_pos_def Eager_def eager_invariant_def)
qed

lemma pad_points_eq:
  fixes delim :: u8
  assumes wf: "bb_wf Eager bs self" and suf: "length suffix \<le> bs"
  defines "blocks \<equiv> pad_blocks bs (bb_content Eager self) delim suffix"
  shows "pad_points bs self delim suffix = Return (replicate (length blocks) (self\<lparr>buffer := hd blocks\<rparr>))"
proof -
  define d where "d = bb_content Eager self"
  obtain p where p: "bb_get_pos Eager bs self = Return p" "p < bs" "d = take p (buffer self)" "length d = p"
    "length (buffer self) = bs"
    using wf unfolding d_def by (rule eager_wf_cases)
  note steps = pad_fill [OF p(2-5), of delim] checked_sub_def
  have "copy_at (filled_block bs d delim) (bs - length suffix) bs suffix =
      Return (take (bs - length suffix) (filled_block bs d delim) @ suffix)"
    using suf steps(4) by (simp add: copy_at_def)
  then show ?thesis
    using suf p(1,2,4) steps unfolding blocks_def d_def [symmetric]
    by (cases "bs - Suc p < length suffix") (auto simp: pad_points_def pad_blocks_def Let_def numeral_2_eq_2)
qed

section \<open>Reachable buffers\<close>

text \<open>
  The states a client can bring a buffer into through the public operations: those of
  \<open>impl BlockBuffer<BS, K>\<close>, and those of one kind only, where \<open>made\<close> says which buffers
  \<open>deserialize\<close> makes and \<open>moved\<close> what the other operations of the kind do.  A closure that returns has no
  influence on the buffer, so one without state stands for all of these.  A lazy buffer may also be left by a closure that
  panics; what that does to an eager buffer is \<open>unwinding_compress_position\<close> below.
\<close>

inductive bb_reachable ::
  "'p sealed \<Rightarrow> nat \<Rightarrow> ('p block_buffer \<Rightarrow> bool) \<Rightarrow> ('p block_buffer \<Rightarrow> 'p block_buffer \<Rightarrow> bool) \<Rightarrow> 'p block_buffer \<Rightarrow> bool"
  for K bs made moved where
  default: "bb_reachable K bs made moved (bb_default K bs)"
| new: "bb_new K bs buf = Return self \<Longrightarrow> bb_reachable K bs made moved self"
| try_new: "try_new K bs buf = Return (Ok self) \<Longrightarrow> bb_reachable K bs made moved self"
| made: "made self \<Longrightarrow> bb_reachable K bs made moved self"
| clone: "bb_reachable K bs made moved self \<Longrightarrow> bb_clone self = self' \<Longrightarrow> bb_reachable K bs made moved self'"
| digest: "bb_reachable K bs made moved self \<Longrightarrow> digest_blocks K bs (\<lambda>_ _. ()) self input () = Return (self', ())
     \<Longrightarrow> bb_reachable K bs made moved self'"
| reset: "bb_reachable K bs made moved self \<Longrightarrow> bb_reset K bs self = Return self' \<Longrightarrow> bb_reachable K bs made moved self'"
| pad_zeros: "bb_reachable K bs made moved self \<Longrightarrow> pad_with_zeros K bs self = Return (block, self')
     \<Longrightarrow> bb_reachable K bs made moved self'"
| set: "bb_reachable K bs made moved self \<Longrightarrow> length buf = bs \<Longrightarrow> bb_set K bs self buf p = Return self'
     \<Longrightarrow> bb_reachable K bs made moved self'"
| moved: "bb_reachable K bs made moved self \<Longrightarrow> moved self self' \<Longrightarrow> bb_reachable K bs made moved self'"

inductive eager_made :: "nat \<Rightarrow> unit block_buffer \<Rightarrow> bool" for bs where
  "length buf = bs \<Longrightarrow> eager_deserialize bs buf = Return (Ok self) \<Longrightarrow> eager_made bs self"

inductive eager_moved :: "nat \<Rightarrow> unit block_buffer \<Rightarrow> unit block_buffer \<Rightarrow> bool" for bs where
  digest_pad: "digest_pad bs (\<lambda>_ _. ()) self delim suffix () = Return (self', ()) \<Longrightarrow> eager_moved bs self self'"
| len64_padding_be: "len64_padding_be bs (\<lambda>_ _. ()) self len () = Return (self', ()) \<Longrightarrow> eager_moved bs self self'"
| len64_padding_le: "len64_padding_le bs (\<lambda>_ _. ()) self len () = Return (self', ()) \<Longrightarrow> eager_moved bs self self'"
| len128_padding_be: "len128_padding_be bs (\<lambda>_ _. ()) self len' () = Return (self', ()) \<Longrightarrow> eager_moved bs self self'"

inductive lazy_made :: "nat \<Rightarrow> u8 block_buffer \<Rightarrow> bool" for bs where
  "length buf = bs + 1 \<Longrightarrow> lazy_deserialize bs buf = Return (Ok self) \<Longrightarrow> lazy_made bs self"

inductive lazy_moved :: "nat \<Rightarrow> u8 block_buffer \<Rightarrow> u8 block_buffer \<Rightarrow> bool" for bs where
  unwound: "compress_points Lazy bs self input = Return points \<Longrightarrow> self' \<in> set points \<Longrightarrow> lazy_moved bs self self'"

abbreviation eager_reachable :: "nat \<Rightarrow> unit block_buffer \<Rightarrow> bool" where
  "eager_reachable bs \<equiv> bb_reachable Eager bs (eager_made bs) (eager_moved bs)"

abbreviation lazy_reachable :: "nat \<Rightarrow> u8 block_buffer \<Rightarrow> bool" where
  "lazy_reachable bs \<equiv> bb_reachable Lazy bs (lazy_made bs) (lazy_moved bs)"

context buffer_kind
begin

lemma reachable_wf:
  assumes "bb_reachable K bs made moved self" and "block_sizes bs"
    and "\<And>self. made self \<Longrightarrow> bb_wf K bs self"
    and "\<And>self self'. moved self self' \<Longrightarrow> bb_wf K bs self \<Longrightarrow> bb_wf K bs self'"
  shows "bb_wf K bs self"
  using assms
proof (induction rule: bb_reachable.induct)
  case (new buf self)
  then show ?case using try_new_content [of bs buf] by (auto simp: bb_new_def unwrap_def split: if_splits)
next
  case (digest self input self')
  have unit: "(\<lambda>_ _. ()) = foldl (\<lambda>_ _. ())" by (intro ext) simp
  have wf: "bb_wf K bs self" using digest by simp
  obtain blocks tail where "K_split_blocks K bs (bb_content K self @ input) = (blocks, tail)" by fastforce
  with digest(2) show ?case using digest_blocks_step [OF wf, of input blocks tail "\<lambda>_ _. ()" "()"]
    unfolding unit by auto
next
  case (reset self self')
  then have "length (buffer self) = bs" "K_invariant K 0 bs"
    using less_invariant by (auto simp: bb_wf_def block_sizes_def)
  with reset set_pos_unchecked_wf [of bs self 0] show ?case by (auto simp: bb_reset_def)
next
  case (try_new buf self)
  then show ?case using try_new_content [of bs buf] by (auto split: if_splits)
next
  case (pad_zeros self block self')
  then show ?case using pad_with_zeros_content [of bs self] by auto
next
  case (set self buf p self')
  then show ?case
    using set_pos_unchecked_wf [of bs "self\<lparr>buffer := buf\<rparr>" p] by (auto simp: bb_set_def)
qed (auto intro: default_wf)

end

lemma digest_pad_wf:
  assumes "bb_wf Eager bs self" "digest_pad bs f self delim suffix s = Return (self', s')"
  shows "bb_wf Eager bs self'"
proof -
  have "length suffix \<le> bs" using assms(2) by (auto simp: digest_pad_def split: if_splits)
  from digest_pad_blocks [OF assms(1) this, of f delim s] assms(2) show ?thesis by auto
qed

lemma eager_reachable_wf: "eager_reachable bs self \<Longrightarrow> block_sizes bs \<Longrightarrow> bb_wf Eager bs self"
  by (erule eager.reachable_wf)
    (auto elim!: eager_made.cases eager_moved.cases dest: eager_deserialize_sound [OF refl] digest_pad_wf
      simp: len64_padding_be_def len64_padding_le_def len128_padding_be_def)

lemma lazy_unwound_wf:
  assumes "bb_wf Lazy bs self" "compress_points Lazy bs self input = Return points" "self' \<in> set points"
  shows "bb_wf Lazy bs self'"
proof (rule lazy.compress_points_cases [OF assms(1), of input])
  let ?d = "bb_content Lazy self"
  fix points' assume p: "compress_points Lazy bs self input = Return points'"
    "\<And>self'. self' \<in> set points' \<Longrightarrow> ?d = [] \<Longrightarrow> self' = self"
    "\<And>self'. self' \<in> set points' \<Longrightarrow> ?d \<noteq> [] \<Longrightarrow>
      self' = self\<lparr>buffer := ?d @ take (bs - length ?d) input\<rparr> \<and> bs - length ?d \<le> length input"
  have "self' \<in> set points'" using p(1) assms(2,3) by simp
  moreover have "length ?d \<le> bs" using assms(1) by (auto simp: lazy_wf_iff)
  ultimately show ?thesis
    using p(2,3) [of self'] assms(1) by (cases "?d = []") (auto simp: lazy_wf_iff simp del: lazy_content)
qed

lemma lazy_reachable_wf: "lazy_reachable bs self \<Longrightarrow> block_sizes bs \<Longrightarrow> bb_wf Lazy bs self"
  by (erule lazy.reachable_wf)
    (auto elim!: lazy_made.cases lazy_moved.cases dest: lazy_deserialize_sound lazy_unwound_wf)

section \<open>Properties\<close>

text \<open>
  (C1) The eager buffer is a streaming block splitter.  From a default buffer, feeding any sequence
  of slices never panics, hands the compression function the full blocks of the concatenated
  input in order, and leaves exactly the \<open>total mod BlockSize\<close> bytes after them in the buffer: how
  the input is cut into calls does not matter.
\<close>

theorem eager_digest_stream:
  assumes "block_sizes bs"
  shows "\<exists>self' blocks tail.
           digest_all Eager bs f (bb_default Eager bs) inputs s = Return (self', foldl f s blocks) \<and>
           get_data Eager bs self' = Return tail \<and> concat blocks @ tail = concat inputs \<and>
           (\<forall>b \<in> set blocks. length b = bs) \<and> length tail = length (concat inputs) mod bs"
proof -
  obtain blocks tail where split: "eager_split_blocks bs (concat inputs) = (blocks, tail)" by fastforce
  then have "K_split_blocks Eager bs (concat inputs) = (blocks, tail)" by (simp add: Eager_def)
  with eager.digest_all_from_default [OF assms] show ?thesis
    using eager_split_law [OF _ split] assms unfolding block_sizes_def by metis
qed

theorem eager_digest_stream_witness:
  "\<exists>self' blocks tail.
     digest_all Eager 4 (\<lambda>s b. s @ [b]) (bb_default Eager 4) [[1, 2, 3], [4, 5, 6, 7], [8, 9]] [] =
       Return (self', foldl (\<lambda>s b. s @ [b]) [] blocks) \<and>
     get_data Eager 4 self' = Return tail \<and> concat blocks @ tail = concat [[1, 2, 3], [4, 5, 6, 7], [8, 9]] \<and>
     (\<forall>b \<in> set blocks. length b = 4) \<and> length tail = length (concat [[1, 2, 3], [4, 5, 6, 7], [8, 9 :: u8]]) mod 4"
  by (rule eager_digest_stream) (simp add: block_sizes_def)

text \<open>
  The lazy buffer holds back the last block: after any sequence of calls the bytes handed to
  the compression function and the buffered tail are the input, the tail has at most
  \<open>BlockSize\<close> bytes, and it is empty only when no input was given, so the final block is always
  still in the buffer.
\<close>

theorem lazy_digest_stream:
  assumes "block_sizes bs"
  shows "\<exists>self' blocks tail.
           digest_all Lazy bs f (bb_default Lazy bs) inputs s = Return (self', foldl f s blocks) \<and>
           get_data Lazy bs self' = Return tail \<and> concat blocks @ tail = concat inputs \<and>
           (\<forall>b \<in> set blocks. length b = bs) \<and> length tail \<le> bs \<and> (tail = [] \<longleftrightarrow> concat inputs = [])"
proof -
  obtain blocks tail where split: "lazy_split_blocks bs (concat inputs) = (blocks, tail)" by fastforce
  then have "K_split_blocks Lazy bs (concat inputs) = (blocks, tail)" by (simp add: Lazy_def)
  with lazy.digest_all_from_default [OF assms] show ?thesis
    using lazy_split_law [OF _ split] assms unfolding block_sizes_def by (metis append_is_Nil_conv)
qed

theorem lazy_digest_stream_witness:
  "\<exists>self' blocks tail.
     digest_all Lazy 2 (\<lambda>s b. s @ [b]) (bb_default Lazy 2) [[1, 2], [3, 4]] [] =
       Return (self', foldl (\<lambda>s b. s @ [b]) [] blocks) \<and>
     get_data Lazy 2 self' = Return tail \<and> concat blocks @ tail = concat [[1, 2], [3, 4]] \<and>
     (\<forall>b \<in> set blocks. length b = 2) \<and> length tail \<le> 2 \<and> (tail = [] \<longleftrightarrow> concat [[1, 2], [3, 4 :: u8]] = [])"
  by (rule lazy_digest_stream) (simp add: block_sizes_def)

text \<open>
  (C14) Merkle-Damgaard padding: digesting a message in pieces and closing it with
  \<open>len64_padding_be\<close> feeds the compression function exactly the blocks of
  \<open>message, 0x80, z zero bytes, 64-bit big-endian length\<close> with the number \<open>z\<close> of zeros below the block size, so
  never more blocks than needed, and leaves the buffer empty.
\<close>

theorem len64_padding_be_stream:
  assumes "block_sizes bs" and "8 \<le> bs"
  shows "\<exists>self1 s1 self2 blocks z.
           digest_all Eager bs f (bb_default Eager bs) inputs s = Return (self1, s1) \<and>
           len64_padding_be bs f self1 data_len s1 = Return (self2, foldl f s blocks) \<and>
           get_data Eager bs self2 = Return [] \<and> z < bs \<and>
           concat blocks = concat inputs @ 0x80 # replicate z 0 @ to_be_bytes data_len \<and>
           (\<forall>b \<in> set blocks. length b = bs)"
  using digest_then_pad [OF assms(1), of "to_be_bytes data_len" f inputs s "0x80"] assms(2)
  by (simp add: len64_padding_be_def)

theorem len64_padding_be_stream_witness:
  "\<exists>self1 s1 self2 blocks z.
     digest_all Eager 16 (\<lambda>s b. b # s) (bb_default Eager 16) [[1, 2, 3], [4, 5, 6, 7, 8, 9]] [] = Return (self1, s1) \<and>
     len64_padding_be 16 (\<lambda>s b. b # s) self1 72 s1 = Return (self2, foldl (\<lambda>s b. b # s) [] blocks) \<and>
     get_data Eager 16 self2 = Return [] \<and> z < 16 \<and>
     concat blocks = concat [[1, 2, 3], [4, 5, 6, 7, 8, 9]] @ 0x80 # replicate z 0 @ to_be_bytes (72 :: u64) \<and>
     (\<forall>b \<in> set blocks. length b = 16)"
  by (rule len64_padding_be_stream) (simp_all add: block_sizes_def)

text \<open>
  (C23) \<open>digest_pad\<close> on any sound buffer with any delimiter: a suffix longer than a block panics, and
  any other suffix gives the blocks of \<open>buffered bytes, delimiter, zeros, suffix\<close>, where the
  blocks are as few as possible, and an empty buffer.
\<close>

theorem digest_pad_correct:
  assumes "bb_wf Eager bs self" and "get_data Eager bs self = Return data"
  shows "if bs < length suffix then digest_pad bs f self delim suffix s = Panic (Message ''suffix is too long'')
         else \<exists>self' blocks z. digest_pad bs f self delim suffix s = Return (self', foldl f s blocks) \<and>
           get_data Eager bs self' = Return [] \<and> concat blocks = data @ delim # replicate z 0 @ suffix \<and>
           z < bs \<and> (\<forall>b \<in> set blocks. length b = bs)"
proof (cases "bs < length suffix")
  case False
  have data: "bb_content Eager self = data"
    using assms(2) eager.get_data_content [OF assms(1)] by simp
  have less: "length data < bs" using assms(1) by (rule eager_wf_cases) (simp add: data)
  obtain self' blocks where "digest_pad bs f self delim suffix s = Return (self', foldl f s blocks)"
      "bb_wf Eager bs self'" "bb_content Eager self' = []" "\<forall>b \<in> set blocks. length b = bs"
      "concat blocks = data @ delim # replicate (pad_zeros bs (length data) (length suffix)) 0 @ suffix"
    using digest_pad_blocks [OF assms(1), of suffix f delim s] False data by auto
  then show ?thesis
    using False pad_zeros_less [OF less] eager.get_data_content [of bs self'] by auto
qed (simp add: digest_pad_def)

theorem digest_pad_correct_witness:
  "if 4 < length [5 :: u8] then digest_pad 4 (\<lambda>s b. b # s) \<lparr>buffer = [1, 2, 3, 3], pos = ()\<rparr> 0x80 [5] [] =
       Panic (Message ''suffix is too long'')
   else \<exists>self' blocks z. digest_pad 4 (\<lambda>s b. b # s) \<lparr>buffer = [1, 2, 3, 3], pos = ()\<rparr> 0x80 [5] [] =
       Return (self', foldl (\<lambda>s b. b # s) [] blocks) \<and>
     get_data Eager 4 self' = Return [] \<and> concat blocks = [1, 2, 3] @ 0x80 # replicate z 0 @ [5] \<and>
     z < 4 \<and> (\<forall>b \<in> set blocks. length b = 4)"
  by (rule digest_pad_correct)
     (simp_all add: bb_wf_def get_data_def bb_get_pos_def Eager_def eager_get_pos_def eager_invariant_def
        block_sizes_def rust_simps)

text \<open>
  Serialisation keeps the content of every sound buffer, eager or lazy: \<open>serialize\<close> returns, \<open>deserialize\<close>
  accepts its output and the restored buffer holds the same bytes.
\<close>

theorem serialize_roundtrip:
  "(bb_wf Eager bs e \<longrightarrow> (\<exists>out e'. eager_serialize bs e = Return out \<and> eager_deserialize bs out = Return (Ok e') \<and>
      get_data Eager bs e' = get_data Eager bs e)) \<and>
   (bb_wf Lazy bs l \<longrightarrow> (\<exists>out l'. lazy_serialize bs l = Return out \<and> lazy_deserialize bs out = Return (Ok l') \<and>
      get_data Lazy bs l' = get_data Lazy bs l))"
  using eager_roundtrip [of bs e] lazy_roundtrip [of bs l] eager.get_data_content lazy.get_data_content
  by metis

theorem serialize_roundtrip_witness:
  "\<exists>out l'. lazy_serialize 3 \<lparr>buffer = [7, 8, 9], pos = 2\<rparr> = Return out \<and> lazy_deserialize 3 out = Return (Ok l') \<and>
      get_data Lazy 3 l' = get_data Lazy 3 \<lparr>buffer = [7, 8, 9], pos = 2\<rparr>"
  using serialize_roundtrip [of 3 undefined "\<lparr>buffer = [7, 8, 9], pos = 2\<rparr>"]
  by (simp add: lazy_wf_iff block_sizes_def)

text \<open>
  (C26) \<open>deserialize\<close> is strict: it returns on every array of the right size, and the buffer it accepts is
  sound and serialises back to the very same array, so stale bytes and positions out of range are
  refused.
\<close>

theorem deserialize_strict:
  assumes "block_sizes bs" and "length a = bs" and "length c = bs + 1"
  shows "(\<exists>r. eager_deserialize bs a = Return r \<and>
            (\<forall>e. r = Ok e \<longrightarrow> bb_wf Eager bs e \<and> eager_serialize bs e = Return a)) \<and>
         (\<exists>r. lazy_deserialize bs c = Return r \<and>
            (\<forall>l. r = Ok l \<longrightarrow> bb_wf Lazy bs l \<and> lazy_serialize bs l = Return c))"
proof -
  show ?thesis
    using deserialize_returns(1) [OF assms(1,2)] deserialize_returns(2) [OF assms(1,3)]
    unfolding returns_iff
    using eager_deserialize_sound [OF assms(2,1)] lazy_deserialize_sound [OF assms(3,1)] by metis
qed

theorem deserialize_strict_witness:
  "(\<exists>r. eager_deserialize 2 [5, 1] = Return r \<and>
      (\<forall>e. r = Ok e \<longrightarrow> bb_wf Eager 2 e \<and> eager_serialize 2 e = Return [5, 1])) \<and>
   (\<exists>r. lazy_deserialize 2 [1, 5, 0] = Return r \<and>
      (\<forall>l. r = Ok l \<longrightarrow> bb_wf Lazy 2 l \<and> lazy_serialize 2 l = Return [1, 5, 0]))"
  by (rule deserialize_strict) (simp_all add: block_sizes_def)

text \<open>
  (C27) The promise behind \<open>unreachable_unchecked\<close>: in every state that the public operations can bring a buffer
  into, whatever call panicked before, the stored position satisfies the invariant of the kind, \<open>get_pos\<close>,
  \<open>remaining\<close>, \<open>get_data\<close> and \<open>pad_with_zeros\<close> return, and position and remaining
  size add up to the block size.  The operations are \<open>default\<close>, \<open>new\<close>, \<open>try_new\<close>, \<open>deserialize\<close>,
  \<open>clone\<close>, \<open>digest_blocks\<close>, \<open>reset\<close>, \<open>pad_with_zeros\<close>, \<open>set\<close> and, for the eager buffer,
  \<open>digest_pad\<close> and the three length paddings.  The closures given to an eager buffer return; those given to a lazy
  buffer may panic.
\<close>

theorem reachable_buffer_safe:
  assumes "block_sizes bs" and "lazy_reachable bs l" and "eager_reachable bs e"
  shows "(\<exists>p r. bb_get_pos Lazy bs l = Return p \<and> bb_remaining Lazy bs l = Return r \<and> p + r = bs \<and>
            returns (get_data Lazy bs l) \<and> returns (pad_with_zeros Lazy bs l)) \<and>
         (\<exists>p r. bb_get_pos Eager bs e = Return p \<and> bb_remaining Eager bs e = Return r \<and> p + r = bs \<and> 0 < r \<and>
            returns (get_data Eager bs e) \<and> returns (pad_with_zeros Eager bs e))"
proof -
  have wf: "bb_wf Lazy bs l" "bb_wf Eager bs e"
    using lazy_reachable_wf eager_reachable_wf assms by blast+
  obtain p where "bb_get_pos Eager bs e = Return p" "p < bs" using wf(2) by (rule eager_wf_cases)
  moreover obtain q where "bb_get_pos Lazy bs l = Return q" "q \<le> bs" using wf(1) by (rule lazy.wf_cases)
  ultimately show ?thesis
    using wf lazy.get_data_content [OF wf(1)] eager.get_data_content [OF wf(2)]
      lazy.pad_with_zeros_content [OF wf(1)] eager.pad_with_zeros_content [OF wf(2)]
    by (auto simp: bb_remaining_def checked_sub_def)
qed

theorem reachable_buffer_safe_witness:
  "(\<exists>p r. bb_get_pos Lazy 2 \<lparr>buffer = [1, 7], pos = 1\<rparr> = Return p \<and> bb_remaining Lazy 2 \<lparr>buffer = [1, 7], pos = 1\<rparr> = Return r \<and>
      p + r = 2 \<and> returns (get_data Lazy 2 \<lparr>buffer = [1, 7], pos = 1\<rparr>) \<and>
      returns (pad_with_zeros Lazy 2 \<lparr>buffer = [1, 7], pos = 1\<rparr>)) \<and>
   (\<exists>p r. bb_get_pos Eager 2 \<lparr>buffer = [0x80, 0], pos = ()\<rparr> = Return p \<and>
      bb_remaining Eager 2 \<lparr>buffer = [0x80, 0], pos = ()\<rparr> = Return r \<and> p + r = 2 \<and> 0 < r \<and>
      returns (get_data Eager 2 \<lparr>buffer = [0x80, 0], pos = ()\<rparr>) \<and>
      returns (pad_with_zeros Eager 2 \<lparr>buffer = [0x80, 0], pos = ()\<rparr>))"
proof (rule reachable_buffer_safe)
  show "block_sizes 2" by (simp add: block_sizes_def)
  have "lazy_made 2 \<lparr>buffer = [1, 0], pos = 1\<rparr>"
    by (rule lazy_made.intros [of "[1, 1, 0]"]) (simp_all add: lazy_deserialize_Ok)
  then have "lazy_reachable 2 \<lparr>buffer = [1, 0], pos = 1\<rparr>" by (rule bb_reachable.made)
  moreover have "lazy_moved 2 \<lparr>buffer = [1, 0], pos = 1\<rparr> \<lparr>buffer = [1, 7], pos = 1\<rparr>"
    by (rule lazy_moved.unwound [of _ _ "[7, 8]" "[\<lparr>buffer = [1, 7], pos = 1\<rparr>]"])
      (simp_all add: compress_points_def bb_get_pos_def Lazy_def lazy_get_pos_def lazy_invariant_def lazy_split_blocks_def
        rust_simps overwrite_def)
  ultimately show "lazy_reachable 2 \<lparr>buffer = [1, 7], pos = 1\<rparr>" by (rule bb_reachable.moved)
  have "eager_moved 2 (bb_default Eager 2) \<lparr>buffer = [0x80, 0], pos = ()\<rparr>"
    by (rule eager_moved.digest_pad [where delim = "0x80" and suffix = "[]"])
      (simp add: digest_pad_def bb_default_def bb_get_pos_def set_pos_unchecked_def Eager_def eager_get_pos_def eager_set_pos_def
        eager_invariant_def rust_simps overwrite_def numeral_2_eq_2)
  then show "eager_reachable 2 \<lparr>buffer = [0x80, 0], pos = ()\<rparr>" by (rule bb_reachable.moved [OF bb_reachable.default])
qed

text \<open>
  (C35) What a panic of \<open>compress\<close> leaves.  The eager buffer keeps its position in the last byte of the array, and
  \<open>digest_blocks\<close> completes the block there before it calls \<open>compress\<close>.  If the closure panics, the buffer the
  client still has takes a byte of the input for its position: the last one of the completed block.  When that byte is not below the block size,
  the next \<open>get_pos\<close> runs into \<open>unreachable_unchecked\<close>, from safe code (in a debug build, into the
  \<open>debug_assert\<close> before it).  The same holds for
  \<open>digest_pad\<close> with the last byte of the first block it compresses.  An eager buffer that was empty before
  \<open>digest_blocks\<close>, and every lazy buffer, stay sound.
\<close>

theorem unwinding_compress_position:
  assumes "bb_wf Eager bs e" and "get_data Eager bs e = Return d" and "bb_wf Lazy bs l"
  shows "(d \<noteq> [] \<and> bs - length d \<le> length input \<longrightarrow>
      (\<exists>points. compress_points Eager bs e input = Return points \<and> points \<noteq> [] \<and>
        (let b = input ! (bs - length d - 1) in \<forall>e' \<in> set points.
          bb_get_pos Eager bs e' = (if unat b < bs then Return (unat b) else Panic Undefined_Behaviour)))) \<and>
    (d = [] \<longrightarrow> (\<exists>points. compress_points Eager bs e input = Return points \<and> set points \<subseteq> {e})) \<and>
    (length suffix \<le> bs \<longrightarrow>
      (\<exists>points. pad_points bs e delim suffix = Return points \<and> points \<noteq> [] \<and>
        (let b = last (hd (pad_blocks bs d delim suffix)) in \<forall>e' \<in> set points.
          bb_get_pos Eager bs e' = (if unat b < bs then Return (unat b) else Panic Undefined_Behaviour)))) \<and>
    (\<exists>points. compress_points Lazy bs l input = Return points \<and> (\<forall>l' \<in> set points. bb_wf Lazy bs l'))"
proof (intro conjI impI)
  have d: "bb_content Eager e = d" using assms(2) eager.get_data_content [OF assms(1)] by simp
  have p: "length d < bs" using assms(1) by (rule eager_wf_cases) (simp add: d)
  obtain points where pts: "compress_points Eager bs e input = Return points"
    "\<And>e'. e' \<in> set points \<Longrightarrow> d = [] \<Longrightarrow> e' = e"
    "\<And>e'. e' \<in> set points \<Longrightarrow> d \<noteq> [] \<Longrightarrow> e' = e\<lparr>buffer := d @ take (bs - length d) input\<rparr> \<and> bs - length d \<le> length input"
    "d \<noteq> [] \<Longrightarrow> \<not> K_invariant Eager (length input) (bs - length d) \<Longrightarrow> points \<noteq> []"
    using eager.compress_points_cases [OF assms(1), of input] unfolding d by metis
  {
    assume ne: "d \<noteq> [] \<and> bs - length d \<le> length input"
    let ?b = "d @ take (bs - length d) input"
    have "last ?b = input ! (bs - length d - 1)" "length ?b = bs"
      using ne p by (auto simp: last_append last_conv_nth)
    then have "bb_get_pos Eager bs (e\<lparr>buffer := ?b\<rparr>) = (let b = input ! (bs - length d - 1) in
        if unat b < bs then Return (unat b) else Panic Undefined_Behaviour)"
      using eager_pos_of_buffer [of "e\<lparr>buffer := ?b\<rparr>" bs] p by (simp add: Let_def)
    then show "\<exists>points. compress_points Eager bs e input = Return points \<and> points \<noteq> [] \<and>
        (let b = input ! (bs - length d - 1) in \<forall>e' \<in> set points.
          bb_get_pos Eager bs e' = (if unat b < bs then Return (unat b) else Panic Undefined_Behaviour))"
      using pts ne by (intro exI [of _ points]) (auto simp: Let_def Eager_def eager_invariant_def)
  }
  show "\<exists>points. compress_points Eager bs e input = Return points \<and> set points \<subseteq> {e}" if "d = []"
    using pts that by auto
  show "\<exists>points. pad_points bs e delim suffix = Return points \<and> points \<noteq> [] \<and>
      (let b = last (hd (pad_blocks bs d delim suffix)) in \<forall>e' \<in> set points.
        bb_get_pos Eager bs e' = (if unat b < bs then Return (unat b) else Panic Undefined_Behaviour))"
    if suf: "length suffix \<le> bs"
  proof -
    have ne: "pad_blocks bs d delim suffix \<noteq> []" by (simp add: pad_blocks_def Let_def)
    then have "length (hd (pad_blocks bs d delim suffix)) = bs" using pad_blocks_concat(2) [OF p suf, of delim] by simp
    then show ?thesis
      using pad_points_eq [OF assms(1) suf, of delim] ne p unfolding d
      by (auto simp: Let_def eager_pos_of_buffer)
  qed
  show "\<exists>points. compress_points Lazy bs l input = Return points \<and> (\<forall>l' \<in> set points. bb_wf Lazy bs l')"
    using lazy.compress_points_cases [OF assms(3), of input] lazy_unwound_wf [OF assms(3)] by metis
qed

theorem unwinding_compress_position_witness:
  "\<exists>points. compress_points Eager 2 \<lparr>buffer = [1, 1], pos = ()\<rparr> [7] = Return points \<and> points \<noteq> [] \<and>
     (\<forall>e' \<in> set points. bb_get_pos Eager 2 e' = Panic Undefined_Behaviour)"
proof -
  have "bb_wf Eager 2 \<lparr>buffer = [1, 1], pos = ()\<rparr>" "bb_wf Lazy 2 \<lparr>buffer = [1, 1], pos = 1\<rparr>"
    "get_data Eager 2 \<lparr>buffer = [1, 1], pos = ()\<rparr> = Return [1]"
    unfolding lazy_wf_iff
    by (simp_all add: bb_wf_def get_data_def bb_get_pos_def Eager_def eager_get_pos_def eager_invariant_def
        block_sizes_def rust_simps)
  from unwinding_compress_position [OF this(1,3,2), of "[7]" "[]" 0] show ?thesis by (simp add: Let_def)
qed

end
