(* ===== verification/Read_Buffer.thy ===== *)
theory Read_Buffer
  imports Block_Buffer
begin

text \<open>
  The second half of the crate \<^verbatim>\<open>block-buffer\<close>, \<^verbatim>\<open>read.rs\<close>: \<open>ReadBuffer\<close>, which turns a block
  generator into a byte stream.  The first byte of the stored block is overwritten by the cursor position.

  The closure \<open>gen_block: impl FnMut(&mut Block)\<close> is a function from the captured state and the
  block's old content to the new content and state.  The stream lemmas are about a generator
  that overwrites the whole block, given by its output \<open>blk\<close> and its next state \<open>nxt\<close>.
\<close>

section \<open>Operations\<close>

record read_buffer =
  rb_buffer :: bytes

definition rb_default :: "nat \<Rightarrow> read_buffer outcome" where
  "rb_default bs = and_then (set_at (replicate bs 0) 0 (of_nat bs)) (\<lambda>b. Return \<lparr>rb_buffer = b\<rparr>)"

definition rb_clone :: "read_buffer \<Rightarrow> read_buffer" where
  "rb_clone self = \<lparr>rb_buffer = rb_buffer self\<rparr>"

definition rb_get_pos :: "nat \<Rightarrow> read_buffer \<Rightarrow> nat outcome" where
  "rb_get_pos bs self =
     and_then (index_at (rb_buffer self) 0) (\<lambda>p.
       if p = 0 \<or> p > of_nat bs then Panic Undefined_Behaviour else Return (unat p))"

text \<open>The \<open>Debug\<close> output: the name of the structure and its only entry.\<close>

definition rb_debug :: "nat \<Rightarrow> read_buffer \<Rightarrow> (string \<times> (string \<times> nat) list) outcome" where
  "rb_debug bs self = and_then (rb_get_pos bs self) (\<lambda>p. Return (''ReadBuffer'', [(''remaining_data'', p)]))"

definition rb_remaining :: "nat \<Rightarrow> read_buffer \<Rightarrow> nat outcome" where
  "rb_remaining bs self = and_then (rb_get_pos bs self) (\<lambda>p. checked_sub bs p)"

definition rb_set_pos_unchecked :: "nat \<Rightarrow> read_buffer \<Rightarrow> nat \<Rightarrow> read_buffer outcome" where
  "rb_set_pos_unchecked bs self p =
     and_then (rust_assert (p \<le> bs) Assert_Failed) (\<lambda>_.
     and_then (set_at (rb_buffer self) 0 (of_nat p)) (\<lambda>b. Return (self\<lparr>rb_buffer := b\<rparr>)))"

definition to_blocks_mut :: "nat \<Rightarrow> bytes \<Rightarrow> (bytes list \<times> bytes) outcome" where
  "to_blocks_mut bs data =
     (let nb = length data div bs in
      and_then (split_at data (nb * bs)) (\<lambda>(left, right). Return (chunks_of bs nb left, right)))"

text \<open>The loop \<open>for block in blocks { gen_block(block) }\<close>, with the blocks it leaves behind.\<close>

fun gen_blocks :: "('g \<Rightarrow> bytes \<Rightarrow> bytes \<times> 'g) \<Rightarrow> 'g \<Rightarrow> bytes list \<Rightarrow> bytes list \<times> 'g" where
  "gen_blocks gen_block g [] = ([], g)"
| "gen_blocks gen_block g (b # bs) =
     (let (b', g') = gen_block g b; (bs', g'') = gen_blocks gen_block g' bs in (b' # bs', g''))"

text \<open>
  \<open>read\<close> returns the new buffer, the bytes it wrote over \<open>data\<close> and the generator's state.  Its second
  half, from \<open>to_blocks_mut\<close> on, works on the part of \<open>data\<close> the buffered bytes left open.
\<close>

definition rb_generate ::
  "nat \<Rightarrow> ('g \<Rightarrow> bytes \<Rightarrow> bytes \<times> 'g) \<Rightarrow> read_buffer \<Rightarrow> bytes \<Rightarrow> 'g \<Rightarrow> (read_buffer \<times> bytes \<times> 'g) outcome" where
  "rb_generate bs gen_block self data g =
     and_then (to_blocks_mut bs data) (\<lambda>(blocks, leftover).
       let (blocks, g) = gen_blocks gen_block g blocks; n = length leftover in
       if n \<noteq> 0 then
         let (block, g) = gen_block g (replicate bs 0) in
         and_then (slice_to block n) (\<lambda>src.
         and_then (copy_at leftover 0 (length leftover) src) (\<lambda>leftover.
         and_then (rb_set_pos_unchecked bs (self\<lparr>rb_buffer := block\<rparr>) n) (\<lambda>self'.
           Return (self', concat blocks @ leftover, g))))
       else
         and_then (rb_set_pos_unchecked bs self bs) (\<lambda>self'.
           Return (self', concat blocks @ leftover, g)))"

definition rb_read ::
  "nat \<Rightarrow> ('g \<Rightarrow> bytes \<Rightarrow> bytes \<times> 'g) \<Rightarrow> read_buffer \<Rightarrow> bytes \<Rightarrow> 'g \<Rightarrow> (read_buffer \<times> bytes \<times> 'g) outcome" where
  "rb_read bs gen_block self data g =
     and_then (rb_get_pos bs self) (\<lambda>p.
     and_then (rb_remaining bs self) (\<lambda>r.
       let n = length data in
       if r \<noteq> 0 then
         if n < r then
           and_then (slice (rb_buffer self) p (p + n)) (\<lambda>src.
           and_then (copy_at data 0 n src) (\<lambda>data.
           and_then (rb_set_pos_unchecked bs self (p + n)) (\<lambda>self'. Return (self', data, g))))
         else
           and_then (split_at data r) (\<lambda>(left, right).
           and_then (slice_from (rb_buffer self) p) (\<lambda>src.
           and_then (copy_at left 0 (length left) src) (\<lambda>left.
           and_then (rb_generate bs gen_block self right g) (\<lambda>(self', right, g).
             Return (self', left @ right, g)))))
       else rb_generate bs gen_block self data g))"

definition rb_serialize :: "nat \<Rightarrow> read_buffer \<Rightarrow> bytes outcome" where
  "rb_serialize bs self = and_then (rb_get_pos bs self) (\<lambda>p. fill_range (rb_buffer self) 1 p 0)"

definition rb_deserialize :: "nat \<Rightarrow> bytes \<Rightarrow> (Error, read_buffer) result outcome" where
  "rb_deserialize bs buf =
     and_then (index_at buf 0) (\<lambda>p.
       if p = 0 \<or> p > of_nat bs then Return (Err Error)
       else
         and_then (slice buf 1 (unat p)) (\<lambda>gap.
           if \<exists>b \<in> set gap. b \<noteq> 0 then Return (Err Error) else Return (Ok \<lparr>rb_buffer = buf\<rparr>)))"

text \<open>A client that reads into a sequence of slices.\<close>

fun rb_read_all ::
  "nat \<Rightarrow> ('g \<Rightarrow> bytes \<Rightarrow> bytes \<times> 'g) \<Rightarrow> read_buffer \<Rightarrow> bytes list \<Rightarrow> 'g
     \<Rightarrow> (read_buffer \<times> bytes list \<times> 'g) outcome" where
  "rb_read_all bs gen_block self [] g = Return (self, [], g)"
| "rb_read_all bs gen_block self (d # ds) g =
     and_then (rb_read bs gen_block self d g) (\<lambda>(self, out, g).
     and_then (rb_read_all bs gen_block self ds g) (\<lambda>(self, outs, g). Return (self, out # outs, g)))"

section \<open>Invariant and content\<close>

definition rb_wf :: "nat \<Rightarrow> read_buffer \<Rightarrow> bool" where
  "rb_wf bs self \<longleftrightarrow> block_sizes bs \<and> length (rb_buffer self) = bs \<and> returns (rb_get_pos bs self)"

text \<open>The bytes not yet delivered.\<close>

definition rb_content :: "read_buffer \<Rightarrow> bytes" where
  "rb_content self = drop (unat (hd (rb_buffer self))) (rb_buffer self)"

lemma word8_less_eq_nat: "bs < 256 \<Longrightarrow> (of_nat bs < (w :: u8)) \<longleftrightarrow> bs < unat w"
  by (simp add: word_less_nat_alt)

lemma rb_clone_eq [simp]: "rb_clone self = self"
  by (simp add: rb_clone_def)

lemma rb_get_pos_eq:
  assumes "block_sizes bs" "length (rb_buffer self) = bs"
  shows "rb_get_pos bs self =
    (if 0 < unat (hd (rb_buffer self)) \<and> unat (hd (rb_buffer self)) \<le> bs
     then Return (unat (hd (rb_buffer self))) else Panic Undefined_Behaviour)"
  using assms
  by (cases "rb_buffer self")
     (auto simp: rb_get_pos_def index_at_def block_sizes_def word8_less_eq_nat u8_eq_0_iff)

lemma rb_wf_iff:
  "rb_wf bs self \<longleftrightarrow> block_sizes bs \<and> length (rb_buffer self) = bs \<and>
     0 < unat (hd (rb_buffer self)) \<and> unat (hd (rb_buffer self)) \<le> bs"
  by (auto simp: rb_wf_def rb_get_pos_eq split: if_splits)

lemma rb_wf_cases:
  assumes "rb_wf bs self"
  obtains p where "rb_get_pos bs self = Return p" "rb_remaining bs self = Return (bs - p)" "0 < p" "p \<le> bs"
    "rb_content self = drop p (rb_buffer self)" "length (rb_buffer self) = bs" "block_sizes bs"
    "p = unat (hd (rb_buffer self))"
  using assms rb_get_pos_eq [of bs self]
  by (auto simp: rb_wf_iff rb_content_def rb_remaining_def checked_sub_def)

text \<open>What \<open>Debug\<close> calls the remaining data is the position: the two agree only in the middle of a block.\<close>

lemma debug_shows_position:
  assumes "rb_wf bs self"
  shows "\<exists>p r. rb_debug bs self = Return (''ReadBuffer'', [(''remaining_data'', p)]) \<and> rb_remaining bs self = Return r \<and>
    (p = r \<longleftrightarrow> 2 * r = bs)"
  using assms by (rule rb_wf_cases) (auto simp: rb_debug_def)

lemma hd_update: "xs \<noteq> [] \<Longrightarrow> hd (xs[0 := v]) = v"
  by (cases xs) auto

lemma rb_set_pos_wf:
  assumes "block_sizes bs" "length (rb_buffer self) = bs" "0 < p" "p \<le> bs"
  shows "\<exists>self'. rb_set_pos_unchecked bs self p = Return self' \<and> rb_wf bs self' \<and>
           rb_content self' = drop p (rb_buffer self)"
proof -
  have "p < 256" "rb_buffer self \<noteq> []" "0 < length (rb_buffer self)" using assms by (auto simp: block_sizes_def)
  then show ?thesis
    using assms by (simp add: rb_set_pos_unchecked_def set_at_def rb_wf_iff rb_content_def hd_update)
qed

lemma rb_default_wf:
  assumes "block_sizes bs"
  shows "\<exists>self. rb_default bs = Return self \<and> rb_wf bs self \<and> rb_content self = []"
proof -
  have "0 < bs" "bs < 256" "replicate bs (0 :: u8) \<noteq> []" using assms by (auto simp: block_sizes_def)
  then show ?thesis
    using assms by (simp add: rb_default_def set_at_def rb_wf_iff rb_content_def hd_update)
qed

section \<open>The stream of a generator\<close>

definition gen_stream :: "('g \<Rightarrow> bytes) \<Rightarrow> ('g \<Rightarrow> 'g) \<Rightarrow> 'g \<Rightarrow> nat \<Rightarrow> bytes" where
  "gen_stream blk nxt g k = concat (map (\<lambda>i. blk ((nxt ^^ i) g)) [0..<k])"

lemma gen_stream_add: "gen_stream blk nxt g (j + k) = gen_stream blk nxt g j @ gen_stream blk nxt ((nxt ^^ j) g) k"
proof -
  have "[0..<j + k] = [0..<j] @ map (\<lambda>i. i + j) [0..<k]"
    using upt_add_eq_append [of 0 j k] map_add_upt [of j k] by (simp add: add.commute)
  then show ?thesis
    by (simp add: gen_stream_def funpow_add comp_def)
qed

lemma gen_stream_Suc: "gen_stream blk nxt g (Suc k) = gen_stream blk nxt g k @ blk ((nxt ^^ k) g)"
  by (simp add: gen_stream_def)

lemma gen_blocks_stream:
  "gen_blocks (\<lambda>g b. (blk g, nxt g)) g bs =
     (map (\<lambda>i. blk ((nxt ^^ i) g)) [0..<length bs], (nxt ^^ length bs) g)"
proof (induction bs arbitrary: g)
  case (Cons b bs)
  have "[0..<Suc (length bs)] = 0 # map Suc [0..<length bs]" by (simp add: map_Suc_upt upt_conv_Cons del: upt_Suc)
  then show ?case using Cons by (simp add: comp_def funpow_swap1 del: upt_Suc)
qed simp

lemma gen_all_blocks:
  assumes "gen_blocks (\<lambda>g b. (blk g, nxt g)) g bs = (bs', g')"
  shows "concat bs' = gen_stream blk nxt g (length bs) \<and> g' = (nxt ^^ length bs) g"
  using assms by (auto simp: gen_blocks_stream gen_stream_def)

text \<open>
  One call of \<open>read\<close>: what is written and what stays buffered is what was buffered, followed by
  the next \<open>k\<close> blocks of the generator, and less than one block stays buffered.
\<close>

lemma rb_read_fits:
  assumes wf: "rb_wf bs self" and "length data < length (rb_content self)"
  shows "\<exists>self' out. rb_read bs gen self data g = Return (self', out, g) \<and> rb_wf bs self' \<and>
           length out = length data \<and> out @ rb_content self' = rb_content self"
proof -
  obtain p where p: "rb_get_pos bs self = Return p" "rb_remaining bs self = Return (bs - p)" "0 < p" "p \<le> bs"
    "rb_content self = drop p (rb_buffer self)" "length (rb_buffer self) = bs" "block_sizes bs"
    using wf by (rule rb_wf_cases)
  let ?n = "length data"
  have lt: "?n < bs - p" using assms(2) p(5,6) by simp
  then have le: "p + ?n \<le> bs" "p < bs" by linarith+
  obtain self' where "rb_set_pos_unchecked bs self (p + ?n) = Return self'" "rb_wf bs self'"
      "rb_content self' = drop ?n (drop p (rb_buffer self))"
    using rb_set_pos_wf [OF p(7,6), of "p + ?n"] p(3) le by (auto simp: add.commute)
  moreover from this have "rb_read bs gen self data g = Return (self', take ?n (drop p (rb_buffer self)), g)"
    using p(1-6) lt le by (simp add: rb_read_def slice_def copy_at_def overwrite_def Let_def)
  ultimately show ?thesis
    using p(5,6) le append_take_drop_id [of ?n "drop p (rb_buffer self)"] by auto
qed

text \<open>The second half of \<open>read\<close>, after the buffered bytes are delivered.\<close>

lemma rb_read_generate:
  assumes blk: "\<And>g. length (blk g) = bs" and bs: "block_sizes bs" "length (rb_buffer self) = bs"
  shows "\<exists>self' out k. rb_generate bs (\<lambda>g b. (blk g, nxt g)) self data g = Return (self', out, (nxt ^^ k) g) \<and>
           rb_wf bs self' \<and>
           length out = length data \<and> out @ rb_content self' = gen_stream blk nxt g k \<and>
           length (rb_content self') < bs"
proof -
  define nb where "nb = length data div bs"
  define t where "t = drop (nb * bs) data"
  have pos: "0 < bs" using bs(1) by (simp add: block_sizes_def)
  have le: "nb * bs \<le> length data" by (simp add: nb_def)
  have t: "length t = length data mod bs" by (simp add: t_def nb_def minus_div_mult_eq_mod)
  have lt: "length t < bs" using pos by (simp add: t)
  have ld: "length data = nb * bs + length t" using le by (simp add: t_def)
  have len: "length (gen_stream blk nxt g k) = k * bs" for k g
    by (induction k) (simp_all add: gen_stream_Suc blk, simp add: gen_stream_def)
  have tb: "to_blocks_mut bs data = Return (chunks_of bs nb (take (nb * bs) data), t)"
    using le by (simp add: to_blocks_mut_def split_at_def Let_def nb_def t_def)
  obtain bs' g' where gb: "gen_blocks (\<lambda>g b. (blk g, nxt g)) g (chunks_of bs nb (take (nb * bs) data)) = (bs', g')"
    by fastforce
  have gb': "concat bs' = gen_stream blk nxt g nb" "g' = (nxt ^^ nb) g"
    using gen_all_blocks [OF gb] by simp_all
  show ?thesis
  proof (cases "t = []")
    case True
    obtain self' where s': "rb_set_pos_unchecked bs self bs = Return self'" "rb_wf bs self'" "rb_content self' = []"
      using rb_set_pos_wf [OF bs pos] bs(2) by auto
    then have "rb_generate bs (\<lambda>g b. (blk g, nxt g)) self data g = Return (self', gen_stream blk nxt g nb, (nxt ^^ nb) g)"
      using True gb' by (simp add: rb_generate_def tb gb)
    then show ?thesis
      using s' ld True pos by (auto simp: len intro!: exI [of _ nb])
  next
    case False
    let ?b = "blk ((nxt ^^ nb) g)" and ?n = "length t"
    obtain self' where s': "rb_set_pos_unchecked bs (self\<lparr>rb_buffer := ?b\<rparr>) ?n = Return self'" "rb_wf bs self'"
        "rb_content self' = drop ?n ?b"
      using rb_set_pos_wf [OF bs(1), of "self\<lparr>rb_buffer := ?b\<rparr>" ?n] blk lt False by auto
    have "rb_generate bs (\<lambda>g b. (blk g, nxt g)) self data g =
        Return (self', gen_stream blk nxt g nb @ take ?n ?b, (nxt ^^ Suc nb) g)"
      using False gb' s'(1) lt blk
      by (simp add: rb_generate_def tb gb slice_to_def slice_def copy_at_def overwrite_def)
    then show ?thesis
      using s'(2,3) ld lt False blk
      by (intro exI [of _ self'] exI [of _ "gen_stream blk nxt g nb @ take ?n ?b"] exI [of _ "Suc nb"])
         (simp add: gen_stream_Suc len)
  qed
qed

lemma rb_read_step:
  assumes wf: "rb_wf bs self" and blk: "\<And>g. length (blk g) = bs"
  shows "\<exists>self' out k. rb_read bs (\<lambda>g b. (blk g, nxt g)) self data g = Return (self', out, (nxt ^^ k) g) \<and>
           rb_wf bs self' \<and> length out = length data \<and>
           out @ rb_content self' = rb_content self @ gen_stream blk nxt g k \<and> length (rb_content self') < bs"
proof -
  obtain p where p: "rb_get_pos bs self = Return p" "rb_remaining bs self = Return (bs - p)" "0 < p" "p \<le> bs"
    "rb_content self = drop p (rb_buffer self)" "length (rb_buffer self) = bs" "block_sizes bs"
    using wf by (rule rb_wf_cases)
  have c: "length (rb_content self) = bs - p" using p(5,6) by simp
  show ?thesis
  proof (cases "length data < length (rb_content self)")
    case True
    obtain self' out where "rb_read bs (\<lambda>g b. (blk g, nxt g)) self data g = Return (self', out, g)"
        "rb_wf bs self'" "length out = length data" "out @ rb_content self' = rb_content self"
      using rb_read_fits [OF wf True, of "\<lambda>g b. (blk g, nxt g)" g] by auto
    moreover from this have "length (rb_content self') < bs"
      using c p(3,4) by (metis append_take_drop_id diff_less le_add2 length_append less_le_trans not_less order_le_less_trans)
    ultimately show ?thesis by (auto simp: gen_stream_def intro!: exI [of _ 0])
  next
    case False
    define rest where "rest = drop (bs - p) data"
    obtain self' out k where gen: "rb_generate bs (\<lambda>g b. (blk g, nxt g)) self rest g = Return (self', out, (nxt ^^ k) g)"
        "rb_wf bs self'" "length out = length rest" "out @ rb_content self' = gen_stream blk nxt g k"
        "length (rb_content self') < bs"
      using rb_read_generate [where blk = blk and bs = bs and self = self and nxt = nxt and data = rest and g = g]
        blk p(6,7) by blast
    have "rb_read bs (\<lambda>g b. (blk g, nxt g)) self data g = Return (self', rb_content self @ out, (nxt ^^ k) g)"
    proof (cases "bs - p = 0")
      case True
      then show ?thesis using p gen(1) by (simp add: rb_read_def rest_def)
    next
      case nz: False
      then show ?thesis
        using p gen(1) False c
        by (simp add: rb_read_def split_at_def slice_from_def slice_def copy_at_def overwrite_def rest_def)
    qed
    then show ?thesis
      using gen(2-5) False c by (intro exI) (auto simp: rest_def)
  qed
qed

lemma rb_read_all_stream:
  assumes "rb_wf bs self" and blk: "\<And>g. length (blk g) = bs" and "length (rb_content self) < bs"
  shows "\<exists>self' outs k. rb_read_all bs (\<lambda>g b. (blk g, nxt g)) self datas g = Return (self', outs, (nxt ^^ k) g) \<and>
           rb_wf bs self' \<and> map length outs = map length datas \<and>
           concat outs @ rb_content self' = rb_content self @ gen_stream blk nxt g k \<and> length (rb_content self') < bs"
  using assms(1,3)
proof (induction datas arbitrary: self g)
  case Nil
  then show ?case by (auto simp: gen_stream_def intro!: exI [of _ 0])
next
  case (Cons d ds)
  obtain self1 out j where 1: "rb_read bs (\<lambda>g b. (blk g, nxt g)) self d g = Return (self1, out, (nxt ^^ j) g)"
      "rb_wf bs self1" "length out = length d" "length (rb_content self1) < bs"
      "out @ rb_content self1 = rb_content self @ gen_stream blk nxt g j"
    using rb_read_step [OF Cons.prems(1), where blk = blk and nxt = nxt and data = d and g = g] blk by blast
  obtain self2 outs k where 2:
      "rb_read_all bs (\<lambda>g b. (blk g, nxt g)) self1 ds ((nxt ^^ j) g) = Return (self2, outs, (nxt ^^ k) ((nxt ^^ j) g))"
      "rb_wf bs self2" "map length outs = map length ds" "length (rb_content self2) < bs"
      "concat outs @ rb_content self2 = rb_content self1 @ gen_stream blk nxt ((nxt ^^ j) g) k"
    using Cons.IH [OF 1(2,4), of "(nxt ^^ j) g"] by blast
  have "concat (out # outs) @ rb_content self2 = rb_content self @ gen_stream blk nxt g (j + k)"
    using 1(5) 2(5) by (simp add: gen_stream_add)
  moreover have "(nxt ^^ k) ((nxt ^^ j) g) = (nxt ^^ (j + k)) g"
    by (simp add: funpow_add add.commute [of j])
  ultimately show ?case
    using 1 2 by (intro exI [of _ self2] exI [of _ "out # outs"] exI [of _ "j + k"]) simp
qed

section \<open>Serialisation\<close>

lemma rb_serialize_eq:
  assumes "rb_wf bs self" and "p = unat (hd (rb_buffer self))"
  shows "rb_serialize bs self = Return (of_nat p # replicate (p - 1) 0 @ rb_content self)"
proof -
  have p: "rb_get_pos bs self = Return p" "0 < p" "p \<le> bs" "length (rb_buffer self) = bs"
      "rb_content self = drop p (rb_buffer self)"
    using assms(1) by (rule rb_wf_cases, simp add: assms(2))+
  then have "take 1 (rb_buffer self) = [of_nat p]"
    using assms(2) by (cases "rb_buffer self") auto
  then show ?thesis using p by (simp add: rb_serialize_def fill_range_Return)
qed

lemma rb_deserialize_Ok:
  assumes "block_sizes bs" "length buf = bs"
  shows "rb_deserialize bs buf = Return (Ok self) \<longleftrightarrow>
         self = \<lparr>rb_buffer = buf\<rparr> \<and> rb_wf bs self \<and>
         buf = hd buf # replicate (unat (hd buf) - 1) 0 @ drop (unat (hd buf)) buf"
proof -
  let ?p = "unat (hd buf)"
  obtain x xs where buf: "buf = x # xs" using assms by (cases buf) (auto simp: block_sizes_def)
  have "(\<exists>b \<in> set (take (?p - 1) xs). b \<noteq> 0) \<longleftrightarrow> take (?p - 1) xs \<noteq> replicate (?p - 1) 0" if "?p \<le> bs"
  proof -
    have "length (take (?p - 1) xs) = ?p - 1" using that buf assms(2) by simp
    then show ?thesis using all_set_replicate [of "take (?p - 1) xs" 0] by auto
  qed
  moreover define canon where "canon \<longleftrightarrow> buf = hd buf # replicate (?p - 1) 0 @ drop ?p buf"
  then have "take (?p - 1) xs = replicate (?p - 1) 0 \<longleftrightarrow> canon" if "0 < ?p"
    using that buf unfolding canon_def by (auto simp: drop_Cons') (metis append_take_drop_id append_same_eq)+
  moreover have "slice buf 1 ?p = Return (take (?p - 1) xs)" if "0 < ?p" "?p \<le> bs"
    using that buf assms(2) by (simp add: slice_def Suc_le_eq)
  ultimately have gap: "(\<exists>b \<in> set (take (?p - 1) xs). b \<noteq> 0) \<longleftrightarrow> \<not> canon"
      "slice buf 1 ?p = Return (take (?p - 1) xs)" if "0 < ?p" "?p \<le> bs"
    using that by simp_all
  have idx: "index_at buf 0 = Return (hd buf)" using buf by (simp add: index_at_def)
  have cond: "hd buf = 0 \<or> hd buf > of_nat bs \<longleftrightarrow> \<not> (0 < ?p \<and> ?p \<le> bs)"
    using assms(1) by (auto simp: block_sizes_def word8_less_eq_nat u8_eq_0_iff)
  have wf: "rb_wf bs \<lparr>rb_buffer = buf\<rparr> \<longleftrightarrow> 0 < ?p \<and> ?p \<le> bs" using assms by (simp add: rb_wf_iff)
  show ?thesis
  proof (cases "0 < ?p \<and> ?p \<le> bs")
    case True
    then have "rb_deserialize bs buf = (if canon then Return (Ok \<lparr>rb_buffer = buf\<rparr>) else Return (Err Error))"
      unfolding rb_deserialize_def idx and_then.simps cond using gap by simp
    then show ?thesis using True wf unfolding canon_def by (auto split: if_splits)
  next
    case False
    then have "rb_deserialize bs buf = Return (Err Error)"
      unfolding rb_deserialize_def idx and_then.simps cond by simp
    then show ?thesis using False wf by auto
  qed
qed

lemma rb_roundtrip:
  assumes "rb_wf bs self"
  shows "\<exists>out self'. rb_serialize bs self = Return out \<and> rb_deserialize bs out = Return (Ok self') \<and>
    rb_wf bs self' \<and> rb_get_pos bs self' = rb_get_pos bs self \<and> rb_content self' = rb_content self"
proof -
  obtain p where p: "rb_get_pos bs self = Return p" "0 < p" "p \<le> bs" "rb_content self = drop p (rb_buffer self)"
      "length (rb_buffer self) = bs" "block_sizes bs" "p = unat (hd (rb_buffer self))"
    using assms by (rule rb_wf_cases)
  define out where "out = (of_nat p :: u8) # replicate (p - 1) 0 @ rb_content self"
  have out: "length out = bs" "unat (hd out) = p" "drop p out = rb_content self" "out \<noteq> []"
    using p(2-6) by (auto simp: out_def block_sizes_def drop_Cons')
  then have wf: "rb_wf bs \<lparr>rb_buffer = out\<rparr>" using p by (simp add: rb_wf_iff)
  moreover have "out = hd out # replicate (unat (hd out) - 1) 0 @ drop (unat (hd out)) out"
    using out(2,3) by (simp add: out_def)
  ultimately have "rb_deserialize bs out = Return (Ok \<lparr>rb_buffer = out\<rparr>)"
    using rb_deserialize_Ok [OF p(6) out(1)] by blast
  moreover have "rb_get_pos bs \<lparr>rb_buffer = out\<rparr> = Return p" "rb_content \<lparr>rb_buffer = out\<rparr> = rb_content self"
    using rb_get_pos_eq [of bs "\<lparr>rb_buffer = out\<rparr>"] out p by (auto simp: rb_content_def)
  ultimately show "\<exists>out self'. rb_serialize bs self = Return out \<and> rb_deserialize bs out = Return (Ok self') \<and>
            rb_wf bs self' \<and> rb_get_pos bs self' = rb_get_pos bs self \<and> rb_content self' = rb_content self"
    using rb_serialize_eq [OF assms p(7)] p(1) wf by (auto simp: out_def)
qed

section \<open>Properties\<close>

text \<open>
  Reading is a stream.  Take a generator that overwrites every block it is given, with block
  contents \<open>blk g\<close> and next state \<open>nxt g\<close>.  From a default buffer any sequence of reads returns, fills every
  slice completely, and delivers consecutive bytes of the generator's output: what was delivered
  followed by what is still buffered is the output of exactly the \<open>k\<close> calls made, with less
  than one block buffered, so no byte is lost, repeated or generated early.
\<close>

theorem read_stream:
  assumes "block_sizes bs" and "\<forall>g. length (blk g) = bs"
  shows "\<exists>self self' outs k. rb_default bs = Return self \<and>
           rb_read_all bs (\<lambda>g b. (blk g, nxt g)) self datas g = Return (self', outs, (nxt ^^ k) g) \<and>
           map length outs = map length datas \<and>
           concat outs @ rb_content self' = gen_stream blk nxt g k \<and> length (rb_content self') < bs"
proof -
  obtain self where self: "rb_default bs = Return self" "rb_wf bs self" "rb_content self = []"
    using rb_default_wf [OF assms(1)] by blast
  moreover have "0 < bs" using assms(1) by (simp add: block_sizes_def)
  ultimately show ?thesis
    using rb_read_all_stream [of bs self blk nxt datas g] assms(2) by auto
qed

theorem read_stream_witness:
  "\<exists>self self' outs k. rb_default 3 = Return self \<and>
     rb_read_all 3 (\<lambda>g b. (replicate 3 g, g + 1)) self [[0, 0], [0, 0, 0, 0], []] 7 =
       Return (self', outs, ((\<lambda>g. g + 1) ^^ k) 7) \<and>
     map length outs = map length [[0, 0], [0, 0, 0, 0], [] :: bytes] \<and>
     concat outs @ rb_content self' = gen_stream (replicate 3) (\<lambda>g. g + 1) 7 k \<and> length (rb_content self') < 3"
  by (rule read_stream) (simp_all add: block_sizes_def)

text \<open>
  The position byte of a read buffer stays in \<open>1..=BlockSize\<close>: a read on a sound buffer returns
  for every generator of whole blocks and leaves a sound buffer, so \<open>get_pos\<close> never reaches
  \<open>unreachable_unchecked\<close>, and position and remaining size add up to the block size.
\<close>

theorem read_preserves_position:
  assumes "rb_wf bs self" and "\<forall>g. length (blk g) = bs"
  shows "\<exists>self' out g' p r. rb_read bs (\<lambda>g b. (blk g, nxt g)) self data g = Return (self', out, g') \<and> rb_wf bs self' \<and>
           rb_get_pos bs self' = Return p \<and> rb_remaining bs self' = Return r \<and> 0 < p \<and> p + r = bs"
proof -
  obtain self' out g' where "rb_read bs (\<lambda>g b. (blk g, nxt g)) self data g = Return (self', out, g')" "rb_wf bs self'"
    using rb_read_step [OF assms(1), of blk nxt data g] assms(2) by blast
  moreover from this(2) obtain p where "rb_get_pos bs self' = Return p" "rb_remaining bs self' = Return (bs - p)"
      "0 < p" "p \<le> bs" by (rule rb_wf_cases)
  ultimately show ?thesis
    by (intro exI [of _ self'] exI [of _ out] exI [of _ g'] exI [of _ p] exI [of _ "bs - p"]) simp
qed

theorem read_preserves_position_witness:
  "\<exists>self' out g' p r. rb_read 2 (\<lambda>g b. ([g, g], g + 1)) \<lparr>rb_buffer = [1, 9]\<rparr> [0, 0, 0, 0] 5 = Return (self', out, g') \<and>
     rb_wf 2 self' \<and> rb_get_pos 2 self' = Return p \<and> rb_remaining 2 self' = Return r \<and> 0 < p \<and> p + r = 2"
  by (rule read_preserves_position) (simp_all add: rb_wf_iff block_sizes_def)

text \<open>
  Serialising a sound read buffer and reading it back restores its position and undelivered
  bytes, and conversely \<open>deserialize\<close> accepts only arrays that are the serialisation of the sound
  buffer it returns.
\<close>

theorem read_serialize_canonical:
  assumes "rb_wf bs self"
  shows "(\<exists>out self'. rb_serialize bs self = Return out \<and> rb_deserialize bs out = Return (Ok self') \<and>
            rb_get_pos bs self' = rb_get_pos bs self \<and> rb_content self' = rb_content self) \<and>
         (\<forall>buf self'. length buf = bs \<and> rb_deserialize bs buf = Return (Ok self') \<longrightarrow>
            rb_wf bs self' \<and> rb_serialize bs self' = Return buf)"
proof (intro conjI allI impI)
  show "\<exists>out self'. rb_serialize bs self = Return out \<and> rb_deserialize bs out = Return (Ok self') \<and>
            rb_get_pos bs self' = rb_get_pos bs self \<and> rb_content self' = rb_content self"
    using rb_roundtrip [OF assms] by blast
next
  fix buf self' assume *: "length buf = bs \<and> rb_deserialize bs buf = Return (Ok self')"
  have "block_sizes bs" using assms by (simp add: rb_wf_def)
  with * have ok: "self' = \<lparr>rb_buffer = buf\<rparr>" "rb_wf bs self'"
      "buf = hd buf # replicate (unat (hd buf) - 1) 0 @ drop (unat (hd buf)) buf"
    using rb_deserialize_Ok [of bs buf self'] by blast+
  have "rb_serialize bs self' = Return (of_nat (unat (hd buf)) # replicate (unat (hd buf) - 1) 0 @ rb_content self')"
    using rb_serialize_eq [OF ok(2) refl] unfolding ok(1) by simp
  also have "of_nat (unat (hd buf)) # replicate (unat (hd buf) - 1) 0 @ rb_content self' = buf"
    using ok(3) unfolding ok(1) rb_content_def by simp
  finally show "rb_wf bs self'" "rb_serialize bs self' = Return buf" using ok(2) by auto
qed

theorem read_serialize_canonical_witness:
  "(\<exists>out self'. rb_serialize 3 \<lparr>rb_buffer = [2, 7, 8]\<rparr> = Return out \<and> rb_deserialize 3 out = Return (Ok self') \<and>
      rb_get_pos 3 self' = rb_get_pos 3 \<lparr>rb_buffer = [2, 7, 8]\<rparr> \<and> rb_content self' = rb_content \<lparr>rb_buffer = [2, 7, 8]\<rparr>) \<and>
   rb_deserialize 3 [2, 0, 8] = Return (Ok \<lparr>rb_buffer = [2, 0, 8]\<rparr>) \<and>
   rb_serialize 3 \<lparr>rb_buffer = [2, 0, 8]\<rparr> = Return [2, 0, 8]"
proof -
  have wf: "rb_wf 3 \<lparr>rb_buffer = [2, 7, 8]\<rparr>" by (simp add: rb_wf_iff block_sizes_def)
  have "rb_deserialize 3 [2, 0, 8] = Return (Ok \<lparr>rb_buffer = [2, 0, 8]\<rparr>)"
    by (simp add: rb_deserialize_Ok rb_wf_iff block_sizes_def)
  moreover from this have "rb_serialize 3 \<lparr>rb_buffer = [2, 0, 8]\<rparr> = Return [2, 0, 8]"
    using conjunct2 [OF read_serialize_canonical [OF wf]] by simp
  ultimately show ?thesis using conjunct1 [OF read_serialize_canonical [OF wf]] by blast
qed

end
