(* ===== verification/Buffer_Machines.thy ===== *)
theory Buffer_Machines
  imports Block_Buffer Read_Buffer
begin

text \<open>
  The buffers as machines.  A machine takes operations one after the other and answers each; the
  implementations of \<open>BlockBuffer\<close> and \<open>ReadBuffer\<close> are machines over their records, and what they promise are
  machines without blocks, positions and padding bytes: a list of pending bytes, and a cursor into an
  infinite sequence.  A simulation shows that no sequence of operations tells the two apart, panics included.
\<close>

section \<open>Machines and simulations\<close>

fun answers :: "('op \<Rightarrow> 's \<Rightarrow> ('s \<times> 'r) outcome) \<Rightarrow> 'op list \<Rightarrow> 's \<Rightarrow> 'r list outcome" where
  "answers step [] s = Return []"
| "answers step (x # xs) s =
     and_then (step x s) (\<lambda>(s, r). and_then (answers step xs s) (\<lambda>rs. Return (r # rs)))"

locale simulation =
  fixes impl :: "'op \<Rightarrow> 'c \<Rightarrow> ('c \<times> 'r) outcome"
    and spec :: "'op \<Rightarrow> 'a \<Rightarrow> ('a \<times> 'r) outcome"
    and ok :: "'op \<Rightarrow> bool"
    and R :: "'c \<Rightarrow> 'a \<Rightarrow> bool"
  assumes step: "R c a \<Longrightarrow> ok x \<Longrightarrow>
    (case spec x a of Return (a', r) \<Rightarrow> \<exists>c'. impl x c = Return (c', r) \<and> R c' a' | Panic p \<Rightarrow> impl x c = Panic p)"
begin

lemma answers_agree:
  "R c a \<Longrightarrow> \<forall>x \<in> set xs. ok x \<Longrightarrow> answers impl xs c = answers spec xs a"
proof (induction xs arbitrary: c a)
  case (Cons x xs)
  then have "ok x" by simp
  from step [OF Cons.prems(1) this] show ?case
  proof (cases "spec x a")
    case (Return p)
    obtain a' r where p: "p = (a', r)" by fastforce
    with Return step [OF Cons.prems(1) \<open>ok x\<close>] obtain c' where "impl x c = Return (c', r)" "R c' a'" by auto
    with Return p Cons show ?thesis by simp
  qed simp
qed simp

end

section \<open>The block buffer is a list of pending bytes\<close>

text \<open>
  The operations of both kinds, and the paddings of the eager buffer.  A constructor is an operation that puts a new
  buffer in place of the old one; where it returns an error the old one stays.
\<close>

datatype bb_op =
    New bytes | Try_New bytes | Deserialize bytes | Clone
  | Digest bytes | Pad_With_Zeros | Reset | Set bytes nat
  | Get_Data | Get_Pos | Remaining | Serialize

datatype pad_op = Digest_Pad u8 bytes | Len64_Padding_Be u64 | Len64_Padding_Le u64 | Len128_Padding_Be u128

datatype eager_op = Common bb_op | Padding pad_op

datatype reply = Blocks "bytes list" | Block bytes | Number nat | Nothing | Failed

definition replaced :: "'p block_buffer \<Rightarrow> (Error, 'p block_buffer) result \<Rightarrow> ('p block_buffer \<times> reply) outcome" where
  "replaced self r = (case r of Ok self' \<Rightarrow> Return (self', Nothing) | Err _ \<Rightarrow> Return (self, Failed))"

text \<open>
  The machine of the code; the compression function collects the blocks it is given.  \<open>ser\<close> and \<open>de\<close> are
  \<open>serialize\<close> and \<open>deserialize\<close>, of which each kind has its own.
\<close>

fun bb_step ::
  "'p sealed \<Rightarrow> (nat \<Rightarrow> 'p block_buffer \<Rightarrow> bytes outcome) \<times> (nat \<Rightarrow> bytes \<Rightarrow> (Error, 'p block_buffer) result outcome)
     \<Rightarrow> nat \<Rightarrow> bb_op \<Rightarrow> 'p block_buffer \<Rightarrow> ('p block_buffer \<times> reply) outcome" where
  "bb_step K (ser, de) bs (New buf) self = and_then (bb_new K bs buf) (\<lambda>self. Return (self, Nothing))"
| "bb_step K (ser, de) bs (Try_New buf) self = and_then (try_new K bs buf) (replaced self)"
| "bb_step K (ser, de) bs (Deserialize buf) self = and_then (de bs buf) (replaced self)"
| "bb_step K (ser, de) bs Clone self = Return (bb_clone self, Nothing)"
| "bb_step K (ser, de) bs (Digest input) self =
     and_then (digest_blocks K bs (foldl (\<lambda>bs b. bs @ [b])) self input []) (\<lambda>(self, bs). Return (self, Blocks bs))"
| "bb_step K (ser, de) bs Pad_With_Zeros self = and_then (pad_with_zeros K bs self) (\<lambda>(b, self). Return (self, Block b))"
| "bb_step K (ser, de) bs Reset self = and_then (bb_reset K bs self) (\<lambda>self. Return (self, Nothing))"
| "bb_step K (ser, de) bs (Set buf p) self = and_then (bb_set K bs self buf p) (\<lambda>self. Return (self, Nothing))"
| "bb_step K (ser, de) bs Get_Data self = and_then (get_data K bs self) (\<lambda>d. Return (self, Block d))"
| "bb_step K (ser, de) bs Get_Pos self = and_then (bb_get_pos K bs self) (\<lambda>p. Return (self, Number p))"
| "bb_step K (ser, de) bs Remaining self = and_then (bb_remaining K bs self) (\<lambda>n. Return (self, Number n))"
| "bb_step K (ser, de) bs Serialize self = and_then (ser bs self) (\<lambda>out. Return (self, Block out))"

fun pad_step :: "nat \<Rightarrow> pad_op \<Rightarrow> unit block_buffer \<Rightarrow> (unit block_buffer \<times> bytes list) outcome" where
  "pad_step bs (Digest_Pad delim suffix) self = digest_pad bs (\<lambda>bs b. bs @ [b]) self delim suffix []"
| "pad_step bs (Len64_Padding_Be n) self = len64_padding_be bs (\<lambda>bs b. bs @ [b]) self n []"
| "pad_step bs (Len64_Padding_Le n) self = len64_padding_le bs (\<lambda>bs b. bs @ [b]) self n []"
| "pad_step bs (Len128_Padding_Be n) self = len128_padding_be bs (\<lambda>bs b. bs @ [b]) self n []"

fun eager_step :: "nat \<Rightarrow> eager_op \<Rightarrow> unit block_buffer \<Rightarrow> (unit block_buffer \<times> reply) outcome" where
  "eager_step bs (Common x) self = bb_step Eager (eager_serialize, eager_deserialize) bs x self"
| "eager_step bs (Padding x) self = and_then (pad_step bs x self) (\<lambda>(self, bs). Return (self, Blocks bs))"

abbreviation lazy_step :: "nat \<Rightarrow> bb_op \<Rightarrow> u8 block_buffer \<Rightarrow> (u8 block_buffer \<times> reply) outcome" where
  "lazy_step \<equiv> bb_step Lazy (lazy_serialize, lazy_deserialize)"

text \<open>
  The machine that is meant keeps the pending bytes.  Of the kind it knows how many blocks of so many bytes are complete, how many bytes may be
  pending, and how pending bytes are written down; reading is the inverse.
\<close>

record pending_kind =
  complete :: "nat \<Rightarrow> nat"
  may_pend :: "nat \<Rightarrow> bool"
  written :: "bytes \<Rightarrow> bytes"
  read_back :: "bytes \<Rightarrow> bytes option"

definition eager_written :: "nat \<Rightarrow> bytes \<Rightarrow> bytes" where
  "eager_written bs d = d @ replicate (bs - 1 - length d) 0 @ [of_nat (length d)]"

definition lazy_written :: "nat \<Rightarrow> bytes \<Rightarrow> bytes" where
  "lazy_written bs d = of_nat (length d) # d @ replicate (bs - length d) 0"

definition eager_pending :: "nat \<Rightarrow> pending_kind" where
  "eager_pending bs = \<lparr>complete = (\<lambda>n. n div bs), may_pend = (\<lambda>p. p < bs), written = eager_written bs,
     read_back = (\<lambda>buf. let d = take (unat (last buf)) buf in
       if unat (last buf) < bs \<and> eager_written bs d = buf then Some d else None)\<rparr>"

definition lazy_pending :: "nat \<Rightarrow> pending_kind" where
  "lazy_pending bs = \<lparr>complete = (\<lambda>n. (n - 1) div bs), may_pend = (\<lambda>p. p \<le> bs), written = lazy_written bs,
     read_back = (\<lambda>buf. let d = take (unat (hd buf)) (tl buf) in
       if unat (hd buf) \<le> bs \<and> lazy_written bs d = buf then Some d else None)\<rparr>"

fun pending_step :: "pending_kind \<Rightarrow> nat \<Rightarrow> bb_op \<Rightarrow> bytes \<Rightarrow> (bytes \<times> reply) outcome" where
  "pending_step S bs (New buf) d = (if may_pend S (length buf) then Return (buf, Nothing) else Panic Unwrap_Failed)"
| "pending_step S bs (Try_New buf) d =
     Return (if may_pend S (length buf) then (buf, Nothing) else (d, Failed))"
| "pending_step S bs (Deserialize buf) d =
     Return (case read_back S buf of Some d \<Rightarrow> (d, Nothing) | None \<Rightarrow> (d, Failed))"
| "pending_step S bs Clone d = Return (d, Nothing)"
| "pending_step S bs (Digest input) d =
     (let all = d @ input; n = complete S (length all) in Return (drop (n * bs) all, Blocks (chunks_of bs n all)))"
| "pending_step S bs Pad_With_Zeros d = Return ([], Block (d @ replicate (bs - length d) 0))"
| "pending_step S bs Reset d = Return ([], Nothing)"
| "pending_step S bs (Set buf p) d = (if may_pend S p then Return (take p buf, Nothing) else Panic Assert_Failed)"
| "pending_step S bs Get_Data d = Return (d, Block d)"
| "pending_step S bs Get_Pos d = Return (d, Number (length d))"
| "pending_step S bs Remaining d = Return (d, Number (bs - length d))"
| "pending_step S bs Serialize d = Return (d, Block (written S d))"

text \<open>A padding closes the pending bytes with a delimiter, zeros and a suffix.\<close>

definition closed :: "nat \<Rightarrow> u8 \<Rightarrow> bytes \<Rightarrow> bytes \<Rightarrow> bytes list outcome" where
  "closed bs delim suffix d =
     (if bs < length suffix then Panic (Message ''suffix is too long'')
      else
        let all = d @ delim # replicate (pad_zeros bs (length d) (length suffix)) 0 @ suffix
        in Return (chunks_of bs (length all div bs) all))"

fun closing_step :: "nat \<Rightarrow> pad_op \<Rightarrow> bytes \<Rightarrow> bytes list outcome" where
  "closing_step bs (Digest_Pad delim suffix) d = closed bs delim suffix d"
| "closing_step bs (Len64_Padding_Be n) d = closed bs 0x80 (to_be_bytes n) d"
| "closing_step bs (Len64_Padding_Le n) d = closed bs 0x80 (to_le_bytes n) d"
| "closing_step bs (Len128_Padding_Be n) d = closed bs 0x80 (to_be_bytes n) d"

fun eager_pending_step :: "nat \<Rightarrow> eager_op \<Rightarrow> bytes \<Rightarrow> (bytes \<times> reply) outcome" where
  "eager_pending_step bs (Common x) d = pending_step (eager_pending bs) bs x d"
| "eager_pending_step bs (Padding x) d = and_then (closing_step bs x d) (\<lambda>bs. Return ([], Blocks bs))"

text \<open>
  The argument of \<open>set\<close> is an array of the block size, that of \<open>deserialize\<close> one of the serialised size.
\<close>

fun op_ok :: "nat \<Rightarrow> nat \<Rightarrow> bb_op \<Rightarrow> bool" where
  "op_ok w bs (Set buf p) \<longleftrightarrow> length buf = bs"
| "op_ok w bs (Deserialize buf) \<longleftrightarrow> length buf = w"
| "op_ok w bs _ \<longleftrightarrow> True"

fun eager_op_ok :: "nat \<Rightarrow> eager_op \<Rightarrow> bool" where
  "eager_op_ok bs (Common x) \<longleftrightarrow> op_ok bs bs x"
| "eager_op_ok bs (Padding x) \<longleftrightarrow> True"

definition holds :: "'p sealed \<Rightarrow> nat \<Rightarrow> 'p block_buffer \<Rightarrow> bytes \<Rightarrow> bool" where
  "holds K bs self d \<longleftrightarrow> bb_wf K bs self \<and> bb_content K self = d"

lemma foldl_collect: "foldl (\<lambda>bs b. bs @ [b]) acc xs = acc @ xs"
  by (induction xs arbitrary: acc) auto

text \<open>What a kind has to show, once for both: how it cuts, and that its serialised form is the written one.\<close>

locale pending_buffer = buffer_kind K for K :: "'p sealed" +
  fixes S :: pending_kind and bs w :: nat
    and ser :: "nat \<Rightarrow> 'p block_buffer \<Rightarrow> bytes outcome"
    and de :: "nat \<Rightarrow> bytes \<Rightarrow> (Error, 'p block_buffer) result outcome"
  assumes cut: "block_sizes bs \<Longrightarrow>
      K_split_blocks K bs x = (chunks_of bs (complete S (length x)) x, drop (complete S (length x) * bs) x)"
    and bound: "may_pend S p \<longleftrightarrow> K_invariant K p bs"
    and ser_written: "bb_wf K bs self \<Longrightarrow> ser bs self = Return (written S (bb_content K self))"
    and de_read_back: "block_sizes bs \<Longrightarrow> length buf = w \<Longrightarrow> case read_back S buf of
        None \<Rightarrow> de bs buf = Return (Err Error)
      | Some d \<Rightarrow> \<exists>self. de bs buf = Return (Ok self) \<and> bb_wf K bs self \<and> bb_content K self = d"
begin

lemma set_pos_holds:
  assumes "bb_wf K bs self" "length b = bs" "K_invariant K n bs"
  shows "\<exists>self'. set_pos_unchecked K bs (self\<lparr>buffer := b\<rparr>) n = Return self' \<and> holds K bs self' (take n b)"
  using set_pos_unchecked_wf [of bs "self\<lparr>buffer := b\<rparr>" n] assms by (auto simp: holds_def bb_wf_def)

lemma constructors_step:
  assumes "holds K bs self d" and "op_ok w bs x" and "x \<in> {New buf, Try_New buf, Deserialize buf}"
  shows "case pending_step S bs x d of
      Return (d', r) \<Rightarrow> \<exists>self'. bb_step K (ser, de) bs x self = Return (self', r) \<and> holds K bs self' d'
    | Panic p \<Rightarrow> bb_step K (ser, de) bs x self = Panic p"
proof -
  have bs: "block_sizes bs" using assms(1) by (simp add: holds_def bb_wf_def)
  show ?thesis
    using assms try_new_content [OF bs, of buf] de_read_back [OF bs, of buf]
    by (auto simp: bb_new_def bound replaced_def unwrap_def holds_def split: option.splits if_splits)
qed

lemma bb_simulation: "simulation (bb_step K (ser, de) bs) (pending_step S bs) (op_ok w bs) (holds K bs)"
proof
  fix self d x
  assume h: "holds K bs self d" and ok: "op_ok w bs x"
  then have wf: "bb_wf K bs self" and d: "bb_content K self = d" by (simp_all add: holds_def)
  have "length (bb_content K self) \<le> bs" using wf by (rule wf_cases) simp
  with d have p: "length (buffer self) = bs" "length d \<le> bs" "K_invariant K 0 bs" "block_sizes bs"
    using wf less_invariant by (auto simp: bb_wf_def block_sizes_def)
  show "case pending_step S bs x d of
      Return (a', r) \<Rightarrow> \<exists>c'. bb_step K (ser, de) bs x self = Return (c', r) \<and> holds K bs c' a'
    | Panic p \<Rightarrow> bb_step K (ser, de) bs x self = Panic p"
  proof (cases x)
    case (Digest input)
    then show ?thesis
      using digest_blocks_step [OF wf cut [OF p(4)], where f = "\<lambda>bs b. bs @ [b]" and s = "[]" and input = input] d
      by (auto simp: holds_def foldl_collect Let_def)
  next
    case Pad_With_Zeros
    then show ?thesis using pad_with_zeros_content [OF wf] d by (auto simp: holds_def)
  next
    case Reset
    then show ?thesis using set_pos_holds [OF wf p(1,3)] by (auto simp: bb_reset_def)
  next
    case (Set buf n)
    then show ?thesis using set_pos_holds [OF wf, of buf n] ok by (auto simp: bb_set_def bound rust_assert_def)
  next
    case Get_Data
    then show ?thesis using get_data_content [OF wf] wf d by (simp add: holds_def)
  next
    case Get_Pos
    then show ?thesis using get_pos_content [OF wf] wf d by (simp add: holds_def)
  next
    case Remaining
    then show ?thesis
      using get_pos_content [OF wf] wf d p(2) by (simp add: holds_def bb_remaining_def checked_sub_def)
  next
    case Clone
    then show ?thesis using wf d by (simp add: holds_def)
  next
    case Serialize
    then show ?thesis using ser_written [OF wf] wf d by (simp add: holds_def)
  qed (rule constructors_step [OF h ok], blast)+
qed

end

lemma eager_read_back:
  assumes "block_sizes bs" "length buf = bs"
  shows "case read_back (eager_pending bs) buf of
      None \<Rightarrow> eager_deserialize bs buf = Return (Err Error)
    | Some d \<Rightarrow> \<exists>self. eager_deserialize bs buf = Return (Ok self) \<and> bb_wf Eager bs self \<and> bb_content Eager self = d"
proof -
  let ?p = "unat (last buf)"
  let ?d = "take ?p buf"
  obtain r where r: "eager_deserialize bs buf = Return r" using deserialize_returns(1) [OF assms] by (auto simp: returns_iff)
  have "eager_written bs ?d = buf \<longleftrightarrow> drop ?p buf = replicate (bs - 1 - ?p) 0 @ [last buf]" if "?p < bs"
  proof -
    have "eager_written bs ?d = ?d @ replicate (bs - 1 - ?p) 0 @ [last buf]"
      using that assms(2) by (simp add: eager_written_def)
    then show ?thesis by (metis append_take_drop_id same_append_eq)
  qed
  then have ok: "read_back (eager_pending bs) buf = (if \<exists>self. r = Ok self then Some ?d else None)"
    using r eager_deserialize_Ok [OF assms(2,1)] by (auto simp: eager_pending_def Let_def)
  show ?thesis
  proof (cases r)
    case (Ok self)
    then have "self = \<lparr>buffer = buf, pos = ()\<rparr>" "?p < bs" using r eager_deserialize_Ok [OF assms(2,1)] by auto
    with Ok r ok show ?thesis using eager_content_of_buffer [OF assms(2,1)] by simp
  next
    case (Err e)
    then show ?thesis using r ok by (cases e) simp
  qed
qed

lemma lazy_read_back:
  assumes "block_sizes bs" "length buf = bs + 1"
  shows "case read_back (lazy_pending bs) buf of
      None \<Rightarrow> lazy_deserialize bs buf = Return (Err Error)
    | Some d \<Rightarrow> \<exists>self. lazy_deserialize bs buf = Return (Ok self) \<and> bb_wf Lazy bs self \<and> bb_content Lazy self = d"
proof -
  obtain h t where buf: "buf = h # t" "length t = bs" using assms(2) by (cases buf) auto
  let ?p = "unat h"
  let ?d = "take ?p t"
  obtain r where r: "lazy_deserialize bs buf = Return r" using deserialize_returns(2) [OF assms] by (auto simp: returns_iff)
  have "lazy_written bs ?d = buf \<longleftrightarrow> drop ?p t = replicate (bs - ?p) 0" if "?p \<le> bs"
  proof -
    have "lazy_written bs ?d = h # ?d @ replicate (bs - ?p) 0"
      using that buf by (simp add: lazy_written_def)
    then show ?thesis unfolding buf(1) by (metis append_take_drop_id same_append_eq list.inject)
  qed
  then have ok: "read_back (lazy_pending bs) buf = (if \<exists>self. r = Ok self then Some ?d else None)"
    using r lazy_deserialize_Ok [OF assms(2)] buf by (auto simp: lazy_pending_def Let_def)
  show ?thesis
  proof (cases r)
    case (Ok self)
    then have "self = \<lparr>buffer = t, pos = h\<rparr>" "?p \<le> bs" using r lazy_deserialize_Ok [OF assms(2)] buf by auto
    with Ok r ok assms(1) buf(2) show ?thesis by (simp add: lazy_wf_iff)
  next
    case (Err e)
    then show ?thesis using r ok by (cases e) simp
  qed
qed

interpretation eager_pending: pending_buffer Eager "eager_pending bs" bs bs eager_serialize eager_deserialize for bs
proof
  show "eager_serialize bs self = Return (written (eager_pending bs) (bb_content Eager self))" if "bb_wf Eager bs self" for self
    using eager_serialize_eq [OF that] by (simp add: eager_pending_def eager_written_def)
qed (use eager_read_back in \<open>auto simp: Eager_def eager_pending_def eager_split_blocks_def eager_invariant_def Let_def\<close>)

lemma closed_blocks:
  assumes "length d < bs" "length suffix \<le> bs"
  shows "closed bs delim suffix d = Return (pad_blocks bs d delim suffix)"
proof -
  let ?B = "pad_blocks bs d delim suffix"
  have "map length ?B = map (\<lambda>_. bs) ?B" using pad_blocks_concat(2) [OF assms, of delim] by simp
  then have "length (concat ?B) = length ?B * bs" unfolding length_concat by (simp add: map_replicate_const sum_list_replicate)
  then have "length (concat ?B) div bs = length ?B" using assms(1) by simp
  with chunks_of_concat [of ?B bs "[]"] pad_blocks_concat [OF assms, of delim] assms(2) show ?thesis
    by (simp add: closed_def Let_def)
qed

lemma digest_pad_closed:
  assumes h: "holds Eager bs self d"
  shows "case closed bs delim suffix d of
      Return B \<Rightarrow> \<exists>self'. digest_pad bs (\<lambda>bs b. bs @ [b]) self delim suffix [] = Return (self', B) \<and> holds Eager bs self' []
    | Panic p \<Rightarrow> digest_pad bs (\<lambda>bs b. bs @ [b]) self delim suffix [] = Panic p"
proof (cases "bs < length suffix")
  case True
  then show ?thesis by (simp add: closed_def digest_pad_def)
next
  case False
  have wf: "bb_wf Eager bs self" and d: "bb_content Eager self = d" using h by (simp_all add: holds_def)
  have less: "length d < bs" using wf by (rule eager_wf_cases) (simp add: d)
  have inv: "K_invariant Eager 0 bs" using less by (simp add: Eager_def eager_invariant_def)
  obtain b where b: "digest_pad bs (\<lambda>bs b. bs @ [b]) self delim suffix [] =
      and_then (set_pos_unchecked Eager bs (self\<lparr>buffer := b\<rparr>) 0)
        (\<lambda>self'. Return (self', foldl (\<lambda>bs b. bs @ [b]) [] (pad_blocks bs d delim suffix)))" "length b = bs"
    using digest_pad_eq [OF wf, of suffix "\<lambda>bs b. bs @ [b]" delim "[]"] False d by auto
  with eager_pending.set_pos_holds [OF wf b(2) inv] closed_blocks [OF less, of suffix delim] False show ?thesis
    by (auto simp: foldl_collect)
qed

interpretation eager_machine: simulation "eager_step bs" "eager_pending_step bs" "eager_op_ok bs" "holds Eager bs" for bs
proof
  fix self d x
  assume h: "holds Eager bs self d" and ok: "eager_op_ok bs x"
  show "case eager_pending_step bs x d of
      Return (d', r) \<Rightarrow> \<exists>self'. eager_step bs x self = Return (self', r) \<and> holds Eager bs self' d'
    | Panic p \<Rightarrow> eager_step bs x self = Panic p"
  proof (cases x)
    case (Common y)
    with ok have "op_ok bs bs y" by simp
    from simulation.step [OF eager_pending.bb_simulation h this] show ?thesis
      unfolding Common eager_step.simps eager_pending_step.simps .
  next
    case (Padding y)
    obtain delim suffix where "closing_step bs y d = closed bs delim suffix d"
      "pad_step bs y self = digest_pad bs (\<lambda>bs b. bs @ [b]) self delim suffix []"
      by (cases y) (simp_all add: len64_padding_be_def len64_padding_le_def len128_padding_be_def)
    then show ?thesis
      using Padding digest_pad_closed [OF h, of delim suffix] by (auto split: outcome.splits)
  qed
qed

lemma lazy_split_eq:
  assumes "0 < bs"
  shows "K_split_blocks Lazy bs x = (chunks_of bs ((length x - 1) div bs) x, drop ((length x - 1) div bs * bs) x)"
proof (rule lazy.split_unique [OF assms])
  let ?n = "(length x - 1) div bs"
  have le: "?n * bs \<le> length x" using div_times_less_eq_dividend [of "length x - 1" bs] by linarith
  show "x = concat (chunks_of bs ?n x) @ drop (?n * bs) x"
    unfolding concat_chunks_of [OF le] by (rule append_take_drop_id [symmetric])
  show "\<forall>b \<in> set (chunks_of bs ?n x). length b = bs" using chunks_of_block_length [OF le] by blast
  have tail: "length x - ?n * bs = (length x - 1) mod bs + of_bool (x \<noteq> [])"
  proof (cases x)
    case (Cons a y)
    have "length y = length y div bs * bs + length y mod bs" by simp
    then have "Suc (length y) - length y div bs * bs = Suc (length y mod bs)" by linarith
    with Cons show ?thesis by simp
  qed simp
  then show "K_invariant Lazy (length (drop (?n * bs) x)) bs"
    using mod_less_divisor [OF assms, of "length x - 1"] by (simp add: Lazy_def lazy_invariant_def)
  have "x \<noteq> []" if "chunks_of bs ?n x \<noteq> []" using that by auto
  then show "chunks_of bs ?n x \<noteq> [] \<longrightarrow> \<not> K_invariant Lazy (bs + length (drop (?n * bs) x)) bs"
    using tail by (auto simp: Lazy_def lazy_invariant_def)
qed

interpretation lazy_pending: pending_buffer Lazy "lazy_pending bs" bs "bs + 1" lazy_serialize lazy_deserialize for bs
proof
  show "lazy_serialize bs self = Return (written (lazy_pending bs) (bb_content Lazy self))" if "bb_wf Lazy bs self" for self
    using lazy_serialize_eq [OF that] that by (simp add: lazy_pending_def lazy_written_def lazy_wf_iff min_absorb2)
qed (use lazy_split_eq lazy_read_back in \<open>auto simp: block_sizes_def Lazy_def lazy_pending_def lazy_invariant_def\<close>)

interpretation lazy_machine: simulation "lazy_step bs" "pending_step (lazy_pending bs) bs" "op_ok (bs + 1) bs" "holds Lazy bs" for bs
  by (rule lazy_pending.bb_simulation)

section \<open>The read buffer is a cursor\<close>

datatype rb_op = Read bytes | Position | Left | Copy | Save

text \<open>Byte \<open>i\<close> of what a generator with states \<open>g\<close>, \<open>nxt g\<close>, ... and blocks \<open>blk\<close> produces.\<close>

definition stream_byte :: "nat \<Rightarrow> ('g \<Rightarrow> bytes) \<Rightarrow> ('g \<Rightarrow> 'g) \<Rightarrow> 'g \<Rightarrow> nat \<Rightarrow> u8" where
  "stream_byte bs blk nxt g i = blk ((nxt ^^ (i div bs)) g) ! (i mod bs)"

fun rb_step :: "nat \<Rightarrow> ('g \<Rightarrow> bytes) \<Rightarrow> ('g \<Rightarrow> 'g) \<Rightarrow> rb_op \<Rightarrow> read_buffer \<times> 'g \<Rightarrow> ((read_buffer \<times> 'g) \<times> reply) outcome" where
  "rb_step bs blk nxt (Read data) (self, g) =
     and_then (rb_read bs (\<lambda>g b. (blk g, nxt g)) self data g) (\<lambda>(self, data, g). Return ((self, g), Block data))"
| "rb_step bs blk nxt Position (self, g) = and_then (rb_get_pos bs self) (\<lambda>p. Return ((self, g), Number p))"
| "rb_step bs blk nxt Left (self, g) = and_then (rb_remaining bs self) (\<lambda>n. Return ((self, g), Number n))"
| "rb_step bs blk nxt Copy (self, g) = Return ((rb_clone self, g), Nothing)"
| "rb_step bs blk nxt Save (self, g) =
     and_then (rb_serialize bs self) (\<lambda>out. and_then (rb_deserialize bs out) (\<lambda>r. and_then (unwrap r) (\<lambda>self.
       Return ((self, g), Nothing))))"

text \<open>The bytes of the current block that are still to come.\<close>

definition ahead :: "nat \<Rightarrow> nat \<Rightarrow> nat" where
  "ahead bs k = (bs - k mod bs) mod bs"

fun cursor_step :: "nat \<Rightarrow> (nat \<Rightarrow> u8) \<Rightarrow> rb_op \<Rightarrow> nat \<Rightarrow> (nat \<times> reply) outcome" where
  "cursor_step bs stream (Read data) k = Return (k + length data, Block (map stream [k..<k + length data]))"
| "cursor_step bs stream Position k = Return (k, Number (bs - ahead bs k))"
| "cursor_step bs stream Left k = Return (k, Number (ahead bs k))"
| "cursor_step bs stream Copy k = Return (k, Nothing)"
| "cursor_step bs stream Save k = Return (k, Nothing)"

definition rb_at :: "nat \<Rightarrow> ('g \<Rightarrow> bytes) \<Rightarrow> ('g \<Rightarrow> 'g) \<Rightarrow> 'g \<Rightarrow> read_buffer \<times> 'g \<Rightarrow> nat \<Rightarrow> bool" where
  "rb_at bs blk nxt g0 c k \<longleftrightarrow> rb_wf bs (fst c) \<and>
     (\<exists>j. snd c = (nxt ^^ j) g0 \<and> k \<le> j * bs \<and> j * bs < k + bs \<and>
        rb_content (fst c) = map (stream_byte bs blk nxt g0) [k..<j * bs])"

lemma gen_stream_bytes:
  assumes "\<And>g. length (blk g) = bs" "0 < bs"
  shows "gen_stream blk nxt ((nxt ^^ j) g) k = map (stream_byte bs blk nxt g) [j * bs..<(j + k) * bs]"
proof (induction k)
  case 0
  then show ?case by (simp add: gen_stream_def)
next
  case (Suc k)
  have "blk ((nxt ^^ (j + k)) g) = map (stream_byte bs blk nxt g) [(j + k) * bs..<(j + k) * bs + bs]"
    using assms by (intro nth_equalityI) (simp_all add: stream_byte_def div_plus_div_distrib_dvd_left)
  moreover have "(nxt ^^ k) ((nxt ^^ j) g) = (nxt ^^ (j + k)) g" by (simp add: funpow_add add.commute [of j])
  moreover have "[j * bs..<(j + Suc k) * bs] = [j * bs..<(j + k) * bs] @ [(j + k) * bs..<(j + k) * bs + bs]"
    using upt_add_eq_append [of "j * bs" "(j + k) * bs" bs] by (simp add: algebra_simps)
  ultimately show ?case using Suc by (simp add: gen_stream_Suc)
qed

lemma ahead_eq:
  assumes "k \<le> j * bs" "j * bs < k + bs"
  shows "ahead bs k = j * bs - k"
proof -
  define q r where "q = k div bs" and "r = k mod bs"
  have k: "k = q * bs + r" by (simp add: q_def r_def)
  have bs: "0 < bs" using assms by linarith
  then have r: "r < bs" by (simp add: r_def)
  show ?thesis
  proof (cases "r = 0")
    case True
    then have "q * bs \<le> j * bs" "j * bs < Suc q * bs" using assms k by auto
    then have "j = q" unfolding mult_le_cancel2 mult_less_cancel2 using bs by linarith
    with True k bs show ?thesis by (simp add: ahead_def r_def [symmetric])
  next
    case False
    then have "q * bs < j * bs" using assms k by linarith
    moreover have "j * bs < Suc (Suc q) * bs" using assms k r by simp
    ultimately
    have "j = Suc q" unfolding mult_less_cancel2 by linarith
    with False k r show ?thesis by (simp add: ahead_def r_def [symmetric])
  qed
qed

lemma rb_at_cases:
  assumes "rb_at bs blk nxt g0 (self, g) k"
  shows "rb_get_pos bs self = Return (bs - ahead bs k)" "rb_remaining bs self = Return (ahead bs k)"
proof -
  obtain j where j: "rb_wf bs self" "k \<le> j * bs" "j * bs < k + bs" "length (rb_content self) = j * bs - k"
    using assms by (auto simp: rb_at_def)
  obtain p where p: "rb_get_pos bs self = Return p" "rb_remaining bs self = Return (bs - p)" "p \<le> bs"
      "rb_content self = drop p (rb_buffer self)" "length (rb_buffer self) = bs"
    using j(1) by (rule rb_wf_cases)
  have "bs - p = ahead bs k" using p(4,5) j(4) ahead_eq [OF j(2,3)] by simp
  with p show "rb_get_pos bs self = Return (bs - ahead bs k)" "rb_remaining bs self = Return (ahead bs k)" by auto
qed

lemma rb_read_cursor:
  assumes at: "rb_at bs blk nxt g0 (self, g) k" and blk: "\<And>g. length (blk g) = bs"
  shows "\<exists>self' g'. rb_read bs (\<lambda>g b. (blk g, nxt g)) self data g =
      Return (self', map (stream_byte bs blk nxt g0) [k..<k + length data], g') \<and>
    rb_at bs blk nxt g0 (self', g') (k + length data)"
proof -
  let ?byte = "stream_byte bs blk nxt g0" and ?n = "length data"
  obtain j where j: "rb_wf bs self" "g = (nxt ^^ j) g0" "k \<le> j * bs" "j * bs < k + bs"
      "rb_content self = map ?byte [k..<j * bs]"
    using at by (auto simp: rb_at_def)
  have bs: "0 < bs" using j by linarith
  obtain self' out i where read: "rb_read bs (\<lambda>g b. (blk g, nxt g)) self data g = Return (self', out, (nxt ^^ i) g)"
      "rb_wf bs self'" "length out = ?n" "out @ rb_content self' = rb_content self @ gen_stream blk nxt g i"
      "length (rb_content self') < bs"
    using rb_read_step [OF j(1), of blk nxt data g] blk by blast
  have le: "j * bs \<le> (j + i) * bs" by simp
  then have "[k..<j * bs] @ [j * bs..<(j + i) * bs] = [k..<(j + i) * bs]"
    using j(3) upt_add_eq_append [of k "j * bs" "(j + i) * bs - j * bs"] by simp
  then have all: "out @ rb_content self' = map ?byte [k..<(j + i) * bs]"
    unfolding read(4) j(2,5) gen_stream_bytes [OF blk bs, where nxt = nxt and j = j and g = g0 and k = i]
    by (simp only: map_append [symmetric])
  have len: "?n + length (rb_content self') = (j + i) * bs - k"
    using arg_cong [OF all, of length] read(3) by simp
  have up: "k + ?n \<le> (j + i) * bs" using len le j(3) by linarith
  have "out = map ?byte [k..<k + ?n]" "rb_content self' = map ?byte [k + ?n..<(j + i) * bs]"
  proof -
    have "[k..<(j + i) * bs] = [k..<k + ?n] @ [k + ?n..<(j + i) * bs]"
      using upt_add_eq_append [of k "k + ?n" "(j + i) * bs - (k + ?n)"] up by simp
    then show "out = map ?byte [k..<k + ?n]" "rb_content self' = map ?byte [k + ?n..<(j + i) * bs]"
      using all read(3) by (simp_all add: append_eq_append_conv)
  qed
  moreover have "(nxt ^^ i) g = (nxt ^^ (j + i)) g0" by (simp add: j(2) funpow_add add.commute [of j])
  moreover have "(j + i) * bs < k + ?n + bs" using len read(5) up by linarith
  ultimately show ?thesis using read(1,2) up by (auto simp: rb_at_def intro!: exI [of _ "j + i"])
qed

lemma rb_save_at:
  assumes "rb_at bs blk nxt g0 (self, g) k"
  shows "\<exists>out self'. rb_serialize bs self = Return out \<and> rb_deserialize bs out = Return (Ok self') \<and>
    rb_at bs blk nxt g0 (self', g) k"
  using rb_roundtrip [of bs self] assms by (force simp: rb_at_def)

lemma rb_default_at:
  assumes "block_sizes bs"
  shows "\<exists>self. rb_default bs = Return self \<and> rb_at bs blk nxt g (self, g) 0"
  using rb_default_wf [OF assms] assms by (auto simp: rb_at_def block_sizes_def intro!: exI [of _ 0])

text \<open>A generator hands out blocks of the block size; its relation to the cursor is empty otherwise.\<close>

interpretation cursor_machine: simulation "rb_step bs blk nxt" "cursor_step bs (stream_byte bs blk nxt g0)"
  "\<lambda>_. True" "\<lambda>c k. (\<forall>g. length (blk g) = bs) \<and> rb_at bs blk nxt g0 c k" for bs blk nxt g0
proof
  fix c :: "read_buffer \<times> 'a" and k x
  assume "(\<forall>g. length (blk g) = bs) \<and> rb_at bs blk nxt g0 c k"
  then have R: "\<And>g. length (blk g) = bs" "rb_at bs blk nxt g0 c k" by auto
  obtain self g where c: "c = (self, g)" by fastforce
  show "case cursor_step bs (stream_byte bs blk nxt g0) x k of
      Return (k', r) \<Rightarrow> \<exists>c'. rb_step bs blk nxt x c = Return (c', r) \<and> (\<forall>g. length (blk g) = bs) \<and> rb_at bs blk nxt g0 c' k'
    | Panic p \<Rightarrow> rb_step bs blk nxt x c = Panic p"
    using R rb_read_cursor [OF R(2) [unfolded c] R(1)] rb_at_cases [OF R(2) [unfolded c]]
      rb_save_at [OF R(2) [unfolded c]]
    by (cases x) (auto simp: c unwrap_def)
qed

section \<open>Properties\<close>

text \<open>
  (C12) \<open>BlockBuffer\<close> refines a list of pending bytes.  For both kinds, any sequence of the public operations
  (\<open>new\<close>, \<open>try_new\<close>, \<open>deserialize\<close>, \<open>clone\<close>, \<open>digest_blocks\<close>, \<open>pad_with_zeros\<close>, \<open>reset\<close>, \<open>set\<close>,
  \<open>get_data\<close>, \<open>get_pos\<close>, \<open>remaining\<close>, \<open>serialize\<close>, and for the eager buffer
  \<open>digest_pad\<close> and the three length paddings) is answered as if the state were the bytes not yet given to the compression
  function: the blocks, data, numbers, serialised arrays and errors that come out are the same, and so are the panics of
  \<open>new\<close>, \<open>set\<close> and \<open>digest_pad\<close>.  The eager buffer hands out every complete block and has
  room for fewer bytes than a block; the lazy one keeps the last block, so that it may hold, and \<open>set\<close>
  accepts, a full one.
\<close>

theorem block_buffer_refines:
  assumes "block_sizes bs" and "\<forall>x \<in> set xs. eager_op_ok bs x" and "\<forall>y \<in> set ys. op_ok (bs + 1) bs y"
  shows "answers (eager_step bs) xs (bb_default Eager bs) = answers (eager_pending_step bs) xs [] \<and>
         answers (lazy_step bs) ys (bb_default Lazy bs) = answers (pending_step (lazy_pending bs) bs) ys []"
  using eager_machine.answers_agree [of bs "bb_default Eager bs" "[]" xs] lazy_machine.answers_agree [of bs "bb_default Lazy bs" "[]" ys]
    eager.default_wf eager.default_content lazy.default_wf lazy.default_content assms
  by (simp add: holds_def)

theorem block_buffer_refines_witness:
  "answers (lazy_step 2) [Digest [1, 2], Serialize, Try_New [4, 5, 6], Digest [3], Set [8, 9] 2, Get_Data, Set [8, 9] 3]
     (bb_default Lazy 2) = Panic Assert_Failed \<and>
   answers (eager_step 2) [Common (Digest [1, 2]), Common (Deserialize [7, 1]), Common Get_Data, Padding (Digest_Pad 0x80 [5]), Common Get_Pos]
     (bb_default Eager 2) = Return [Blocks [[1, 2]], Nothing, Block [7], Blocks [[7, 0x80], [0, 5]], Number 0]"
proof -
  let ?xs = "[Common (Digest [1, 2]), Common (Deserialize [7, 1]), Common Get_Data, Padding (Digest_Pad 0x80 [5]), Common Get_Pos]"
  let ?ys = "[Digest [1, 2], Serialize, Try_New [4, 5, 6], Digest [3], Set [8, 9] 2, Get_Data, Set [8, 9] 3]"
  have "answers (eager_step 2) ?xs (bb_default Eager 2) = answers (eager_pending_step 2) ?xs [] \<and>
      answers (lazy_step 2) ?ys (bb_default Lazy 2) = answers (pending_step (lazy_pending 2) 2) ?ys []"
    by (rule block_buffer_refines) (simp_all add: block_sizes_def)
  moreover have "answers (eager_pending_step 2) ?xs [] = Return [Blocks [[1, 2]], Nothing, Block [7], Blocks [[7, 0x80], [0, 5]], Number 0]"
    by (simp add: eager_pending_def eager_written_def closed_def pad_zeros_def)
  moreover have "answers (pending_step (lazy_pending 2) 2) ?ys [] = Panic Assert_Failed"
    by (simp add: lazy_pending_def lazy_written_def)
  ultimately show ?thesis by (simp only: simp_thms)
qed

text \<open>
  (C13) \<open>ReadBuffer\<close> refines a cursor into the stream of its generator.  Any sequence of reads into slices of any length,
  mixed with \<open>get_pos\<close>, \<open>remaining\<close>, clones and serialisations, is answered as if the state were the number \<open>k\<close> of
  bytes delivered: a read returns the next bytes of the stream, and the position is the one within the current block.
\<close>

theorem read_buffer_refines:
  assumes "block_sizes bs" and "\<forall>g. length (blk g) = bs"
  shows "\<exists>self. rb_default bs = Return self \<and>
    answers (rb_step bs blk nxt) xs (self, g) = answers (cursor_step bs (stream_byte bs blk nxt g)) xs 0"
proof -
  obtain self where "rb_default bs = Return self" "rb_at bs blk nxt g (self, g) 0"
    using rb_default_at [OF assms(1), of blk nxt g] by auto
  with assms(2) cursor_machine.answers_agree [of blk bs nxt g "(self, g)" 0 xs] show ?thesis by auto
qed

theorem read_buffer_refines_witness:
  "\<exists>self. rb_default 3 = Return self \<and>
     answers (rb_step 3 (\<lambda>g. [g, g + 1, g + 2]) (\<lambda>g. g + 10)) [Left, Read [0, 0], Save, Position, Read [0, 0, 0]] (self, 20) =
       Return [Number 0, Block [20, 21], Nothing, Number 2, Block [22, 30, 31]]"
proof -
  have "answers (cursor_step 3 (stream_byte 3 (\<lambda>g. [g, g + 1, g + 2]) (\<lambda>g. g + 10) 20))
      [Left, Read [0, 0], Save, Position, Read [0, 0, 0]] 0 =
      Return [Number 0, Block [20, 21], Nothing, Number 2, Block [22, 30, 31]]"
    by (simp add: ahead_def stream_byte_def upt_rec)
  with read_buffer_refines [of 3 "\<lambda>g. [g, g + 1, g + 2]" "\<lambda>g. g + 10" "[Left, Read [0, 0], Save, Position, Read [0, 0, 0]]" 20]
  show ?thesis by (simp add: block_sizes_def)
qed

end
