(* ===== verification/Block_Padding.thy ===== *)
theory Block_Padding
  imports Rust_Prelude
begin

text \<open>
  The crate \<^verbatim>\<open>block-padding\<close>: padding and unpadding of messages divided into blocks.  A
  \<open>Block<B>\<close> is a byte list whose length is \<open>B::USIZE\<close>; the six padding structs are the
  constructors of \<open>padding\<close>, and \<open>TYPE\<close>, \<open>pad\<close> and \<open>unpad\<close> of the trait are functions of
  the struct.  The result slices of \<open>unpad\<close> are the byte lists they point to.
\<close>

section \<open>Data\<close>

datatype PadType = Reversible | Ambiguous | NoPadType

datatype UnpadError = UnpadError

datatype padding = ZeroPadding | Pkcs7 | Iso10126 | AnsiX923 | Iso7816 | NoPadding

abbreviation too_big_for_pkcs7 :: panic where
  "too_big_for_pkcs7 \<equiv> Message ''block size is too big for PKCS#7''"

abbreviation pos_too_big :: panic where
  "pos_too_big \<equiv> Message ''`pos` is bigger than block size''"

abbreviation pos_not_below :: panic where
  "pos_not_below \<equiv> Message ''`pos` is bigger or equal to block size''"

section \<open>The schemes\<close>

definition zero_pad :: "bytes \<Rightarrow> nat \<Rightarrow> bytes outcome" where
  "zero_pad block pos =
     (if pos > length block then Panic pos_too_big
      else fill_range block pos (length block) 0)"

text \<open>The loop \<open>for i in (0..B::USIZE).rev()\<close> counts \<open>i\<close> down; its argument is \<open>i + 1\<close>.\<close>

fun zero_unpad_loop :: "bytes \<Rightarrow> nat \<Rightarrow> bytes" where
  "zero_unpad_loop block 0 = take 0 block"
| "zero_unpad_loop block (Suc i) =
     (if block ! i \<noteq> 0 then take (i + 1) block else zero_unpad_loop block i)"

definition zero_unpad :: "bytes \<Rightarrow> (UnpadError, bytes) result outcome" where
  "zero_unpad block = Return (Ok (zero_unpad_loop block (length block)))"

definition pkcs7_unpad_with :: "bytes \<Rightarrow> bool \<Rightarrow> (UnpadError, bytes) result outcome" where
  "pkcs7_unpad_with block strict =
     (if length block > 255 then Panic too_big_for_pkcs7
      else
        and_then (checked_sub (length block) 1) (\<lambda>l.
        and_then (index_at block l) (\<lambda>n.
          if n = 0 \<or> unat n > length block then Return (Err UnpadError)
          else
            let s = length block - unat n in
            and_then (slice block s l) (\<lambda>filler.
              if strict \<and> (\<exists>v \<in> set filler. v \<noteq> n) then Return (Err UnpadError)
              else Return (Ok (take s block))))))"

definition pkcs7_pad :: "bytes \<Rightarrow> nat \<Rightarrow> bytes outcome" where
  "pkcs7_pad block pos =
     (if length block > 255 then Panic too_big_for_pkcs7
      else if pos \<ge> length block then Panic pos_not_below
      else
        let n = of_nat (length block - pos) :: u8 in
        fill_range block pos (length block) n)"

definition ansix923_pad :: "bytes \<Rightarrow> nat \<Rightarrow> bytes outcome" where
  "ansix923_pad block pos =
     (if length block > 255 then Panic too_big_for_pkcs7
      else if pos \<ge> length block then Panic pos_not_below
      else
        let bs = length block in
        and_then (fill_range block pos (bs - 1) 0) (\<lambda>block'.
          set_at block' (bs - 1) (of_nat (bs - pos))))"

definition ansix923_unpad :: "bytes \<Rightarrow> (UnpadError, bytes) result outcome" where
  "ansix923_unpad block =
     (if length block > 255 then Panic too_big_for_pkcs7
      else
        let bs = length block in
        and_then (checked_sub bs 1) (\<lambda>l.
        and_then (index_at block l) (\<lambda>b.
          let n = unat b in
          if n = 0 \<or> n > bs then Return (Err UnpadError)
          else
            let s = bs - n in
            and_then (slice block s l) (\<lambda>filler.
              if \<exists>v \<in> set filler. v \<noteq> 0 then Return (Err UnpadError)
              else Return (Ok (take s block))))))"

definition iso7816_pad :: "bytes \<Rightarrow> nat \<Rightarrow> bytes outcome" where
  "iso7816_pad block pos =
     (if pos \<ge> length block then Panic pos_not_below
      else
        and_then (set_at block pos 0x80) (\<lambda>block'.
          fill_range block' (pos + 1) (length block) 0))"

fun iso7816_unpad_loop :: "bytes \<Rightarrow> nat \<Rightarrow> (UnpadError, bytes) result" where
  "iso7816_unpad_loop block 0 = Err UnpadError"
| "iso7816_unpad_loop block (Suc i) =
     (if block ! i = 0x80 then Ok (take i block)
      else if block ! i = 0x00 then iso7816_unpad_loop block i
      else Err UnpadError)"

definition iso7816_unpad :: "bytes \<Rightarrow> (UnpadError, bytes) result outcome" where
  "iso7816_unpad block = Return (iso7816_unpad_loop block (length block))"

definition no_pad :: "bytes \<Rightarrow> nat \<Rightarrow> bytes outcome" where
  "no_pad block pos = (if pos > length block then Panic pos_too_big else Return block)"

definition no_unpad :: "bytes \<Rightarrow> (UnpadError, bytes) result outcome" where
  "no_unpad block = Return (Ok block)"

section \<open>The trait\<close>

fun pad_TYPE :: "padding \<Rightarrow> PadType" where
  "pad_TYPE ZeroPadding = Ambiguous"
| "pad_TYPE Pkcs7 = Reversible"
| "pad_TYPE Iso10126 = Reversible"
| "pad_TYPE AnsiX923 = Reversible"
| "pad_TYPE Iso7816 = Reversible"
| "pad_TYPE NoPadding = NoPadType"

fun pad :: "padding \<Rightarrow> bytes \<Rightarrow> nat \<Rightarrow> bytes outcome" where
  "pad ZeroPadding block pos = zero_pad block pos"
| "pad Pkcs7 block pos = pkcs7_pad block pos"
| "pad Iso10126 block pos = pkcs7_pad block pos"
| "pad AnsiX923 block pos = ansix923_pad block pos"
| "pad Iso7816 block pos = iso7816_pad block pos"
| "pad NoPadding block pos = no_pad block pos"

fun unpad :: "padding \<Rightarrow> bytes \<Rightarrow> (UnpadError, bytes) result outcome" where
  "unpad ZeroPadding block = zero_unpad block"
| "unpad Pkcs7 block = pkcs7_unpad_with block True"
| "unpad Iso10126 block = pkcs7_unpad_with block False"
| "unpad AnsiX923 block = ansix923_unpad block"
| "unpad Iso7816 block = iso7816_unpad block"
| "unpad NoPadding block = no_unpad block"

text \<open>
  The default method \<open>unpad_blocks\<close>, over the trait's constant and its \<open>unpad\<close>.  The
  blocks are contiguous, so \<open>from_raw_parts(p, res_len)\<close> reads the first \<open>res_len\<close> bytes
  of their concatenation; a longer read leaves the allocation.
\<close>

definition unpad_blocks ::
  "PadType \<Rightarrow> (bytes \<Rightarrow> (UnpadError, bytes) result outcome) \<Rightarrow> nat \<Rightarrow> bytes list
     \<Rightarrow> (UnpadError, bytes) result outcome" where
  "unpad_blocks ty unp bs blocks =
     (let read_raw = (\<lambda>res_len.
            if res_len \<le> length (concat blocks) then Return (Ok (take res_len (concat blocks)))
            else Panic Undefined_Behaviour)
      in if ty = NoPadType then read_raw (bs * length blocks)
         else if blocks \<noteq> [] then
           and_then (unp (last blocks)) (\<lambda>r.
             case r of
               Err e \<Rightarrow> Return (Err e)
             | Ok m \<Rightarrow>
                 and_then (rust_assert (length m \<le> bs) Assert_Failed) (\<lambda>_.
                   read_raw (length m + bs * (length blocks - 1))))
         else if ty = Ambiguous then read_raw 0
         else Return (Err UnpadError))"

section \<open>What the schemes compute\<close>

lemma zero_pad_Return:
  "zero_pad b pos = Return b' \<longleftrightarrow>
   pos \<le> length b \<and> b' = take pos b @ replicate (length b - pos) 0"
  by (auto simp: zero_pad_def fill_range_to_end)

lemma pkcs7_pad_Return:
  "pkcs7_pad b pos = Return b' \<longleftrightarrow>
   length b \<le> 255 \<and> pos < length b \<and>
   b' = take pos b @ replicate (length b - pos) (of_nat (length b - pos))"
  by (auto simp: pkcs7_pad_def fill_range_to_end Let_def)

lemma ansix923_pad_Return:
  "ansix923_pad b pos = Return b' \<longleftrightarrow>
   length b \<le> 255 \<and> pos < length b \<and>
   b' = take pos b @ replicate (length b - 1 - pos) 0 @ [of_nat (length b - pos)]"
proof -
  have "(take pos b @ replicate (length b - 1 - pos) 0 @ drop (length b - 1) b)
          [length b - 1 := of_nat (length b - pos)]
        = take pos b @ replicate (length b - 1 - pos) 0 @ [of_nat (length b - pos) :: u8]"
    if "pos < length b"
    using that by (cases b rule: rev_cases) (auto simp: list_update_append)
  then show ?thesis
    by (auto simp: ansix923_pad_def Let_def fill_range_Return set_at_def)
qed

lemma iso7816_pad_Return:
  "iso7816_pad b pos = Return b' \<longleftrightarrow>
   pos < length b \<and> b' = take pos b @ 0x80 # replicate (length b - 1 - pos) 0"
  by (auto simp: iso7816_pad_def set_at_def fill_range_Return upd_conv_take_nth_drop min_def)

lemma no_pad_Return: "no_pad b pos = Return b' \<longleftrightarrow> pos \<le> length b \<and> b' = b"
  by (auto simp: no_pad_def)

lemmas pad_Return =
  zero_pad_Return pkcs7_pad_Return ansix923_pad_Return iso7816_pad_Return no_pad_Return

text \<open>
  Both length-byte schemes read the last byte, bound it, and look at the filler before it;
  they differ in the byte the filler must hold.
\<close>

definition length_byte_unpad :: "bytes \<Rightarrow> bool \<Rightarrow> u8 \<Rightarrow> (UnpadError, bytes) result" where
  "length_byte_unpad b strict v =
     (let n = unat (last b); s = length b - n in
      if n = 0 \<or> length b < n then Err UnpadError
      else if strict \<and> drop s b \<noteq> replicate (n - 1) v @ [last b] then Err UnpadError
      else Ok (take s b))"

lemma slice_filler:
  assumes "0 < n" "n \<le> length b" "b \<noteq> []"
  shows "slice b (length b - n) (length b - 1) = Return (take (n - 1) (drop (length b - n) b))"
    and "(\<exists>x \<in> set (take (n - 1) (drop (length b - n) b)). x \<noteq> v) \<longleftrightarrow>
         drop (length b - n) b \<noteq> replicate (n - 1) v @ [last b]"
proof -
  have *: "length b - 1 - (length b - n) = n - 1" using assms by simp
  show "slice b (length b - n) (length b - 1) = Return (take (n - 1) (drop (length b - n) b))"
    using assms by (simp add: slice_def diff_le_mono2 *)
  show "(\<exists>x \<in> set (take (n - 1) (drop (length b - n) b)). x \<noteq> v) \<longleftrightarrow>
         drop (length b - n) b \<noteq> replicate (n - 1) v @ [last b]"
    using filler_iff [of b "length b - n" v] assms unfolding * by auto
qed

lemma index_last: "b \<noteq> [] \<Longrightarrow> index_at b (length b - 1) = Return (last b)"
  by (simp add: index_at_def last_conv_nth)

lemma checked_sub_last: "b \<noteq> [] \<Longrightarrow> checked_sub (length b) 1 = Return (length b - 1)"
  by (cases b) (simp_all add: checked_sub_def)

lemma pkcs7_unpad_eq:
  assumes "b \<noteq> []" "length b \<le> 255"
  shows "pkcs7_unpad_with b strict = Return (length_byte_unpad b strict (last b))"
proof (cases "unat (last b) = 0 \<or> length b < unat (last b)")
  case True
  then show ?thesis
    using assms
    by (auto simp: pkcs7_unpad_with_def length_byte_unpad_def index_last checked_sub_last
        u8_eq_0_iff Let_def simp flip: One_nat_def)
next
  case False
  then have "0 < unat (last b)" "unat (last b) \<le> length b" by auto
  note fill = slice_filler [OF this assms(1)]
  show ?thesis
    using assms False
    by (simp add: pkcs7_unpad_with_def length_byte_unpad_def index_last checked_sub_last
        u8_eq_0_iff Let_def fill del: take_drop flip: One_nat_def)
qed

lemma ansix923_unpad_eq:
  assumes "b \<noteq> []" "length b \<le> 255"
  shows "ansix923_unpad b = Return (length_byte_unpad b True 0)"
proof (cases "unat (last b) = 0 \<or> length b < unat (last b)")
  case True
  then show ?thesis
    using assms
    by (auto simp: ansix923_unpad_def length_byte_unpad_def index_last checked_sub_last
        Let_def simp flip: One_nat_def)
next
  case False
  then have "0 < unat (last b)" "unat (last b) \<le> length b" by auto
  note fill = slice_filler [OF this assms(1)]
  show ?thesis
    using assms False
    by (simp add: ansix923_unpad_def length_byte_unpad_def index_last checked_sub_last
        Let_def fill del: take_drop flip: One_nat_def)
qed

lemma length_byte_unpad_Ok:
  "length_byte_unpad b strict v = Ok m \<longleftrightarrow>
   0 < unat (last b) \<and> unat (last b) \<le> length b \<and> m = take (length b - unat (last b)) b \<and>
   (strict \<longrightarrow> drop (length b - unat (last b)) b = replicate (unat (last b) - 1) v @ [last b])"
  by (auto simp: length_byte_unpad_def Let_def)

lemma length_byte_unpad_padded:
  assumes "0 < n" "n < 256"
  shows "length_byte_unpad (xs @ replicate (n - 1) v @ [of_nat n]) strict v = Ok xs"
  using assms by (auto simp: length_byte_unpad_Ok)

lemma pkcs7_padded: "0 < n \<Longrightarrow> xs @ replicate n v = xs @ replicate (n - 1) v @ [v]"
  by (metis Suc_diff_1 replicate_Suc replicate_append_same)

lemma pkcs7_unpad_pad:
  assumes "pkcs7_pad b pos = Return b'"
  shows "pkcs7_unpad_with b' strict = Return (Ok (take pos b))"
proof -
  let ?n = "length b - pos"
  from assms have len: "length b \<le> 255" "pos < length b"
    and b': "b' = take pos b @ replicate (?n - 1) (of_nat ?n) @ [of_nat ?n]"
    using pkcs7_padded [of ?n "take pos b"] by (auto simp: pkcs7_pad_Return)
  then have "length_byte_unpad b' strict (last b') = Ok (take pos b)"
    using length_byte_unpad_padded [of ?n "take pos b" "of_nat ?n" strict] by simp
  then show ?thesis
    using len b' by (simp add: pkcs7_unpad_eq)
qed

lemma ansix923_unpad_pad:
  assumes "ansix923_pad b pos = Return b'"
  shows "ansix923_unpad b' = Return (Ok (take pos b))"
proof -
  let ?n = "length b - pos"
  from assms have len: "length b \<le> 255" "pos < length b"
    and b': "b' = take pos b @ replicate (?n - 1) 0 @ [of_nat ?n]"
    by (auto simp: ansix923_pad_Return)
  then have "length_byte_unpad b' True 0 = Ok (take pos b)"
    using length_byte_unpad_padded [of ?n "take pos b" 0 True] by simp
  then show ?thesis
    using len b' by (simp add: ansix923_unpad_eq)
qed

lemma iso7816_unpad_loop_zeros:
  "iso7816_unpad_loop (xs @ 0x80 # replicate n 0 @ ys) (length xs + 1 + k) = Ok xs"
  if "k \<le> n"
  using that
proof (induction k)
  case (Suc k)
  then show ?case
    by (simp add: nth_append nth_Cons' Suc_diff_le)
qed (simp add: nth_append)

lemma iso7816_unpad_pad:
  assumes "iso7816_pad b pos = Return b'"
  shows "iso7816_unpad b' = Return (Ok (take pos b))"
proof -
  from assms have "pos < length b" and "b' = take pos b @ 0x80 # replicate (length b - 1 - pos) 0 @ []"
    by (auto simp: iso7816_pad_Return)
  then show ?thesis
    using iso7816_unpad_loop_zeros [of "length b - 1 - pos" "length b - 1 - pos" "take pos b" "[]"]
    by (simp add: iso7816_unpad_def)
qed

lemma iso7816_unpad_loop_Ok:
  assumes "iso7816_unpad_loop b k = Ok m" and "k \<le> length b"
  shows "\<exists>pos < k. m = take pos b \<and> take k b = take pos b @ 0x80 # replicate (k - 1 - pos) 0"
  using assms
proof (induction b k rule: iso7816_unpad_loop.induct)
  case (2 b i)
  then have step: "take (Suc i) b = take i b @ [b ! i]"
    by (simp add: take_Suc_conv_app_nth)
  show ?case
  proof (cases "b ! i = 0x80")
    case True
    with "2.prems" step show ?thesis by (intro exI [of _ i]) simp
  next
    case False
    with "2.prems" have zero: "b ! i = 0" and "iso7816_unpad_loop b i = Ok m"
      by (auto split: if_splits)
    with "2.IH" False "2.prems"(2) obtain pos where
      pos: "pos < i" "m = take pos b" "take i b = take pos b @ 0x80 # replicate (i - 1 - pos) 0"
      by auto
    have "take (Suc i) b = take pos b @ 0x80 # replicate (Suc i - 1 - pos) 0"
      using step pos zero by (simp add: replicate_append_same Suc_diff_le flip: replicate_Suc)
    with pos show ?thesis by (intro exI [of _ pos]) simp
  qed
qed simp

lemma zero_unpad_loop_strip:
  "k \<le> length b \<Longrightarrow> zero_unpad_loop b k = rev (dropWhile (\<lambda>x. x = 0) (rev (take k b)))"
  by (induction b k rule: zero_unpad_loop.induct) (auto simp: take_Suc_conv_app_nth)

lemma zero_unpad_strip:
  "zero_unpad b = Return (Ok (rev (dropWhile (\<lambda>x. x = 0) (rev b))))"
  by (simp add: zero_unpad_def zero_unpad_loop_strip)

lemma zero_unpad_loop_prefix: "\<exists>j \<le> k. zero_unpad_loop b k = take j b"
  by (induction b k rule: zero_unpad_loop.induct) (auto intro: le_SucI)

section \<open>The interface of the trait\<close>

text \<open>
  What clients of \<open>Padding\<close> rely on: \<open>pad\<close> keeps the size of the block and the message
  bytes in it, and \<open>unpad\<close> returns a prefix of the block.
\<close>

locale padding_scheme =
  fixes ty :: PadType
    and pad_fn :: "bytes \<Rightarrow> nat \<Rightarrow> bytes outcome"
    and unpad_fn :: "bytes \<Rightarrow> (UnpadError, bytes) result outcome"
  assumes pad_length: "pad_fn b pos = Return b' \<Longrightarrow> length b' = length b"
    and pad_keeps: "pad_fn b pos = Return b' \<Longrightarrow> pos \<le> length b \<and> take pos b' = take pos b"
    and unpad_prefix: "unpad_fn b = Return (Ok m) \<Longrightarrow> \<exists>k \<le> length b. m = take k b"
    and unpad_no_padding: "ty = NoPadType \<Longrightarrow> unpad_fn b = Return (Ok b)"
begin

lemma unpad_length: "unpad_fn b = Return (Ok m) \<Longrightarrow> length m \<le> length b"
  by (drule unpad_prefix) auto

text \<open>The length that \<open>unpad_blocks\<close> hands to \<open>from_raw_parts\<close> is always in bounds.\<close>

lemma unpad_blocks_in_bounds:
  assumes "\<And>b. b \<in> set blocks \<Longrightarrow> length b = bs"
    and "blocks \<noteq> [] \<Longrightarrow> unpad_fn (last blocks) = Return r"
  shows "\<exists>r'. unpad_blocks ty unpad_fn bs blocks = Return r' \<and>
           (\<forall>m. r' = Ok m \<longrightarrow> (\<exists>k \<le> bs * length blocks. m = take k (concat blocks)))"
proof -
  have len: "length (concat blocks) = length blocks * bs"
    using assms(1) by (rule concat_all_length)
  have last_len: "length (last blocks) = bs" if "blocks \<noteq> []"
    using that assms(1) by simp
  show ?thesis
  proof (cases "ty = NoPadType \<or> blocks = []")
    case True
    then show ?thesis
      using len by (auto simp: unpad_blocks_def mult.commute)
  next
    case False
    show ?thesis
    proof (cases r)
      case (Ok m)
      with False assms(2) have u: "unpad_fn (last blocks) = Return (Ok m)" by simp
      then have m: "length m \<le> bs"
        using unpad_length last_len False by fastforce
      then have le: "length m + bs * (length blocks - 1) \<le> length blocks * bs"
        using False by (cases blocks) (auto simp: mult.commute)
      then show ?thesis
        using False u m len by (auto simp: unpad_blocks_def mult.commute)
    qed (use False assms(2) in \<open>simp add: unpad_blocks_def\<close>)
  qed
qed

end

text \<open>A reversible scheme recovers the message from what it padded.\<close>

locale reversible_padding = padding_scheme +
  assumes is_reversible: "ty = Reversible"
    and unpad_pad: "pad_fn b pos = Return b' \<Longrightarrow> unpad_fn b' = Return (Ok (take pos b))"
begin

lemma unpad_blocks_pad:
  assumes "\<And>b. b \<in> set blocks \<Longrightarrow> length b = bs" and "length tail = bs"
    and padded: "pad_fn tail pos = Return tail'"
  shows "unpad_blocks ty unpad_fn bs (blocks @ [tail']) = Return (Ok (concat blocks @ take pos tail))"
proof -
  have len: "length (concat blocks) = length blocks * bs"
    using assms(1) by (rule concat_all_length)
  have pos: "pos \<le> bs" and keep: "take pos tail' = take pos tail" and "length tail' = bs"
    using pad_keeps [OF padded] pad_length [OF padded] assms(2) by auto
  then show ?thesis
    using assms(2) len
    by (simp add: unpad_blocks_def is_reversible unpad_pad [OF padded] mult.commute)
qed

end

text \<open>A canonical scheme accepts exactly the blocks its own \<open>pad\<close> produces.\<close>

locale canonical_padding = reversible_padding +
  assumes unpad_canonical:
    "unpad_fn b = Return (Ok m) \<Longrightarrow> \<exists>pos. m = take pos b \<and> pad_fn b pos = Return b"
begin

lemma unpad_accepts_iff:
  "unpad_fn b = Return (Ok m) \<longleftrightarrow> (\<exists>pos. m = take pos b \<and> pad_fn b pos = Return b)"
  using unpad_canonical unpad_pad by blast

end

section \<open>The structs implement the interface\<close>

lemma pkcs7_unpad_prefix:
  assumes "pkcs7_unpad_with b strict = Return (Ok m)"
  shows "b \<noteq> [] \<and> length b \<le> 255 \<and> length_byte_unpad b strict (last b) = Ok m"
proof -
  have "b \<noteq> []" "length b \<le> 255"
    using assms by (auto simp: pkcs7_unpad_with_def checked_sub_def split: if_splits)
  then show ?thesis
    using assms by (simp add: pkcs7_unpad_eq)
qed

lemma ansix923_unpad_prefix:
  assumes "ansix923_unpad b = Return (Ok m)"
  shows "b \<noteq> [] \<and> length b \<le> 255 \<and> length_byte_unpad b True 0 = Ok m"
proof -
  have "b \<noteq> []" "length b \<le> 255"
    using assms by (auto simp: ansix923_unpad_def checked_sub_def split: if_splits)
  then show ?thesis
    using assms by (simp add: ansix923_unpad_eq)
qed

lemma length_byte_unpad_take: "length_byte_unpad b strict v = Ok m \<Longrightarrow> \<exists>k \<le> length b. m = take k b"
  by (auto simp: length_byte_unpad_Ok intro: diff_le_self)

lemma iso7816_unpad_take: "iso7816_unpad b = Return (Ok m) \<Longrightarrow> \<exists>k \<le> length b. m = take k b"
  using iso7816_unpad_loop_Ok [of b "length b" m] by (auto simp: iso7816_unpad_def intro: less_imp_le)

lemma length_byte_unpad_canonical:
  assumes "length_byte_unpad b True v = Ok m"
  shows "m = take (length b - unat (last b)) b \<and> length b - unat (last b) < length b \<and>
         b = take (length b - unat (last b)) b @ replicate (unat (last b) - 1) v @ [last b]"
  using assms by (auto simp: length_byte_unpad_Ok) (metis append_take_drop_id)

interpretation zero_scheme: padding_scheme "pad_TYPE ZeroPadding" "pad ZeroPadding" "unpad ZeroPadding"
  by unfold_locales
    (auto simp: zero_pad_Return zero_unpad_def intro: zero_unpad_loop_prefix)

interpretation no_scheme: padding_scheme "pad_TYPE NoPadding" "pad NoPadding" "unpad NoPadding"
  by unfold_locales (auto simp: no_pad_Return no_unpad_def)

interpretation iso10126_scheme: reversible_padding "pad_TYPE Iso10126" "pad Iso10126" "unpad Iso10126"
  by unfold_locales
    (auto simp: pkcs7_pad_Return dest: pkcs7_unpad_prefix length_byte_unpad_take intro!: pkcs7_unpad_pad)

interpretation pkcs7_scheme: canonical_padding "pad_TYPE Pkcs7" "pad Pkcs7" "unpad Pkcs7"
proof unfold_locales
  fix b m assume "unpad Pkcs7 b = Return (Ok m)"
  then have ok: "length b \<le> 255" "length_byte_unpad b True (last b) = Ok m"
    using pkcs7_unpad_prefix by auto
  let ?pos = "length b - unat (last b)"
  have n: "0 < unat (last b)" "unat (last b) \<le> length b"
    using ok(2) by (auto simp: length_byte_unpad_Ok)
  have "b = take ?pos b @ replicate (unat (last b)) (last b)"
    using length_byte_unpad_canonical [OF ok(2)] pkcs7_padded [OF n(1)] by metis
  with n ok length_byte_unpad_canonical [OF ok(2)]
  show "\<exists>pos. m = take pos b \<and> pad Pkcs7 b pos = Return b"
    by (intro exI [of _ ?pos]) (auto simp: pkcs7_pad_Return)
qed (auto simp: pkcs7_pad_Return dest: pkcs7_unpad_prefix length_byte_unpad_take
      intro!: pkcs7_unpad_pad)

interpretation ansix923_scheme: canonical_padding "pad_TYPE AnsiX923" "pad AnsiX923" "unpad AnsiX923"
proof unfold_locales
  fix b m assume "unpad AnsiX923 b = Return (Ok m)"
  then have ok: "length b \<le> 255" "length_byte_unpad b True 0 = Ok m"
    using ansix923_unpad_prefix by auto
  let ?pos = "length b - unat (last b)"
  have n: "0 < unat (last b)" "unat (last b) \<le> length b"
    using ok(2) by (auto simp: length_byte_unpad_Ok)
  with ok length_byte_unpad_canonical [OF ok(2)]
  show "\<exists>pos. m = take pos b \<and> pad AnsiX923 b pos = Return b"
    by (intro exI [of _ ?pos]) (auto simp: ansix923_pad_Return)
qed (auto simp: ansix923_pad_Return dest: ansix923_unpad_prefix length_byte_unpad_take
      intro!: ansix923_unpad_pad)

interpretation iso7816_scheme: canonical_padding "pad_TYPE Iso7816" "pad Iso7816" "unpad Iso7816"
proof unfold_locales
  fix b m assume "unpad Iso7816 b = Return (Ok m)"
  then obtain pos where "pos < length b" "m = take pos b"
      "b = take pos b @ 0x80 # replicate (length b - 1 - pos) 0"
    using iso7816_unpad_loop_Ok [of b "length b" m] by (auto simp: iso7816_unpad_def)
  then show "\<exists>pos. m = take pos b \<and> pad Iso7816 b pos = Return b"
    by (intro exI [of _ pos]) (auto simp: iso7816_pad_Return)
qed (auto simp: iso7816_pad_Return dest: iso7816_unpad_take intro!: iso7816_unpad_pad)

section \<open>Properties\<close>

lemma pad_Reversible_cases:
  "pad_TYPE s = Reversible \<longleftrightarrow> s \<in> {Pkcs7, Iso10126, AnsiX923, Iso7816}"
  by (cases s) auto

lemma every_scheme: "padding_scheme (pad_TYPE s) (pad s) (unpad s)"
  by (cases s)
    (simp_all only: zero_scheme.padding_scheme_axioms no_scheme.padding_scheme_axioms
      pkcs7_scheme.padding_scheme_axioms iso10126_scheme.padding_scheme_axioms
      ansix923_scheme.padding_scheme_axioms iso7816_scheme.padding_scheme_axioms)

lemma reversible_scheme:
  "pad_TYPE s = Reversible \<Longrightarrow> reversible_padding (pad_TYPE s) (pad s) (unpad s)"
  using pkcs7_scheme.reversible_padding_axioms iso10126_scheme.reversible_padding_axioms
    ansix923_scheme.reversible_padding_axioms iso7816_scheme.reversible_padding_axioms
  by (cases s) simp_all

lemma canonical_scheme:
  "s \<in> {Pkcs7, AnsiX923, Iso7816} \<Longrightarrow> canonical_padding (pad_TYPE s) (pad s) (unpad s)"
  using pkcs7_scheme.canonical_padding_axioms ansix923_scheme.canonical_padding_axioms
    iso7816_scheme.canonical_padding_axioms
  by blast

text \<open>
  (C2) Every reversible scheme round-trips.  A block of at most 255 bytes (any size for ISO 7816)
  with \<open>pos\<close> message bytes, \<open>pos\<close> below the block size, is padded without a panic to a block of
  the same size, and unpadding that block returns exactly the message bytes.
\<close>

theorem padding_roundtrip:
  assumes "pad_TYPE s = Reversible" and "pos < length b" and "length b \<le> 255 \<or> s = Iso7816"
  shows "\<exists>b'. pad s b pos = Return b' \<and> length b' = length b \<and>
           unpad s b' = Return (Ok (take pos b))"
proof -
  obtain b' where b': "pad s b pos = Return b'"
    using assms by (auto simp: pad_Reversible_cases pad_Return)
  moreover have "length b' = length b" "unpad s b' = Return (Ok (take pos b))"
    using b' padding_scheme.pad_length [OF every_scheme]
      reversible_padding.unpad_pad [OF reversible_scheme [OF assms(1)]] by blast+
  ultimately show ?thesis by blast
qed

theorem padding_roundtrip_witness:
  "\<exists>b'. pad Pkcs7 [1, 2, 3, 0xff] 3 = Return b' \<and> length b' = length [1, 2, 3, 0xff :: u8] \<and>
        unpad Pkcs7 b' = Return (Ok (take 3 [1, 2, 3, 0xff]))"
  by (rule padding_roundtrip) simp_all

text \<open>
  (C20) PKCS#7, ANSI X9.23 and ISO 7816 are strict: \<open>unpad\<close> accepts a block exactly when the
  block is the result of padding one of its own prefixes, and then returns that prefix.  No
  malformed padding is accepted.
\<close>

theorem strict_unpad_accepts_iff:
  assumes "s \<in> {Pkcs7, AnsiX923, Iso7816}"
  shows "unpad s b = Return (Ok m) \<longleftrightarrow> (\<exists>pos. m = take pos b \<and> pad s b pos = Return b)"
  using canonical_padding.unpad_accepts_iff [OF canonical_scheme [OF assms]] .

theorem strict_unpad_accepts_iff_witness:
  "unpad Iso7816 [7, 0x80, 0] = Return (Ok [7]) \<longleftrightarrow>
   (\<exists>pos. [7] = take pos [7, 0x80, 0 :: u8] \<and> pad Iso7816 [7, 0x80, 0] pos = Return [7, 0x80, 0])"
  by (rule strict_unpad_accepts_iff) simp

text \<open>
  Whole messages: with any reversible scheme, \<open>unpad_blocks\<close> on the full blocks of a
  message followed by its padded last block returns the message, and nothing of the padding.
\<close>

theorem unpad_blocks_recovers_message:
  assumes "pad_TYPE s = Reversible"
    and "\<forall>b \<in> set blocks. length b = bs" and "length tail = bs"
    and "pad s tail pos = Return tail'"
  shows "unpad_blocks (pad_TYPE s) (unpad s) bs (blocks @ [tail']) =
           Return (Ok (concat blocks @ take pos tail))"
  using reversible_padding.unpad_blocks_pad [OF reversible_scheme [OF assms(1)]] assms(2-4)
  by blast

theorem unpad_blocks_recovers_message_witness:
  "unpad_blocks (pad_TYPE AnsiX923) (unpad AnsiX923) 4 ([[1, 2, 3, 4]] @ [[5, 0, 0, 3]]) =
     Return (Ok [1, 2, 3, 4, 5])"
  using unpad_blocks_recovers_message [of AnsiX923 "[[1, 2, 3, 4]]" 4 "[5, 6, 7, 8]" 1 "[5, 0, 0, 3]"]
  by (simp add: ansix923_pad_Return)

text \<open>
  The raw read at the end of \<open>unpad_blocks\<close> stays inside the blocks: for every scheme and
  blocks of one size (1 to 255 bytes), the call returns, never reaches undefined behaviour or the
  assertion, and a successful result is a prefix of the blocks' bytes.
\<close>

theorem unpad_blocks_safe:
  assumes "\<forall>b \<in> set blocks. length b = bs" and "0 < bs" and "bs \<le> 255"
  shows "\<exists>r. unpad_blocks (pad_TYPE s) (unpad s) bs blocks = Return r \<and>
           (\<forall>m. r = Ok m \<longrightarrow> (\<exists>k \<le> bs * length blocks. m = take k (concat blocks)))"
proof -
  have len: "\<And>b. b \<in> set blocks \<Longrightarrow> length b = bs" using assms(1) by blast
  have "returns (unpad s (last blocks))" if "blocks \<noteq> []"
  proof -
    have "length (last blocks) = bs" using len that by simp
    moreover from this have "last blocks \<noteq> []" using assms(2) by auto
    moreover note assms(3)
    ultimately show ?thesis
      by (cases s) (simp_all add: zero_unpad_def no_unpad_def iso7816_unpad_def pkcs7_unpad_eq
          ansix923_unpad_eq)
  qed
  then have "blocks \<noteq> [] \<Longrightarrow> \<exists>r. unpad s (last blocks) = Return r"
    by (simp add: returns_iff)
  then show ?thesis
    using padding_scheme.unpad_blocks_in_bounds [OF every_scheme len] by metis
qed

theorem unpad_blocks_safe_witness:
  "\<exists>r. unpad_blocks (pad_TYPE Pkcs7) (unpad Pkcs7) 2 [[9, 9], [9, 1]] = Return r \<and>
     (\<forall>m. r = Ok m \<longrightarrow> (\<exists>k \<le> 2 * 2. m = take k [9, 9, 9, 1]))"
  using unpad_blocks_safe [of "[[9, 9], [9, 1]]" 2 Pkcs7] by simp

end
