(* ===== verification/Inout.thy ===== *)
theory Inout
  imports Block_Padding
begin

text \<open>
  The crate \<^verbatim>\<open>inout\<close>: references to an input and an output buffer that are either the same or do not
  overlap.  The claims depend on aliasing, so the model has one flat memory of bytes, pointers
  are addresses in it, and an access outside the memory is undefined behaviour.

  \<open>InOut<T>\<close> and \<open>InOutBuf<T>\<close> are used for \<open>T = u8\<close> and for arrays of bytes; the operations take the
  size of \<open>T\<close> in bytes as the argument \<open>sz\<close>, and \<open>p.add(n)\<close> is \<open>p + sz * n\<close>.
\<close>

section \<open>Memory\<close>

type_synonym memory = bytes

definition mem_read :: "memory \<Rightarrow> nat \<Rightarrow> nat \<Rightarrow> bytes outcome" where
  "mem_read mem a n =
     (if a + n \<le> length mem then Return (take n (drop a mem)) else Panic Undefined_Behaviour)"

definition mem_write :: "memory \<Rightarrow> nat \<Rightarrow> bytes \<Rightarrow> memory outcome" where
  "mem_write mem a bs =
     (if a + length bs \<le> length mem then Return (overwrite mem a bs) else Panic Undefined_Behaviour)"

section \<open>InOut\<close>

record inout =
  in_ptr :: nat
  out_ptr :: nat

record inout_buf =
  buf_in :: nat
  buf_out :: nat
  buf_len :: nat

definition inout_reborrow :: "inout \<Rightarrow> inout" where
  "inout_reborrow self = \<lparr>in_ptr = in_ptr self, out_ptr = out_ptr self\<rparr>"

definition inout_get_in :: "nat \<Rightarrow> memory \<Rightarrow> inout \<Rightarrow> bytes outcome" where
  "inout_get_in sz mem self = mem_read mem (in_ptr self) sz"

definition inout_get_out :: "nat \<Rightarrow> memory \<Rightarrow> inout \<Rightarrow> bytes outcome" where
  "inout_get_out sz mem self = mem_read mem (out_ptr self) sz"

text \<open>\<open>*self.get_out() = val\<close>.\<close>

definition inout_set_out :: "memory \<Rightarrow> inout \<Rightarrow> bytes \<Rightarrow> memory outcome" where
  "inout_set_out mem self val = mem_write mem (out_ptr self) val"

definition inout_into_raw :: "inout \<Rightarrow> nat \<times> nat" where
  "inout_into_raw self = (in_ptr self, out_ptr self)"

definition inout_from_raw :: "nat \<Rightarrow> nat \<Rightarrow> inout" where
  "inout_from_raw i o' = \<lparr>in_ptr = i, out_ptr = o'\<rparr>"

text \<open>The values are bytes, and cloning them copies them.\<close>

definition inout_clone_in :: "nat \<Rightarrow> memory \<Rightarrow> inout \<Rightarrow> bytes outcome" where
  "inout_clone_in sz mem self = mem_read mem (in_ptr self) sz"

definition inout_from_mut :: "nat \<Rightarrow> inout" where
  "inout_from_mut p = \<lparr>in_ptr = p, out_ptr = p\<rparr>"

definition inout_from_pair :: "nat \<Rightarrow> nat \<Rightarrow> inout" where
  "inout_from_pair in_val out_val = \<lparr>in_ptr = in_val, out_ptr = out_val\<rparr>"

text \<open>\<open>get\<close> on an array of \<open>n\<close> elements of size \<open>sz\<close>.\<close>

definition inout_get :: "nat \<Rightarrow> nat \<Rightarrow> inout \<Rightarrow> nat \<Rightarrow> inout outcome" where
  "inout_get sz n self pos =
     and_then (rust_assert (pos < n) Assert_Failed) (\<lambda>_.
       Return \<lparr>in_ptr = in_ptr self + sz * pos, out_ptr = out_ptr self + sz * pos\<rparr>)"

definition inout_into_buf :: "nat \<Rightarrow> inout \<Rightarrow> inout_buf" where
  "inout_into_buf n self = \<lparr>buf_in = in_ptr self, buf_out = out_ptr self, buf_len = n\<rparr>"

text \<open>
  \<open>xor_in2out\<close> on an array reads the whole input, fills \<open>temp\<close>, and writes it.  The loop has the index
  \<open>i\<close> and the number of rounds left; the nested version has \<open>m\<close> arrays of \<open>n\<close> bytes.
\<close>

fun xor_temp :: "bytes \<Rightarrow> bytes \<Rightarrow> nat \<Rightarrow> nat \<Rightarrow> bytes \<Rightarrow> bytes" where
  "xor_temp input data i 0 temp = temp"
| "xor_temp input data i (Suc k) temp = xor_temp input data (i + 1) k (temp[i := input ! i XOR data ! i])"

definition inout_xor_in2out :: "nat \<Rightarrow> memory \<Rightarrow> inout \<Rightarrow> bytes \<Rightarrow> memory outcome" where
  "inout_xor_in2out n mem self data =
     and_then (mem_read mem (in_ptr self) n) (\<lambda>input.
       let temp = xor_temp input data 0 n (replicate n 0) in
       mem_write mem (out_ptr self) temp)"

fun xor_temp2 :: "nat \<Rightarrow> bytes list \<Rightarrow> bytes list \<Rightarrow> nat \<Rightarrow> nat \<Rightarrow> bytes list \<Rightarrow> bytes list" where
  "xor_temp2 n input data i 0 temp = temp"
| "xor_temp2 n input data i (Suc k) temp =
     xor_temp2 n input data (i + 1) k (temp[i := xor_temp (input ! i) (data ! i) 0 n (temp ! i)])"

definition inout_xor_in2out2 :: "nat \<Rightarrow> nat \<Rightarrow> memory \<Rightarrow> inout \<Rightarrow> bytes list \<Rightarrow> memory outcome" where
  "inout_xor_in2out2 n m mem self data =
     and_then (mem_read mem (in_ptr self) (m * n)) (\<lambda>input.
       let temp = xor_temp2 n (chunks_of n m input) data 0 m (replicate m (replicate n 0)) in
       mem_write mem (out_ptr self) (concat temp))"

section \<open>InOutBuf\<close>

datatype NotEqualError = NotEqualError
datatype IntoArrayError = IntoArrayError

definition IntoArrayError_fmt :: "IntoArrayError \<Rightarrow> string" where
  "IntoArrayError_fmt self = ''Failed to convert into array.''"

definition NotEqualError_fmt :: "NotEqualError \<Rightarrow> string" where
  "NotEqualError_fmt self = ''Length of input slices is not equal to each other''"

text \<open>A slice argument is its address and length.\<close>

definition buf_from_slice :: "nat \<Rightarrow> nat \<Rightarrow> inout_buf" where
  "buf_from_slice p len = \<lparr>buf_in = p, buf_out = p, buf_len = len\<rparr>"

definition buf_from_mut :: "nat \<Rightarrow> inout_buf" where
  "buf_from_mut p = \<lparr>buf_in = p, buf_out = p, buf_len = 1\<rparr>"

definition buf_from_ref_mut :: "nat \<Rightarrow> nat \<Rightarrow> inout_buf" where
  "buf_from_ref_mut in_val out_val = \<lparr>buf_in = in_val, buf_out = out_val, buf_len = 1\<rparr>"

definition buf_new :: "nat \<Rightarrow> nat \<Rightarrow> nat \<Rightarrow> nat \<Rightarrow> (NotEqualError, inout_buf) result" where
  "buf_new i in_len o' out_len =
     (if in_len \<noteq> out_len then Err NotEqualError
      else Ok \<lparr>buf_in = i, buf_out = o', buf_len = in_len\<rparr>)"

definition buf_is_empty :: "inout_buf \<Rightarrow> bool" where
  "buf_is_empty self \<longleftrightarrow> buf_len self = 0"

definition buf_get :: "nat \<Rightarrow> inout_buf \<Rightarrow> nat \<Rightarrow> inout outcome" where
  "buf_get sz self pos =
     and_then (rust_assert (pos < buf_len self) Assert_Failed) (\<lambda>_.
       Return \<lparr>in_ptr = buf_in self + sz * pos, out_ptr = buf_out self + sz * pos\<rparr>)"

definition buf_get_in :: "nat \<Rightarrow> memory \<Rightarrow> inout_buf \<Rightarrow> bytes outcome" where
  "buf_get_in sz mem self = mem_read mem (buf_in self) (sz * buf_len self)"

definition buf_get_out :: "nat \<Rightarrow> memory \<Rightarrow> inout_buf \<Rightarrow> bytes outcome" where
  "buf_get_out sz mem self = mem_read mem (buf_out self) (sz * buf_len self)"

definition buf_into_raw :: "inout_buf \<Rightarrow> nat \<times> nat" where
  "buf_into_raw self = (buf_in self, buf_out self)"

definition buf_reborrow :: "inout_buf \<Rightarrow> inout_buf" where
  "buf_reborrow self = \<lparr>buf_in = buf_in self, buf_out = buf_out self, buf_len = buf_len self\<rparr>"

definition buf_from_raw :: "nat \<Rightarrow> nat \<Rightarrow> nat \<Rightarrow> inout_buf" where
  "buf_from_raw i o' len = \<lparr>buf_in = i, buf_out = o', buf_len = len\<rparr>"

definition buf_split_at :: "nat \<Rightarrow> inout_buf \<Rightarrow> nat \<Rightarrow> (inout_buf \<times> inout_buf) outcome" where
  "buf_split_at sz self mid =
     and_then (rust_assert (mid \<le> buf_len self) Assert_Failed) (\<lambda>_.
       let tail_in = buf_in self + sz * mid; tail_out = buf_out self + sz * mid in
       Return (\<lparr>buf_in = buf_in self, buf_out = buf_out self, buf_len = mid\<rparr>,
               \<lparr>buf_in = tail_in, buf_out = tail_out, buf_len = buf_len self - mid\<rparr>))"

definition into_chunks :: "nat \<Rightarrow> nat \<Rightarrow> inout_buf \<Rightarrow> inout_buf \<times> inout_buf" where
  "into_chunks sz n self =
     (let chunks = buf_len self div n;
          tail_pos = n * chunks;
          tail_len = buf_len self - tail_pos
      in (\<lparr>buf_in = buf_in self, buf_out = buf_out self, buf_len = chunks\<rparr>,
          \<lparr>buf_in = buf_in self + sz * tail_pos, buf_out = buf_out self + sz * tail_pos, buf_len = tail_len\<rparr>))"

text \<open>The loop \<open>for i in 0..len\<close> that reads element \<open>i\<close> of the input and writes element \<open>i\<close> of the output.\<close>

fun each_index ::
  "nat \<Rightarrow> nat \<Rightarrow> nat \<Rightarrow> (nat \<Rightarrow> bytes \<Rightarrow> bytes) \<Rightarrow> nat \<Rightarrow> nat \<Rightarrow> memory \<Rightarrow> memory outcome" where
  "each_index sz a b g i 0 mem = Return mem"
| "each_index sz a b g i (Suc k) mem =
     and_then (mem_read mem (a + sz * i) sz) (\<lambda>x.
     and_then (mem_write mem (b + sz * i) (g i x)) (each_index sz a b g (i + 1) k))"

definition buf_xor_in2out :: "memory \<Rightarrow> inout_buf \<Rightarrow> bytes \<Rightarrow> memory outcome" where
  "buf_xor_in2out mem self data =
     and_then (rust_assert (buf_len self = length data) Assert_Failed) (\<lambda>_.
       each_index 1 (buf_in self) (buf_out self) (\<lambda>i x. [hd x XOR data ! i]) 0 (length data) mem)"

definition buf_try_into :: "nat \<Rightarrow> inout_buf \<Rightarrow> (IntoArrayError, inout) result" where
  "buf_try_into n self =
     (if buf_len self = n then Ok \<lparr>in_ptr = buf_in self, out_ptr = buf_out self\<rparr> else Err IntoArrayError)"

record inout_buf_iter =
  iter_buf :: inout_buf
  iter_pos :: nat

definition buf_into_iter :: "inout_buf \<Rightarrow> inout_buf_iter" where
  "buf_into_iter self = \<lparr>iter_buf = self, iter_pos = 0\<rparr>"

definition buf_iter_next :: "nat \<Rightarrow> inout_buf_iter \<Rightarrow> (inout \<times> inout_buf_iter) option" where
  "buf_iter_next sz self =
     (if buf_len (iter_buf self) = iter_pos self then None
      else
        let res = \<lparr>in_ptr = buf_in (iter_buf self) + sz * iter_pos self,
                   out_ptr = buf_out (iter_buf self) + sz * iter_pos self\<rparr>
        in Some (res, self\<lparr>iter_pos := iter_pos self + 1\<rparr>))"

section \<open>InOutBufReserved\<close>

datatype OutIsTooSmallError = OutIsTooSmallError
datatype PadError = PadError

definition PadError_fmt :: "PadError \<Rightarrow> string" where
  "PadError_fmt self = ''Padding error''"

definition OutIsTooSmallError_fmt :: "OutIsTooSmallError \<Rightarrow> string" where
  "OutIsTooSmallError_fmt self = ''Output buffer is smaller than input''"

record inout_reserved =
  r_in :: nat
  r_out :: nat
  r_in_len :: nat
  r_out_len :: nat

definition reserved_from_mut_slice :: "nat \<Rightarrow> nat \<Rightarrow> nat \<Rightarrow> (OutIsTooSmallError, inout_reserved) result" where
  "reserved_from_mut_slice p len msg_len =
     (if msg_len > len then Err OutIsTooSmallError
      else Ok \<lparr>r_in = p, r_out = p, r_in_len = msg_len, r_out_len = len\<rparr>)"

definition reserved_from_raw :: "nat \<Rightarrow> nat \<Rightarrow> nat \<Rightarrow> nat \<Rightarrow> inout_reserved" where
  "reserved_from_raw i in_len o' out_len =
     \<lparr>r_in = i, r_out = o', r_in_len = in_len, r_out_len = out_len\<rparr>"

definition reserved_from_slices ::
  "nat \<Rightarrow> nat \<Rightarrow> nat \<Rightarrow> nat \<Rightarrow> (OutIsTooSmallError, inout_reserved) result" where
  "reserved_from_slices i in_len o' out_len =
     (if in_len > out_len then Err OutIsTooSmallError
      else Ok \<lparr>r_in = i, r_out = o', r_in_len = in_len, r_out_len = out_len\<rparr>)"

definition reserved_into_raw :: "inout_reserved \<Rightarrow> nat \<times> nat" where
  "reserved_into_raw self = (r_in self, r_out self)"

definition get_in_len :: "inout_reserved \<Rightarrow> nat" where
  "get_in_len self = r_in_len self"

definition get_out_len :: "inout_reserved \<Rightarrow> nat" where
  "get_out_len self = r_in_len self"

definition reserved_get_in :: "memory \<Rightarrow> inout_reserved \<Rightarrow> bytes outcome" where
  "reserved_get_in mem self = mem_read mem (r_in self) (r_in_len self)"

definition reserved_get_out :: "memory \<Rightarrow> inout_reserved \<Rightarrow> bytes outcome" where
  "reserved_get_out mem self = mem_read mem (r_out self) (r_out_len self)"

text \<open>
  \<open>PaddedInOutBuf\<close> owns the padded tail block \<open>tail_in\<close>; \<open>tail_out\<close> is the address it is to be written to.
\<close>

record padded_buf =
  p_blocks :: inout_buf
  p_tail_in :: bytes
  p_tail_out :: "nat option"

definition into_padded_blocks ::
  "padding \<Rightarrow> nat \<Rightarrow> memory \<Rightarrow> inout_reserved \<Rightarrow> (PadError, padded_buf) result outcome" where
  "into_padded_blocks P bs mem self =
     (let blocks_len = r_in_len self div bs;
          tail_len = r_in_len self - bs * blocks_len;
          blocks = buf_from_raw (r_in self) (r_out self) blocks_len;
          tail_in = replicate bs 0
      in if (pad_TYPE P = NoPadType \<or> pad_TYPE P = Ambiguous) \<and> tail_len = 0 then
           Return (Ok \<lparr>p_blocks = blocks, p_tail_in = tail_in, p_tail_out = None\<rparr>)
         else if pad_TYPE P = NoPadType then Return (Err PadError)
         else
           let blen = bs * blocks_len; res_len = blen + bs in
           if res_len > r_out_len self then Return (Err PadError)
           else
             and_then (mem_read mem (r_in self + blen) tail_len) (\<lambda>t.
             and_then (mem_write tail_in 0 t) (\<lambda>tail_in.
             and_then (pad P tail_in tail_len) (\<lambda>tail_in.
               Return (Ok \<lparr>p_blocks = blocks, p_tail_in = tail_in,
                           p_tail_out = Some (r_out self + blen)\<rparr>)))))"

definition get_blocks :: "padded_buf \<Rightarrow> inout_buf" where
  "get_blocks self = buf_reborrow (p_blocks self)"

text \<open>
  \<open>get_tail_block\<close> pairs the owned block with the output address; as the block is not in the
  shared memory, the result has its content in place of the input pointer.
\<close>

definition get_tail_block :: "padded_buf \<Rightarrow> (bytes \<times> nat) option" where
  "get_tail_block self =
     (case p_tail_out self of Some out_block \<Rightarrow> Some (p_tail_in self, out_block) | None \<Rightarrow> None)"

definition padded_into_out :: "nat \<Rightarrow> memory \<Rightarrow> padded_buf \<Rightarrow> bytes outcome" where
  "padded_into_out bs mem self =
     (let total_blocks = (if p_tail_out self \<noteq> None then buf_len (p_blocks self) + 1 else buf_len (p_blocks self));
          res_len = bs * total_blocks;
          (_, out) = buf_into_raw (p_blocks self)
      in mem_read mem out res_len)"

section \<open>Validity\<close>

text \<open>
  The promise behind the raw pointers: both regions lie in the memory and are either the same or do
  not overlap.
\<close>

definition regions_ok :: "memory \<Rightarrow> nat \<Rightarrow> nat \<Rightarrow> nat \<Rightarrow> bool" where
  "regions_ok mem a b n \<longleftrightarrow> a + n \<le> length mem \<and> b + n \<le> length mem \<and> (a = b \<or> a + n \<le> b \<or> b + n \<le> a)"

definition inout_valid :: "nat \<Rightarrow> memory \<Rightarrow> inout \<Rightarrow> bool" where
  "inout_valid sz mem self \<longleftrightarrow> regions_ok mem (in_ptr self) (out_ptr self) sz"

definition buf_valid :: "nat \<Rightarrow> memory \<Rightarrow> inout_buf \<Rightarrow> bool" where
  "buf_valid sz mem self \<longleftrightarrow> regions_ok mem (buf_in self) (buf_out self) (sz * buf_len self)"

text \<open>Parts of valid regions, at the same offset on both sides, are valid.\<close>

lemma regions_ok_part:
  assumes "regions_ok mem a b n" "k + m \<le> n"
  shows "regions_ok mem (a + k) (b + k) m"
  using assms by (auto simp: regions_ok_def)

lemma element_in_range:
  fixes pos len sz :: nat
  assumes "pos < len"
  shows "sz * pos + sz \<le> sz * len"
proof -
  have "sz * Suc pos \<le> sz * len" using assms by (intro mult_le_mono2) simp
  then show ?thesis by simp
qed

lemma buf_get_valid:
  assumes "buf_valid sz mem self" "pos < buf_len self"
  shows "\<exists>e. buf_get sz self pos = Return e \<and> inout_valid sz mem e"
  using assms regions_ok_part [OF _ element_in_range [OF assms(2)], of mem "buf_in self" "buf_out self"]
  by (simp add: buf_get_def buf_valid_def inout_valid_def)

section \<open>Loops over aliased memory\<close>

lemma overwrite_append:
  assumes "b + length x + length y \<le> length mem"
  shows "overwrite (overwrite mem b x) (b + length x) y = overwrite mem b (x @ y)"
proof (rule nth_equalityI)
  fix i assume "i < length (overwrite (overwrite mem b x) (b + length x) y)"
  then show "overwrite (overwrite mem b x) (b + length x) y ! i = overwrite mem b (x @ y) ! i"
    using assms by (auto simp: overwrite_nth nth_append)
qed (use assms in simp)

lemma read_overwrite_other:
  assumes "b + length x \<le> length mem" "p + n \<le> length mem" "p + n \<le> b \<or> b + length x \<le> p"
  shows "take n (drop p (overwrite mem b x)) = take n (drop p mem)"
proof (rule nth_equalityI)
  fix i assume "i < length (take n (drop p (overwrite mem b x)))"
  then show "take n (drop p (overwrite mem b x)) ! i = take n (drop p mem) ! i"
    using assms by (auto simp: overwrite_nth)
qed (use assms in simp)

lemma read_overwrite_same:
  "b + length x \<le> length mem \<Longrightarrow> take (length x) (drop b (overwrite mem b x)) = x"
  by (simp add: overwrite_def)

text \<open>
  The loop computes from the original input, although it may overwrite it as it goes: what round
  \<open>i\<close> reads has not been written by the rounds before.
\<close>

definition each_result :: "nat \<Rightarrow> memory \<Rightarrow> nat \<Rightarrow> (nat \<Rightarrow> bytes \<Rightarrow> bytes) \<Rightarrow> nat \<Rightarrow> bytes" where
  "each_result sz mem a g k = concat (map (\<lambda>i. g i (take sz (drop (a + sz * i) mem))) [0..<k])"

lemma length_each_result:
  assumes "\<And>i x. length x = sz \<Longrightarrow> length (g i x) = sz" "a + sz * k \<le> length mem"
  shows "length (each_result sz mem a g k) = sz * k"
  using assms(2)
proof (induction k)
  case (Suc k)
  then have "length (take sz (drop (a + sz * k) mem)) = sz" by simp
  then have "length (g k (take sz (drop (a + sz * k) mem))) = sz" by (rule assms(1))
  with Suc show ?case by (simp add: each_result_def)
qed (simp add: each_result_def)

lemma each_index_from:
  assumes g: "\<And>i x. length x = sz \<Longrightarrow> length (g i x) = sz"
    and ok: "regions_ok mem a b (sz * (i + k))"
  shows "each_index sz a b g i k (overwrite mem b (each_result sz mem a g i)) =
           Return (overwrite mem b (each_result sz mem a g (i + k)))"
  using ok
proof (induction k arbitrary: i)
  case (Suc k)
  let ?X = "each_result sz mem a g i" and ?x = "take sz (drop (a + sz * i) mem)"
  have bounds: "a + sz * i + sz \<le> length mem" "b + sz * i + sz \<le> length mem"
      "a = b \<or> a + sz * i + sz \<le> b \<or> b + sz * i \<le> a"
  proof -
    have "sz * (i + Suc k) = sz * i + sz + sz * k" by (simp add: algebra_simps)
    then show "a + sz * i + sz \<le> length mem" "b + sz * i + sz \<le> length mem"
        "a = b \<or> a + sz * i + sz \<le> b \<or> b + sz * i \<le> a"
      using Suc.prems unfolding regions_ok_def by auto
  qed
  have "a + sz * i \<le> length mem" using bounds(1) by linarith
  then have X: "length ?X = sz * i" using length_each_result [of sz g a i mem] g by blast
  have x: "length (g i ?x) = sz" using bounds(1) by (intro g) simp
  have "take sz (drop (a + sz * i) (overwrite mem b ?X)) = ?x"
    using bounds X by (intro read_overwrite_other) auto
  moreover have "length (overwrite mem b ?X) = length mem" using bounds X by simp
  ultimately have "mem_read (overwrite mem b ?X) (a + sz * i) sz = Return ?x"
      "mem_write (overwrite mem b ?X) (b + sz * i) (g i ?x) = Return (overwrite mem b (?X @ g i ?x))"
    using bounds X x overwrite_append [of b ?X "g i ?x" mem] by (simp_all add: mem_read_def mem_write_def)
  moreover have "?X @ g i ?x = each_result sz mem a g (i + 1)" by (simp add: each_result_def)
  ultimately show ?case using Suc.IH [of "i + 1"] Suc.prems by simp
qed simp

lemma each_index_correct:
  assumes "\<And>i x. length x = sz \<Longrightarrow> length (g i x) = sz" "regions_ok mem a b (sz * k)"
  shows "each_index sz a b g 0 k mem = Return (overwrite mem b (each_result sz mem a g k))"
  using each_index_from [of sz g mem a b 0 k] assms by (simp add: each_result_def overwrite_def)

lemma each_result_bytes:
  assumes "a + k \<le> length mem" "length data = k"
  shows "each_result 1 mem a (\<lambda>i x. [hd x XOR data ! i]) k = map2 (XOR) (take k (drop a mem)) data"
proof (rule nth_equalityI)
  let ?r = "each_result 1 mem a (\<lambda>i x. [hd x XOR data ! i]) k"
  have r: "?r = map (\<lambda>i. mem ! (a + i) XOR data ! i) [0..<k]"
  proof -
    have "hd (take (Suc 0) (drop (a + i) mem)) = mem ! (a + i)" if "i < k" for i
      using that assms(1) by (simp add: hd_drop_conv_nth take_Suc)
    then have "map (\<lambda>i. [hd (take (Suc 0) (drop (a + i) mem)) XOR data ! i]) [0..<k] =
        map (\<lambda>i. [mem ! (a + i) XOR data ! i]) [0..<k]" by simp
    then show ?thesis by (simp add: each_result_def)
  qed
  then show "length ?r = length (map2 (XOR) (take k (drop a mem)) data)" using assms by simp
  fix i assume "i < length ?r"
  then show "?r ! i = map2 (XOR) (take k (drop a mem)) data ! i" using r assms by simp
qed

lemma buf_xor_eq:
  assumes "buf_valid 1 mem self" "buf_len self = length data"
  shows "buf_xor_in2out mem self data =
    Return (overwrite mem (buf_out self) (map2 (XOR) (take (length data) (drop (buf_in self) mem)) data))"
  using assms each_index_correct [of 1 "\<lambda>i x. [hd x XOR data ! i]" mem "buf_in self" "buf_out self" "length data"]
    each_result_bytes [of "buf_in self" "length data" mem data]
  by (auto simp: buf_xor_in2out_def buf_valid_def regions_ok_def)

lemma xor_temp_loop:
  assumes "length input = i + k" "length data = i + k"
  shows "xor_temp input data i k (map2 (XOR) (take i input) (take i data) @ replicate k 0) = map2 (XOR) input data"
  using assms
proof (induction k arbitrary: i)
  case (Suc k)
  have "(map2 (XOR) (take i input) (take i data) @ replicate (Suc k) 0)[i := input ! i XOR data ! i] =
      map2 (XOR) (take (i + 1) input) (take (i + 1) data) @ replicate k 0"
    using Suc.prems by (simp add: list_update_append take_Suc_conv_app_nth)
  then show ?case using Suc.IH [of "i + 1"] Suc.prems by simp
qed simp

lemma xor_temp_eq:
  "length input = n \<Longrightarrow> length data = n \<Longrightarrow> xor_temp input data 0 n (replicate n 0) = map2 (XOR) input data"
  using xor_temp_loop [of input 0 n data] by simp

lemma xor_temp2_loop:
  assumes "length input = i + k" "length data = i + k"
    and "\<forall>b \<in> set input. length b = n" "\<forall>b \<in> set data. length b = n"
  shows "xor_temp2 n input data i k (map2 (map2 (XOR)) (take i input) (take i data) @ replicate k (replicate n 0)) =
           map2 (map2 (XOR)) input data"
  using assms(1,2)
proof (induction k arbitrary: i)
  case (Suc k)
  have "xor_temp (input ! i) (data ! i) 0 n (replicate n 0) = map2 (XOR) (input ! i) (data ! i)"
    using Suc.prems assms(3,4) by (intro xor_temp_eq) auto
  then have "(map2 (map2 (XOR)) (take i input) (take i data) @ replicate (Suc k) (replicate n 0))
        [i := xor_temp (input ! i) (data ! i) 0 n
          ((map2 (map2 (XOR)) (take i input) (take i data) @ replicate (Suc k) (replicate n 0)) ! i)] =
      map2 (map2 (XOR)) (take (i + 1) input) (take (i + 1) data) @ replicate k (replicate n 0)"
    using Suc.prems by (simp add: list_update_append take_Suc_conv_app_nth nth_append)
  then show ?case using Suc.IH [of "i + 1"] Suc.prems by simp
qed simp

lemma concat_map2_xor:
  assumes "length xs = length ys" "\<forall>b \<in> set xs. length b = n" "\<forall>b \<in> set ys. length b = n"
  shows "concat (map2 (map2 (XOR)) xs ys) = map2 (XOR) (concat xs) (concat ys :: bytes)"
  using assms by (induction xs ys rule: list_induct2) auto

section \<open>Sequences of calls\<close>

text \<open>
  The items an iterator yields, at most \<open>k\<close> of them, and a client that writes a function of each
  input element to the output element.
\<close>

fun iter_take :: "nat \<Rightarrow> nat \<Rightarrow> inout_buf_iter \<Rightarrow> inout list" where
  "iter_take sz 0 it = []"
| "iter_take sz (Suc k) it =
     (case buf_iter_next sz it of None \<Rightarrow> [] | Some (x, it') \<Rightarrow> x # iter_take sz k it')"

fun process_items :: "(bytes \<Rightarrow> bytes) \<Rightarrow> nat \<Rightarrow> inout list \<Rightarrow> memory \<Rightarrow> memory outcome" where
  "process_items f sz [] mem = Return mem"
| "process_items f sz (e # es) mem =
     and_then (inout_get_in sz mem e) (\<lambda>x.
     and_then (inout_set_out mem e (f x)) (process_items f sz es))"

definition buf_items :: "nat \<Rightarrow> inout_buf \<Rightarrow> inout list" where
  "buf_items sz self = iter_take sz (buf_len self) (buf_into_iter self)"

definition element_at :: "nat \<Rightarrow> inout_buf \<Rightarrow> nat \<Rightarrow> inout" where
  "element_at sz self i = \<lparr>in_ptr = buf_in self + sz * i, out_ptr = buf_out self + sz * i\<rparr>"

lemma iter_take_from:
  assumes "buf_len self = i + n" "n \<le> k"
  shows "iter_take sz k \<lparr>iter_buf = self, iter_pos = i\<rparr> = map (element_at sz self) [i..<buf_len self]"
  using assms
proof (induction n arbitrary: i k)
  case 0
  then show ?case by (cases k) (auto simp: buf_iter_next_def)
next
  case (Suc n)
  then obtain j where "k = Suc j" by (cases k) auto
  with Suc.IH [of "i + 1" j] Suc.prems show ?case
    by (simp add: buf_iter_next_def element_at_def upt_conv_Cons)
qed

lemma iter_take_all:
  "buf_len self \<le> k \<Longrightarrow> iter_take sz k (buf_into_iter self) = map (element_at sz self) [0..<buf_len self]"
  using iter_take_from [of self 0 "buf_len self" k sz] by (simp add: buf_into_iter_def)

lemma buf_items_eq: "buf_items sz self = map (element_at sz self) [0..<buf_len self]"
  by (simp add: buf_items_def iter_take_all)

lemma process_items_each:
  "process_items f sz (map (element_at sz self) [i..<i + k]) mem =
     each_index sz (buf_in self) (buf_out self) (\<lambda>_. f) i k mem"
proof (induction k arbitrary: i mem)
  case (Suc k)
  have "[i..<i + Suc k] = i # [i + 1..<(i + 1) + k]" by (simp add: upt_conv_Cons)
  moreover have "process_items f sz (map (element_at sz self) [i + 1..<(i + 1) + k]) =
      each_index sz (buf_in self) (buf_out self) (\<lambda>_. f) (i + 1) k"
    by (rule ext) (rule Suc.IH)
  ultimately show ?case
    by (simp add: element_at_def [of sz self i] inout_get_in_def inout_set_out_def del: upt_Suc)
qed simp

lemma each_result_chunks:
  assumes "a + sz * k \<le> length mem"
  shows "each_result sz mem a (\<lambda>_. f) k = concat (map f (chunks_of sz k (take (sz * k) (drop a mem))))"
proof -
  have "take sz (drop (a + sz * i) mem) = chunks_of sz k (take (sz * k) (drop a mem)) ! i" if "i < k" for i
  proof -
    have "sz * i + sz \<le> sz * k" using that by (rule element_in_range)
    then have "take sz (drop (i * sz) (take (sz * k) (drop a mem))) = take sz (drop (a + sz * i) mem)"
      by (simp add: drop_take min_def add.commute mult.commute)
    then show ?thesis using that by (simp add: chunks_of_nth)
  qed
  then have "map (\<lambda>i. f (take sz (drop (a + sz * i) mem))) [0..<k] =
      map (\<lambda>i. f (chunks_of sz k (take (sz * k) (drop a mem)) ! i)) [0..<k]" by simp
  also have "\<dots> = map f (chunks_of sz k (take (sz * k) (drop a mem)))"
    by (rule nth_equalityI) simp_all
  finally show ?thesis by (simp add: each_result_def)
qed

lemma process_buf:
  assumes "buf_valid sz mem self" "\<And>x. length x = sz \<Longrightarrow> length (f x) = sz"
  shows "process_items f sz (buf_items sz self) mem =
           Return (overwrite mem (buf_out self)
             (concat (map f (chunks_of sz (buf_len self) (take (sz * buf_len self) (drop (buf_in self) mem))))))"
proof -
  have ok: "regions_ok mem (buf_in self) (buf_out self) (sz * buf_len self)" using assms(1) by (simp add: buf_valid_def)
  then have "buf_in self + sz * buf_len self \<le> length mem" by (simp add: regions_ok_def)
  then show ?thesis
    using process_items_each [of f sz self 0 "buf_len self" mem] each_index_correct [OF _ ok, of "\<lambda>_. f"] assms(2)
    by (simp add: buf_items_eq each_result_chunks)
qed

section \<open>Padded messages\<close>

definition reserved_valid :: "memory \<Rightarrow> inout_reserved \<Rightarrow> bool" where
  "reserved_valid mem self \<longleftrightarrow>
     r_in_len self \<le> r_out_len self \<and> r_in self + r_in_len self \<le> length mem \<and>
     r_out self + r_out_len self \<le> length mem \<and>
     (r_in self = r_out self \<or> r_in self + r_in_len self \<le> r_out self \<or> r_out self + r_out_len self \<le> r_in self)"

text \<open>
  A client that pads a message and transforms every block with \<open>f\<close>, writing to the output: the full
  blocks through the iterator, then the tail block.
\<close>

definition process_padded ::
  "(bytes \<Rightarrow> bytes) \<Rightarrow> padding \<Rightarrow> nat \<Rightarrow> memory \<Rightarrow> inout_reserved
     \<Rightarrow> (PadError, bytes \<times> memory) result outcome" where
  "process_padded f P bs mem self =
     and_then (into_padded_blocks P bs mem self) (\<lambda>r.
       case r of
         Err e \<Rightarrow> Return (Err e)
       | Ok p \<Rightarrow>
           and_then (process_items f bs (buf_items bs (get_blocks p)) mem) (\<lambda>mem.
           and_then
             (case get_tail_block p of
                None \<Rightarrow> Return mem
              | Some (tail_in, tail_out) \<Rightarrow> mem_write mem tail_out (f tail_in))
             (\<lambda>mem. and_then (padded_into_out bs mem p) (\<lambda>out. Return (Ok (out, mem))))))"

lemma into_padded_reversible:
  assumes "reserved_valid mem self" "pad_TYPE P = Reversible" "0 < bs" "bs \<le> 255 \<or> P = Iso7816"
    and msg: "msg = take (r_in_len self) (drop (r_in self) mem)" and nb: "nb = length msg div bs"
  shows "if bs * nb + bs \<le> r_out_len self
         then \<exists>tail0 tail. length tail0 = bs \<and> take (length msg - bs * nb) tail0 = drop (bs * nb) msg \<and>
           pad P tail0 (length msg - bs * nb) = Return tail \<and>
           into_padded_blocks P bs mem self =
             Return (Ok \<lparr>p_blocks = \<lparr>buf_in = r_in self, buf_out = r_out self, buf_len = nb\<rparr>,
                         p_tail_in = tail, p_tail_out = Some (r_out self + bs * nb)\<rparr>)
         else into_padded_blocks P bs mem self = Return (Err PadError)"
proof (cases "bs * nb + bs \<le> r_out_len self")
  case True
  let ?k = "length msg - bs * nb"
  have lm: "length msg = r_in_len self" "r_in self + length msg \<le> length mem"
    using assms(1) msg by (auto simp: reserved_valid_def)
  have k: "?k < bs" "bs * nb \<le> length msg"
    using assms(3) by (simp_all add: nb minus_mult_div_eq_mod)
  define tail0 where "tail0 = drop (bs * nb) msg @ replicate (bs - ?k) 0"
  have t0: "length tail0 = bs" "take ?k tail0 = drop (bs * nb) msg" using k by (simp_all add: tail0_def)
  obtain tail where tail: "pad P tail0 ?k = Return tail"
    using assms(2,4) k(1) t0(1) by (cases P) (auto simp: pad_Return)
  have rd: "mem_read mem (r_in self + bs * nb) ?k = Return (drop (bs * nb) msg)"
  proof -
    have "r_in self + bs * nb + ?k \<le> length mem" using lm(2) k(2) by linarith
    moreover have "take ?k (drop (r_in self + bs * nb) mem) = drop (bs * nb) msg"
      using k(2) lm(1) by (simp add: msg drop_take add.commute)
    ultimately show ?thesis unfolding mem_read_def by simp
  qed
  have wr: "mem_write (replicate bs 0) 0 (drop (bs * nb) msg) = Return tail0"
    using k by (simp add: mem_write_def overwrite_def tail0_def)
  have "into_padded_blocks P bs mem self =
      Return (Ok \<lparr>p_blocks = \<lparr>buf_in = r_in self, buf_out = r_out self, buf_len = nb\<rparr>,
                  p_tail_in = tail, p_tail_out = Some (r_out self + bs * nb)\<rparr>)"
    using assms(2) True rd wr tail nb unfolding lm(1)
    by (simp add: into_padded_blocks_def Let_def buf_from_raw_def)
  then show ?thesis using True t0 tail by auto
next
  case False
  have "length msg = r_in_len self" using assms(1) msg by (auto simp: reserved_valid_def)
  with False show ?thesis using assms(2) nb by (simp add: into_padded_blocks_def Let_def)
qed

text \<open>The whole blocks of a message, processed one by one.\<close>

lemma chunks_of_take:
  assumes "nb * bs \<le> length msg"
  shows "chunks_of bs nb (take (bs * nb) msg) = chunks_of bs nb msg"
proof -
  have "chunks_of bs (length (chunks_of bs nb msg)) (concat (chunks_of bs nb msg) @ []) = chunks_of bs nb msg"
    by (rule chunks_of_concat) (rule chunks_of_block_length [OF assms])
  then show ?thesis using concat_chunks_of [OF assms] by (simp add: mult.commute)
qed

lemma length_mapped_chunks:
  assumes "nb * bs \<le> length msg" and f: "\<And>x. length x = bs \<Longrightarrow> length (f x) = bs"
  shows "length (concat (map f (chunks_of bs nb msg))) = bs * nb"
proof -
  have "\<And>y. y \<in> set (map f (chunks_of bs nb msg)) \<Longrightarrow> length y = bs"
    using chunks_of_block_length [OF assms(1)] f by auto
  then have "length (concat (map f (chunks_of bs nb msg))) = length (map f (chunks_of bs nb msg)) * bs"
    by (rule concat_all_length)
  then show ?thesis by (simp add: mult.commute)
qed

lemma process_padded_output:
  assumes valid: "reserved_valid mem self" and P: "pad_TYPE P = Reversible" "0 < bs" "bs \<le> 255 \<or> P = Iso7816"
    and f: "\<And>x. length x = bs \<Longrightarrow> length (f x) = bs"
    and msg: "msg = take (r_in_len self) (drop (r_in self) mem)" and nb: "nb = length msg div bs"
    and room: "bs * nb + bs \<le> r_out_len self"
  shows "\<exists>tail0 tail out. length tail0 = bs \<and> take (length msg - bs * nb) tail0 = drop (bs * nb) msg \<and>
           pad P tail0 (length msg - bs * nb) = Return tail \<and>
           out = concat (map f (chunks_of bs nb msg @ [tail])) \<and> length out = bs * nb + bs \<and>
           process_padded f P bs mem self = Return (Ok (out, overwrite mem (r_out self) out))"
proof -
  obtain tail0 tail where t: "length tail0 = bs" "take (length msg - bs * nb) tail0 = drop (bs * nb) msg"
      "pad P tail0 (length msg - bs * nb) = Return tail" and p: "into_padded_blocks P bs mem self =
        Return (Ok \<lparr>p_blocks = \<lparr>buf_in = r_in self, buf_out = r_out self, buf_len = nb\<rparr>,
                    p_tail_in = tail, p_tail_out = Some (r_out self + bs * nb)\<rparr>)"
    using into_padded_reversible [OF valid P msg nb] room by auto
  let ?b = "\<lparr>buf_in = r_in self, buf_out = r_out self, buf_len = nb\<rparr>"
  have lm: "length msg = r_in_len self" using valid msg by (auto simp: reserved_valid_def)
  have le: "bs * nb \<le> length msg" by (simp add: nb)
  have bv: "buf_valid bs mem ?b"
    using valid room le lm by (auto simp: buf_valid_def regions_ok_def reserved_valid_def)
  have "take (bs * nb) (drop (r_in self) mem) = take (bs * nb) msg" using le lm by (simp add: msg min_def)
  then have proc: "process_items f bs (buf_items bs ?b) mem =
      Return (overwrite mem (r_out self) (concat (map f (chunks_of bs nb msg))))"
    using process_buf [OF bv f] chunks_of_take [of nb bs msg] le by (simp add: mult.commute)
  define x where "x = concat (map f (chunks_of bs nb msg))"
  have lx: "length x = bs * nb"
    unfolding x_def using le by (intro length_mapped_chunks f) (simp_all add: mult.commute)
  have "length tail = bs" using padding_scheme.pad_length [OF every_scheme t(3)] t(1) by simp
  then have lt: "length (f tail) = bs" by (rule f)
  have fits: "r_out self + (bs * nb + bs) \<le> length mem" using valid room by (auto simp: reserved_valid_def)
  then have "mem_write (overwrite mem (r_out self) x) (r_out self + bs * nb) (f tail) =
      Return (overwrite mem (r_out self) (x @ f tail))"
    using overwrite_append [of "r_out self" x "f tail" mem] lx lt by (simp add: mem_write_def)
  moreover have "mem_read (overwrite mem (r_out self) (x @ f tail)) (r_out self) (bs * nb + bs) = Return (x @ f tail)"
    using fits lx lt read_overwrite_same [of "r_out self" "x @ f tail" mem] by (simp add: mem_read_def)
  ultimately have "process_padded f P bs mem self =
      Return (Ok (x @ f tail, overwrite mem (r_out self) (x @ f tail)))"
    using p proc by (simp add: process_padded_def get_blocks_def buf_reborrow_def get_tail_block_def
        padded_into_out_def buf_into_raw_def x_def [symmetric] add.commute)
  then show ?thesis
    using t lx lt by (intro exI [of _ tail0] exI [of _ tail] exI [of _ "x @ f tail"]) (simp add: x_def)
qed

section \<open>Properties\<close>

text \<open>
  (C15) \<open>xor_in2out\<close> is correct in place and between buffers.  On a valid buffer, whose input and output are the
  same region or do not overlap, the output region becomes the byte-wise exclusive or of
  the original input with \<open>data\<close> and no other byte of memory changes, for \<open>InOutBuf<u8>\<close>, for arrays and for
  arrays of arrays; \<open>InOutBuf\<close> panics before any write if the lengths differ.
\<close>

theorem xor_in2out_correct:
  assumes "buf_valid 1 mem self" and "inout_valid n mem e" and "length data = n"
    and "inout_valid (m * n) mem e2" and "length data2 = m" and "\<forall>d \<in> set data2. length d = n"
  shows "(if buf_len self = n
          then buf_xor_in2out mem self data =
                 Return (overwrite mem (buf_out self) (map2 (XOR) (take n (drop (buf_in self) mem)) data))
          else buf_xor_in2out mem self data = Panic Assert_Failed) \<and>
         inout_xor_in2out n mem e data =
           Return (overwrite mem (out_ptr e) (map2 (XOR) (take n (drop (in_ptr e) mem)) data)) \<and>
         inout_xor_in2out2 n m mem e2 data2 =
           Return (overwrite mem (out_ptr e2) (map2 (XOR) (take (m * n) (drop (in_ptr e2) mem)) (concat data2)))"
proof (intro conjI)
  show "if buf_len self = n
        then buf_xor_in2out mem self data =
               Return (overwrite mem (buf_out self) (map2 (XOR) (take n (drop (buf_in self) mem)) data))
        else buf_xor_in2out mem self data = Panic Assert_Failed"
    using buf_xor_eq [OF assms(1), of data] assms(3) by (auto simp: buf_xor_in2out_def)
  show "inout_xor_in2out n mem e data =
      Return (overwrite mem (out_ptr e) (map2 (XOR) (take n (drop (in_ptr e) mem)) data))"
  proof -
    have ok: "in_ptr e + n \<le> length mem" "out_ptr e + n \<le> length mem"
      using assms(2) by (auto simp: inout_valid_def regions_ok_def)
    then have "length (take n (drop (in_ptr e) mem)) = n" by simp
    then show ?thesis
      using ok assms(3) xor_temp_eq [of "take n (drop (in_ptr e) mem)" n data]
      by (simp add: inout_xor_in2out_def mem_read_def mem_write_def)
  qed
  define x where "x = take (m * n) (drop (in_ptr e2) mem)"
  have ok: "in_ptr e2 + m * n \<le> length mem" "out_ptr e2 + m * n \<le> length mem"
    using assms(4) by (auto simp: inout_valid_def regions_ok_def)
  then have len: "length x = m * n" by (simp add: x_def)
  have "m * n \<le> length x" using len by simp
  note chunks = concat_chunks_of [OF this] chunks_of_block_length [OF this]
  have temp: "concat (xor_temp2 n (chunks_of n m x) data2 0 m (replicate m (replicate n 0))) = map2 (XOR) x (concat data2)"
    using xor_temp2_loop [of "chunks_of n m x" 0 m data2 n] concat_map2_xor [of "chunks_of n m x" data2 n]
      chunks len assms(5,6) by simp
  have "length (concat data2) = m * n" using concat_all_length [of data2 n] assms(5,6) by simp
  then have "length (map2 (XOR) x (concat data2)) = m * n" using len by simp
  then have "inout_xor_in2out2 n m mem e2 data2 = Return (overwrite mem (out_ptr e2) (map2 (XOR) x (concat data2)))"
    unfolding inout_xor_in2out2_def mem_read_def mem_write_def Let_def x_def [symmetric] using ok temp by simp
  then show "inout_xor_in2out2 n m mem e2 data2 =
      Return (overwrite mem (out_ptr e2) (map2 (XOR) (take (m * n) (drop (in_ptr e2) mem)) (concat data2)))"
    unfolding x_def .
qed

theorem xor_in2out_correct_witness:
  "(if buf_len \<lparr>buf_in = 0, buf_out = 0, buf_len = 2\<rparr> = 2
    then buf_xor_in2out [1, 2, 3, 4] \<lparr>buf_in = 0, buf_out = 0, buf_len = 2\<rparr> [5, 6] =
           Return (overwrite [1, 2, 3, 4] 0 (map2 (XOR) (take 2 (drop 0 [1, 2, 3, 4])) [5, 6]))
    else buf_xor_in2out [1, 2, 3, 4] \<lparr>buf_in = 0, buf_out = 0, buf_len = 2\<rparr> [5, 6] = Panic Assert_Failed) \<and>
   inout_xor_in2out 2 [1, 2, 3, 4] \<lparr>in_ptr = 0, out_ptr = 2\<rparr> [5, 6] =
     Return (overwrite [1, 2, 3, 4] 2 (map2 (XOR) (take 2 (drop 0 [1, 2, 3, 4])) [5, 6])) \<and>
   inout_xor_in2out2 2 2 [1, 2, 3, 4] \<lparr>in_ptr = 0, out_ptr = 0\<rparr> [[5, 6], [7, 8]] =
     Return (overwrite [1, 2, 3, 4] 0 (map2 (XOR) (take (2 * 2) (drop 0 [1, 2, 3, 4])) (concat [[5, 6], [7, 8]])))"
  using xor_in2out_correct [of "[1, 2, 3, 4]" "\<lparr>buf_in = 0, buf_out = 0, buf_len = 2\<rparr>" 2 "\<lparr>in_ptr = 0, out_ptr = 2\<rparr>"
      "[5, 6]" 2 "\<lparr>in_ptr = 0, out_ptr = 0\<rparr>" "[[5, 6], [7, 8]]"]
  by (simp add: buf_valid_def inout_valid_def regions_ok_def)

text \<open>
  Splitting a buffer neither loses nor repeats an element.  On a valid buffer \<open>split_at\<close> and \<open>into_chunks\<close>
  return valid buffers whose inputs, and outputs, concatenate to the whole, the tail of
  \<open>into_chunks\<close> is shorter than a chunk, and \<open>split_at\<close> panics exactly if \<open>mid\<close> exceeds the length.
\<close>

theorem buf_split_partitions:
  assumes "buf_valid sz mem self" and "0 < n" and "into_chunks sz n self = (c, t)"
  shows "(if mid \<le> buf_len self
          then \<exists>l r. buf_split_at sz self mid = Return (l, r) \<and> buf_valid sz mem l \<and> buf_valid sz mem r \<and>
            (\<exists>x y. buf_get_in sz mem l = Return x \<and> buf_get_in sz mem r = Return y \<and>
               buf_get_in sz mem self = Return (x @ y)) \<and>
            (\<exists>x y. buf_get_out sz mem l = Return x \<and> buf_get_out sz mem r = Return y \<and>
               buf_get_out sz mem self = Return (x @ y))
          else buf_split_at sz self mid = Panic Assert_Failed) \<and>
         buf_valid (sz * n) mem c \<and> buf_valid sz mem t \<and> buf_len t < n \<and>
         (\<exists>x y. buf_get_in (sz * n) mem c = Return x \<and> buf_get_in sz mem t = Return y \<and>
            buf_get_in sz mem self = Return (x @ y)) \<and>
         (\<exists>x y. buf_get_out (sz * n) mem c = Return x \<and> buf_get_out sz mem t = Return y \<and>
            buf_get_out sz mem self = Return (x @ y))"
proof -
  let ?len = "buf_len self" and ?a = "buf_in self" and ?b = "buf_out self"
  have ok: "regions_ok mem ?a ?b (sz * ?len)" using assms(1) by (simp add: buf_valid_def)
  have parts: "regions_ok mem ?a ?b k \<and> regions_ok mem (?a + k) (?b + k) (sz * ?len - k) \<and>
      (\<exists>x y. mem_read mem ?a k = Return x \<and> mem_read mem (?a + k) (sz * ?len - k) = Return y \<and>
         mem_read mem ?a (sz * ?len) = Return (x @ y)) \<and>
      (\<exists>x y. mem_read mem ?b k = Return x \<and> mem_read mem (?b + k) (sz * ?len - k) = Return y \<and>
         mem_read mem ?b (sz * ?len) = Return (x @ y))" if "k \<le> sz * ?len" for k
    using ok that regions_ok_part [OF ok, of 0 k] regions_ok_part [OF ok, of k "sz * ?len - k"]
      take_add [of k "sz * ?len - k" "drop ?a mem"] take_add [of k "sz * ?len - k" "drop ?b mem"]
    by (simp add: regions_ok_def mem_read_def add.commute)
  define q where "q = ?len div n"
  have nq: "n * q \<le> ?len" "?len - n * q = ?len mod n" by (simp_all add: q_def minus_mult_div_eq_mod)
  have c: "c = \<lparr>buf_in = ?a, buf_out = ?b, buf_len = q\<rparr>"
      "t = \<lparr>buf_in = ?a + sz * (n * q), buf_out = ?b + sz * (n * q), buf_len = ?len - n * q\<rparr>"
    using assms(3) by (auto simp: into_chunks_def Let_def q_def)
  have len: "sz * (?len - m) = sz * ?len - sz * m" for m by (simp add: diff_mult_distrib2)
  have lt: "?len - n * q < n" unfolding nq(2) using assms(2) by simp
  have "sz * mid \<le> sz * ?len" if "mid \<le> ?len" using that by simp
  moreover have "sz * (n * q) \<le> sz * ?len" using nq(1) by (rule mult_le_mono2)
  ultimately show ?thesis
    using parts [of "sz * mid"] parts [of "sz * (n * q)"] lt
    unfolding c
    by (simp add: buf_split_at_def buf_valid_def buf_get_in_def buf_get_out_def len mult.assoc)
qed

theorem buf_split_partitions_witness:
  "(if 2 \<le> buf_len \<lparr>buf_in = 0, buf_out = 0, buf_len = 5\<rparr>
    then \<exists>l r. buf_split_at 1 \<lparr>buf_in = 0, buf_out = 0, buf_len = 5\<rparr> 2 = Return (l, r) \<and>
      buf_valid 1 [1, 2, 3, 4, 5] l \<and> buf_valid 1 [1, 2, 3, 4, 5] r \<and>
      (\<exists>x y. buf_get_in 1 [1, 2, 3, 4, 5] l = Return x \<and> buf_get_in 1 [1, 2, 3, 4, 5] r = Return y \<and>
         buf_get_in 1 [1, 2, 3, 4, 5] \<lparr>buf_in = 0, buf_out = 0, buf_len = 5\<rparr> = Return (x @ y)) \<and>
      (\<exists>x y. buf_get_out 1 [1, 2, 3, 4, 5] l = Return x \<and> buf_get_out 1 [1, 2, 3, 4, 5] r = Return y \<and>
         buf_get_out 1 [1, 2, 3, 4, 5] \<lparr>buf_in = 0, buf_out = 0, buf_len = 5\<rparr> = Return (x @ y))
    else buf_split_at 1 \<lparr>buf_in = 0, buf_out = 0, buf_len = 5\<rparr> 2 = Panic Assert_Failed)"
  using buf_split_partitions [of 1 "[1, 2, 3, 4, 5]" "\<lparr>buf_in = 0, buf_out = 0, buf_len = 5\<rparr>" 2
      "\<lparr>buf_in = 0, buf_out = 0, buf_len = 2\<rparr>" "\<lparr>buf_in = 4, buf_out = 4, buf_len = 1\<rparr>" 2]
  by (simp add: buf_valid_def regions_ok_def into_chunks_def Let_def)

text \<open>
  Iterating visits every element once, in order: the items of the iterator are those \<open>get\<close> returns for
  the positions \<open>0..len\<close>, each a valid reference, and no further item comes, however often
  \<open>next\<close> is called.
\<close>

theorem buf_iteration_complete:
  assumes "buf_valid sz mem self" and "buf_len self \<le> k"
  shows "map Return (iter_take sz k (buf_into_iter self)) = map (buf_get sz self) [0..<buf_len self] \<and>
         (\<forall>e \<in> set (iter_take sz k (buf_into_iter self)). inout_valid sz mem e)"
proof -
  have get: "buf_get sz self i = Return (element_at sz self i)" if "i < buf_len self" for i
    using that by (simp add: buf_get_def element_at_def)
  then have "inout_valid sz mem (element_at sz self i)" if "i < buf_len self" for i
    using buf_get_valid [OF assms(1) that] that by simp
  then show ?thesis using get by (auto simp: iter_take_all [OF assms(2)])
qed

theorem buf_iteration_complete_witness:
  "map Return (iter_take 2 9 (buf_into_iter \<lparr>buf_in = 0, buf_out = 4, buf_len = 2\<rparr>)) =
     map (buf_get 2 \<lparr>buf_in = 0, buf_out = 4, buf_len = 2\<rparr>) [0..<buf_len \<lparr>buf_in = 0, buf_out = 4, buf_len = 2\<rparr>] \<and>
   list_all (inout_valid 2 (replicate 8 0)) (iter_take 2 9 (buf_into_iter \<lparr>buf_in = 0, buf_out = 4, buf_len = 2\<rparr>))"
  unfolding list_all_iff by (rule buf_iteration_complete) (simp_all add: buf_valid_def regions_ok_def)

text \<open>
  \<open>get_out_len\<close> returns the length of the input, not of the output: on a buffer with more room than
  message it differs from the length of the slice \<open>get_out\<close> returns.
\<close>

theorem get_out_len_is_input_length:
  assumes "reserved_from_slices i in_len o' out_len = Ok self" and "o' + out_len \<le> length mem"
  shows "get_out_len self = in_len \<and> (\<exists>out. reserved_get_out mem self = Return out \<and> length out = out_len)"
  using assms by (auto simp: reserved_from_slices_def get_out_len_def reserved_get_out_def mem_read_def split: if_splits)

theorem get_out_len_is_input_length_witness:
  "get_out_len \<lparr>r_in = 0, r_out = 1, r_in_len = 1, r_out_len = 3\<rparr> = 1 \<and>
   (\<exists>out. reserved_get_out [1, 2, 3, 4] \<lparr>r_in = 0, r_out = 1, r_in_len = 1, r_out_len = 3\<rparr> = Return out \<and> length out = 3)"
  by (rule get_out_len_is_input_length [of 0 1 1 3]) (simp_all add: reserved_from_slices_def)

end
