(* ===== verification/Buffer_Clients.thy ===== *)
theory Buffer_Clients
  imports Buffer_Machines Inout
begin

text \<open>
  What the buffer crates are for.  A hash function keeps its unfinished block in a \<open>BlockBuffer\<close>
  and closes the message with one of the length paddings; a stream cipher takes its keystream
  from a \<open>ReadBuffer\<close> and combines it with the data through an \<open>InOutBuf\<close>.  The compression function and the
  keystream generator are arguments.  Both clients are written against the operations of the crates, and their
  correctness rests on the streaming lemmas of these operations.
\<close>

section \<open>Hashing\<close>

datatype closing = Len64_BE | Len64_LE | Len128_BE

fun close_with ::
  "closing \<Rightarrow> nat \<Rightarrow> ('s \<Rightarrow> bytes \<Rightarrow> 's) \<Rightarrow> unit block_buffer \<Rightarrow> nat \<Rightarrow> 's \<Rightarrow> (unit block_buffer \<times> 's) outcome" where
  "close_with Len64_BE bs f self n s = len64_padding_be bs f self (of_nat n) s"
| "close_with Len64_LE bs f self n s = len64_padding_le bs f self (of_nat n) s"
| "close_with Len128_BE bs f self n s = len128_padding_be bs f self (of_nat n) s"

text \<open>The length of a message is counted in bits.\<close>

definition md_hash :: "closing \<Rightarrow> nat \<Rightarrow> ('s \<Rightarrow> bytes \<Rightarrow> 's) \<Rightarrow> 's \<Rightarrow> bytes list \<Rightarrow> 's outcome" where
  "md_hash c bs f iv inputs =
     and_then (digest_all Eager bs f (bb_default Eager bs) inputs iv) (\<lambda>(self, s).
     and_then (close_with c bs f self (8 * length (concat inputs)) s) (\<lambda>(self, s). Return s))"

fun length_bytes :: "closing \<Rightarrow> nat \<Rightarrow> bytes" where
  "length_bytes Len64_BE n = to_be_bytes (of_nat n :: u64)"
| "length_bytes Len64_LE n = to_le_bytes (of_nat n :: u64)"
| "length_bytes Len128_BE n = to_be_bytes (of_nat n :: u128)"

fun length_bits :: "closing \<Rightarrow> nat" where
  "length_bits Len64_BE = 64" | "length_bits Len64_LE = 64" | "length_bits Len128_BE = 128"

lemma close_with_eq: "close_with c bs f self n s = digest_pad bs f self 0x80 (length_bytes c n) s"
  by (cases c) (simp_all add: len64_padding_be_def len64_padding_le_def len128_padding_be_def)

lemma length_length_bytes [simp]: "8 * length (length_bytes c n) = length_bits c"
  by (cases c) simp_all

lemma to_be_bytes_of_nat_inject:
  assumes "to_be_bytes (of_nat n :: 'a::len word) = to_be_bytes (of_nat n' :: 'a word)" "LENGTH('a) mod 8 = 0"
    and "n < 2 ^ LENGTH('a)" "n' < 2 ^ LENGTH('a)"
  shows "n = n'"
proof -
  have "(of_nat n :: 'a word) = of_nat n'"
    using arg_cong [OF assms(1), of "from_be_bytes :: bytes \<Rightarrow> 'a word"] by (simp add: from_be_bytes_to_be_bytes assms(2))
  then have "unat (of_nat n :: 'a word) = unat (of_nat n' :: 'a word)" by simp
  then show ?thesis by (simp add: unat_of_nat assms(3,4))
qed

lemma length_bytes_inject:
  assumes "length_bytes c n = length_bytes c n'" "n < 2 ^ length_bits c" "n' < 2 ^ length_bits c"
  shows "n = n'"
  using assms to_be_bytes_of_nat_inject [where 'a = 64, of n n'] to_be_bytes_of_nat_inject [where 'a = 128, of n n']
  by (cases c) (simp_all add: to_be_bytes_def)

text \<open>The blocks of a padded message determine its length from their last block, and the message.\<close>

definition padded_blocks :: "closing \<Rightarrow> nat \<Rightarrow> bytes \<Rightarrow> bytes list \<Rightarrow> bool" where
  "padded_blocks c bs msg blocks \<longleftrightarrow> (\<forall>b \<in> set blocks. length b = bs) \<and>
     (\<exists>z < bs. concat blocks = msg @ 0x80 # replicate z 0 @ length_bytes c (8 * length msg))"

lemma md_hash_blocks:
  assumes "block_sizes bs" "length_bits c \<le> 8 * bs"
  shows "\<exists>blocks. md_hash c bs f iv inputs = Return (foldl f iv blocks) \<and> padded_blocks c bs (concat inputs) blocks"
proof -
  have "length (length_bytes c (8 * length (concat inputs))) \<le> bs"
    using length_length_bytes [of c "8 * length (concat inputs)"] assms(2) by linarith
  from digest_then_pad [OF assms(1) this, of f inputs iv "0x80"] show ?thesis
    by (fastforce simp: md_hash_def close_with_eq padded_blocks_def)
qed

lemma last_block_suffix:
  assumes "\<forall>b \<in> set blocks. length b = bs" "concat blocks = xs @ suffix" "length suffix \<le> bs" "blocks \<noteq> []"
  shows "drop (bs - length suffix) (last blocks) = suffix"
proof -
  have last: "concat blocks = concat (butlast blocks) @ last blocks" "length (last blocks) = bs"
    using assms(1,4) append_butlast_last_id [OF assms(4)] by (metis concat_append concat.simps append_Nil2, simp)
  have "drop (length (concat blocks) - length suffix) (concat blocks) = suffix"
    by (simp add: assms(2))
  moreover have "length (concat blocks) - length suffix = length (concat (butlast blocks)) + (bs - length suffix)"
    using last assms(3) by simp
  ultimately show ?thesis using last by simp
qed

lemma padded_blocks_last:
  assumes "padded_blocks c bs msg B" "padded_blocks c bs msg' B'" "last B = last B'" "length_bits c \<le> 8 * bs"
    and "8 * length msg < 2 ^ length_bits c" "8 * length msg' < 2 ^ length_bits c"
  shows "length msg = length msg'"
proof -
  let ?suf = "\<lambda>msg. length_bytes c (8 * length msg)"
  have suf: "drop (bs - length_bits c div 8) (last B) = ?suf msg" if "padded_blocks c bs msg B" for msg B
  proof -
    obtain z where z: "concat B = (msg @ 0x80 # replicate z 0) @ ?suf msg" "\<forall>b \<in> set B. length b = bs"
      using \<open>padded_blocks c bs msg B\<close> by (auto simp: padded_blocks_def)
    have len: "length (?suf msg) = length_bits c div 8"
      using length_length_bytes [of c "8 * length msg"] by linarith
    then have "length (?suf msg) \<le> bs" using assms(4) by linarith
    moreover have "B \<noteq> []" using z(1) by auto
    ultimately show ?thesis using last_block_suffix [OF z(2,1)] len by simp
  qed
  have "?suf msg = ?suf msg'" using suf [OF assms(1)] suf [OF assms(2)] assms(3) by simp
  from length_bytes_inject [OF this assms(5,6)] show ?thesis by simp
qed

lemma padded_blocks_same_length:
  assumes "padded_blocks c bs msg B" "padded_blocks c bs msg' B'" "length msg = length msg'"
  shows "length B = length B'" "B = B' \<Longrightarrow> msg = msg'"
proof -
  let ?n = "length msg + 1 + length (length_bytes c (8 * length msg))"
  have count: "\<exists>z < bs. length B * bs = ?n + z" if "padded_blocks c bs msg'' B" "length msg'' = length msg" for msg'' B
  proof -
    from that obtain z where z: "z < bs" "concat B = msg'' @ 0x80 # replicate z 0 @ length_bytes c (8 * length msg'')"
      and "\<forall>b \<in> set B. length b = bs"
      by (auto simp: padded_blocks_def)
    then have "length B * bs = length (concat B)" using concat_all_length [of B bs] by simp
    with z that(2) show ?thesis by auto
  qed
  obtain z z' where z: "z < bs" "length B * bs = ?n + z" "z' < bs" "length B' * bs = ?n + z'"
    using count [OF assms(1)] count [OF assms(2)] assms(3) by auto
  show "length B = length B'"
  proof (rule ccontr)
    assume "length B \<noteq> length B'"
    then have "Suc (length B) * bs \<le> length B' * bs \<or> Suc (length B') * bs \<le> length B * bs"
      by (metis Suc_leI linorder_neqE_nat mult_le_mono1)
    then show False using z by auto
  qed
  show "msg = msg'" if "B = B'"
    using assms that by (auto simp: padded_blocks_def)
qed

lemma foldl_collision:
  assumes "length B = length B'" "B \<noteq> B'" "foldl f s B = foldl f s B'"
  shows "\<exists>s1 b1 s2 b2. b1 \<in> set B \<and> b2 \<in> set B' \<and> (s1, b1) \<noteq> (s2, b2) \<and> f s1 b1 = f s2 b2"
  using assms
proof (induction B B' rule: rev_induct2)
  case (4 b B b' B')
  show ?case
  proof (cases "(foldl f s B, b) = (foldl f s B', b')")
    case True
    with 4 show ?thesis by fastforce
  next
    case False
    with 4(4) show ?thesis by (intro exI [of _ "foldl f s B"] exI [of _ b] exI [of _ "foldl f s B'"] exI [of _ b']) simp
  qed
qed simp_all

section \<open>Stream encryption\<close>

text \<open>
  One call per piece: split the piece off the data, read as many bytes of keystream, and combine them.
\<close>

fun apply_keystream ::
  "nat \<Rightarrow> ('g \<Rightarrow> bytes \<Rightarrow> bytes \<times> 'g) \<Rightarrow> nat list \<Rightarrow> inout_buf \<Rightarrow> read_buffer \<Rightarrow> 'g \<Rightarrow> memory \<Rightarrow> memory outcome" where
  "apply_keystream bs gen [] buf self g mem = Return mem"
| "apply_keystream bs gen (n # ns) buf self g mem =
     and_then (buf_split_at 1 buf n) (\<lambda>(piece, rest).
     and_then (rb_read bs gen self (replicate n 0) g) (\<lambda>(self, key, g).
     and_then (buf_xor_in2out mem piece key) (\<lambda>mem.
       apply_keystream bs gen ns rest self g mem)))"

lemma xor_regions:
  assumes "regions_ok mem a b (n + N)" "length key = n" "length key' = N"
  defines "m1 \<equiv> overwrite mem b (map2 (XOR) (take n (drop a mem)) key)"
  shows "regions_ok m1 (a + n) (b + n) N"
    "overwrite m1 (b + n) (map2 (XOR) (take N (drop (a + n) m1)) key') =
     overwrite mem b (map2 (XOR) (take (n + N) (drop a mem)) (key @ key'))"
proof -
  let ?x = "map2 (XOR) (take n (drop a mem)) key"
  have ok: "a + n + N \<le> length mem" "b + n + N \<le> length mem" "a = b \<or> a + n + N \<le> b \<or> b + n + N \<le> a"
    using assms(1) by (auto simp: regions_ok_def)
  have x: "length ?x = n" using ok assms(2) by simp
  have len: "length m1 = length mem" using ok x by (simp add: m1_def)
  then show "regions_ok m1 (a + n) (b + n) N" using ok by (auto simp: regions_ok_def)
  have "take N (drop (a + n) m1) = take N (drop (a + n) mem)"
    unfolding m1_def by (rule read_overwrite_other) (use ok x in auto)
  moreover have "take (n + N) (drop a mem) = take n (drop a mem) @ take N (drop (a + n) mem)"
    using take_add [of n N "drop a mem"] by (simp add: add.commute [of n a])
  then have "map2 (XOR) (take (n + N) (drop a mem)) (key @ key') = ?x @ map2 (XOR) (take N (drop (a + n) mem)) key'"
    using ok assms(2) by simp
  moreover have "overwrite m1 (b + n) (map2 (XOR) (take N (drop (a + n) mem)) key') =
      overwrite mem b (?x @ map2 (XOR) (take N (drop (a + n) mem)) key')"
    using overwrite_append [of b ?x "map2 (XOR) (take N (drop (a + n) mem)) key'" mem] ok x assms(3)
    unfolding m1_def by simp
  ultimately show "overwrite m1 (b + n) (map2 (XOR) (take N (drop (a + n) m1)) key') =
      overwrite mem b (map2 (XOR) (take (n + N) (drop a mem)) (key @ key'))" by simp
qed

text \<open>Encrypting piece by piece is one exclusive or with the keystream from the cursor on.\<close>

lemma apply_keystream_eq:
  assumes "\<And>g. length (blk g) = bs" "rb_at bs blk nxt g0 (self, g) k"
    and "regions_ok mem (buf_in buf) (buf_out buf) (sum_list ns)" "sum_list ns \<le> buf_len buf"
  shows "apply_keystream bs (\<lambda>g b. (blk g, nxt g)) ns buf self g mem =
    Return (overwrite mem (buf_out buf) (map2 (XOR) (take (sum_list ns) (drop (buf_in buf) mem))
      (map (stream_byte bs blk nxt g0) [k..<k + sum_list ns])))"
  using assms(2-)
proof (induction ns arbitrary: buf self g k mem)
  case Nil
  then show ?case by (simp add: overwrite_def)
next
  case (Cons n ns)
  let ?byte = "stream_byte bs blk nxt g0" and ?N = "sum_list ns"
  define piece rest where "piece = \<lparr>buf_in = buf_in buf, buf_out = buf_out buf, buf_len = n\<rparr>"
    and "rest = \<lparr>buf_in = buf_in buf + n, buf_out = buf_out buf + n, buf_len = buf_len buf - n\<rparr>"
  have split: "buf_split_at 1 buf n = Return (piece, rest)"
    using Cons.prems(3) by (simp add: buf_split_at_def piece_def rest_def Let_def)
  obtain self' g' where read: "rb_read bs (\<lambda>g b. (blk g, nxt g)) self (replicate n 0) g =
      Return (self', map ?byte [k..<k + n], g')" "rb_at bs blk nxt g0 (self', g') (k + n)"
    using rb_read_cursor [OF Cons.prems(1), of "replicate n 0"] assms(1) by auto
  define mem1 where "mem1 = overwrite mem (buf_out buf) (map2 (XOR) (take n (drop (buf_in buf) mem)) (map ?byte [k..<k + n]))"
  have "buf_valid 1 mem piece"
    using Cons.prems(2) by (auto simp: buf_valid_def regions_ok_def piece_def)
  then have xor: "buf_xor_in2out mem piece (map ?byte [k..<k + n]) = Return mem1"
    using buf_xor_eq [of mem piece "map ?byte [k..<k + n]"] by (simp add: piece_def mem1_def)
  have ok: "regions_ok mem (buf_in buf) (buf_out buf) (n + ?N)" using Cons.prems(2) by simp
  note two = xor_regions [OF ok, of "map ?byte [k..<k + n]" "map ?byte [k + n..<k + n + ?N]", folded mem1_def]
  have "apply_keystream bs (\<lambda>g b. (blk g, nxt g)) ns rest self' g' mem1 =
      Return (overwrite mem1 (buf_out rest) (map2 (XOR) (take ?N (drop (buf_in rest) mem1)) (map ?byte [k + n..<k + n + ?N])))"
    by (rule Cons.IH [OF read(2)]) (use two(1) Cons.prems(3) in \<open>simp_all add: rest_def\<close>)
  also have "\<dots> = Return (overwrite mem (buf_out buf) (map2 (XOR) (take (n + ?N) (drop (buf_in buf) mem))
      (map ?byte [k..<k + (n + ?N)])))"
  proof -
    have "[k..<k + (n + ?N)] = [k..<k + n] @ [k + n..<k + n + ?N]"
      using upt_add_eq_append [of k "k + n" ?N] by (simp add: add.assoc)
    then show ?thesis using two(2) by (simp add: rest_def)
  qed
  finally show ?case using split by (simp add: read(1) xor)
qed

section \<open>Properties\<close>

text \<open>
  (C3) Merkle-Damgaard strengthening, for the three length paddings: if a hash function built on the eager buffer maps
  two different messages below the length limit, however they are cut into calls of
  \<open>digest_blocks\<close>, to the same value, then its compression function has a collision on two blocks of the
  block size.  The padding adds no collisions of its own.
\<close>

theorem md_hash_collision:
  assumes "block_sizes bs" and "length_bits c \<le> 8 * bs"
    and "8 * length (concat xs) < 2 ^ length_bits c" and "8 * length (concat ys) < 2 ^ length_bits c"
    and "md_hash c bs f iv xs = md_hash c bs f iv ys" and "concat xs \<noteq> concat ys"
  shows "\<exists>s1 b1 s2 b2. length b1 = bs \<and> length b2 = bs \<and> (s1, b1) \<noteq> (s2, b2) \<and> f s1 b1 = f s2 b2"
proof -
  obtain B B' where B: "md_hash c bs f iv xs = Return (foldl f iv B)" "padded_blocks c bs (concat xs) B"
    and B': "md_hash c bs f iv ys = Return (foldl f iv B')" "padded_blocks c bs (concat ys) B'"
    using md_hash_blocks [OF assms(1,2)] by meson
  have eq: "foldl f iv B = foldl f iv B'" using B(1) B'(1) assms(5) by simp
  have size: "\<forall>b \<in> set B. length b = bs" "\<forall>b \<in> set B'. length b = bs" "B \<noteq> []" "B' \<noteq> []"
    using B(2) B'(2) by (auto simp: padded_blocks_def)
  show ?thesis
  proof (cases "last B = last B'")
    case True
    note same = padded_blocks_last [OF B(2) B'(2) True assms(2-4)]
    have "length B = length B'" "B \<noteq> B'"
      using padded_blocks_same_length [OF B(2) B'(2) same] assms(6) by auto
    from foldl_collision [OF this eq] size show ?thesis by blast
  next
    case False
    have "foldl f iv B = f (foldl f iv (butlast B)) (last B)" "foldl f iv B' = f (foldl f iv (butlast B')) (last B')"
      using size(3,4) by (metis append_butlast_last_id foldl_Cons foldl_Nil foldl_append)+
    with eq False size show ?thesis
      by (intro exI [of _ "foldl f iv (butlast B)"] exI [of _ "last B"] exI [of _ "foldl f iv (butlast B')"] exI [of _ "last B'"]) auto
  qed
qed

theorem md_hash_collision_witness:
  "\<exists>s1 b1 s2 b2. length b1 = 16 \<and> length b2 = 16 \<and> (s1, b1) \<noteq> (s2, b2) \<and> (\<lambda>s b. s XOR hd b) s1 b1 = (\<lambda>s b. s XOR hd b) s2 (b2 :: bytes)"
proof (rule md_hash_collision [of 16 Len64_BE "[[0]]" "[[0], [1]]" "\<lambda>s b. s XOR hd b" 0])
  have "md_hash Len64_BE 16 (\<lambda>s b. s XOR hd b) 0 inputs = Return (hd (concat inputs))"
    if "inputs \<in> {[[0]], [[0], [1]]}" for inputs
  proof -
    obtain B where B: "md_hash Len64_BE 16 (\<lambda>s b. s XOR hd b) 0 inputs = Return (foldl (\<lambda>s b. s XOR hd b) 0 B)"
        "padded_blocks Len64_BE 16 (concat inputs) B"
      using md_hash_blocks [of 16 Len64_BE "\<lambda>s b. s XOR hd b" 0 inputs] by (auto simp: block_sizes_def)
    then obtain z where z: "z < 16" "concat B = concat inputs @ 0x80 # replicate z 0 @ length_bytes Len64_BE (8 * length (concat inputs))"
        "\<forall>b \<in> set B. length b = 16" by (auto simp: padded_blocks_def)
    have "length B * 16 = length (concat inputs) + 9 + z"
      using concat_all_length [of B 16] z by (simp add: arg_cong [OF z(2), of length])
    moreover have "0 < length (concat inputs)" "length (concat inputs) \<le> 2" using that by auto
    ultimately have "length B = 1" using z(1) by linarith
    then obtain b where "B = [b]" by (auto simp: length_Suc_conv)
    then have "hd b = hd (concat inputs)" using z(2) that by auto
    with B(1) \<open>B = [b]\<close> show ?thesis by simp
  qed
  then show "md_hash Len64_BE 16 (\<lambda>s b. s XOR hd b) 0 [[0]] = md_hash Len64_BE 16 (\<lambda>s b. s XOR hd b) 0 [[0], [1]]" by simp
qed (simp_all add: block_sizes_def)

text \<open>
  (C4) Stream encryption through \<open>ReadBuffer\<close> and \<open>InOutBuf\<close> is undone by itself.  Encrypt a region in pieces of any
  lengths, in place or into another region, and decrypt the result in place in any other pieces with a fresh
  buffer for the same generator: both return, the output region then holds the original input, and no other byte
  of memory has changed.
\<close>

theorem keystream_roundtrip:
  assumes "block_sizes bs" and "\<forall>g. length (blk g) = bs" and "rb_default bs = Return self"
    and "buf_valid 1 mem buf" and "sum_list ns = buf_len buf" and "sum_list ns' = buf_len buf"
  shows "\<exists>mem'. apply_keystream bs (\<lambda>g b. (blk g, nxt g)) ns buf self g mem = Return mem' \<and>
    apply_keystream bs (\<lambda>g b. (blk g, nxt g)) ns' (buf_from_slice (buf_out buf) (buf_len buf)) self g mem' =
      Return (overwrite mem (buf_out buf) (take (buf_len buf) (drop (buf_in buf) mem)))"
proof -
  let ?N = "buf_len buf" and ?a = "buf_in buf" and ?b = "buf_out buf"
  let ?key = "map (stream_byte bs blk nxt g) [0..<?N]" and ?x = "take ?N (drop ?a mem)"
  have at: "rb_at bs blk nxt g (self, g) 0" using rb_default_at [OF assms(1), of blk nxt g] assms(3) by auto
  have ok: "regions_ok mem ?a ?b ?N" using assms(4) by (simp add: buf_valid_def)
  then have len: "length ?x = ?N" "?b + ?N \<le> length mem" by (auto simp: regions_ok_def)
  define c where "c = map2 (XOR) ?x ?key"
  have c: "length c = ?N" using len by (simp add: c_def)
  have one: "apply_keystream bs (\<lambda>g b. (blk g, nxt g)) ns buf self g mem = Return (overwrite mem ?b c)"
    using apply_keystream_eq [of blk bs nxt g self g 0 mem buf ns] assms(2,5) at ok by (simp add: c_def)
  have read: "take ?N (drop ?b (overwrite mem ?b c)) = c"
    using read_overwrite_same [of ?b c mem] c len(2) by simp
  have "regions_ok (overwrite mem ?b c) ?b ?b ?N" using len(2) c by (simp add: regions_ok_def)
  then have "apply_keystream bs (\<lambda>g b. (blk g, nxt g)) ns' (buf_from_slice ?b ?N) self g (overwrite mem ?b c) =
      Return (overwrite (overwrite mem ?b c) ?b (map2 (XOR) c ?key))"
    using apply_keystream_eq [of blk bs nxt g self g 0 "overwrite mem ?b c" "buf_from_slice ?b ?N" ns'] assms(2,6) at read
    by (simp add: buf_from_slice_def)
  moreover have "map2 (XOR) c ?key = ?x"
    by (rule nth_equalityI) (use len c in \<open>simp_all add: c_def xor.assoc\<close>)
  moreover have "overwrite (overwrite mem ?b c) ?b ?x = overwrite mem ?b ?x"
    using c len by (simp add: overwrite_def)
  ultimately show ?thesis using one by auto
qed

theorem keystream_roundtrip_witness:
  "\<exists>self mem'. rb_default 3 = Return self \<and>
     apply_keystream 3 (\<lambda>g b. ([g, g + 1, g + 2], g + 3)) [1, 4] \<lparr>buf_in = 0, buf_out = 5, buf_len = 5\<rparr> self 7
       [1, 2, 3, 4, 5, 0, 0, 0, 0, 0, 9] = Return mem' \<and>
     apply_keystream 3 (\<lambda>g b. ([g, g + 1, g + 2], g + 3)) [2, 3] (buf_from_slice 5 5) self 7 mem' =
       Return [1, 2, 3, 4, 5, 1, 2, 3, 4, 5, 9]"
proof -
  obtain self where self: "rb_default 3 = Return self"
    using rb_default_wf [of 3] by (auto simp: block_sizes_def)
  have "\<exists>mem'. apply_keystream 3 (\<lambda>g b. ([g, g + 1, g + 2], g + 3)) [1, 4] \<lparr>buf_in = 0, buf_out = 5, buf_len = 5\<rparr> self 7
       [1, 2, 3, 4, 5, 0, 0, 0, 0, 0, 9] = Return mem' \<and>
     apply_keystream 3 (\<lambda>g b. ([g, g + 1, g + 2], g + 3)) [2, 3] (buf_from_slice 5 5) self 7 mem' =
       Return (overwrite [1, 2, 3, 4, 5, 0, 0, 0, 0, 0, 9] 5 (take 5 (drop 0 [1, 2, 3, 4, 5, 0, 0, 0, 0, 0, 9])))"
    using keystream_roundtrip [of 3 "\<lambda>g. [g, g + 1, g + 2]" self "[1, 2, 3, 4, 5, 0, 0, 0, 0, 0, 9]"
        "\<lparr>buf_in = 0, buf_out = 5, buf_len = 5\<rparr>" "[1, 4]" "[2, 3]" "\<lambda>g. g + 3" 7] self
    by (simp add: block_sizes_def buf_valid_def regions_ok_def)
  with self show ?thesis by (simp add: overwrite_def)
qed

end
