(* ===== verification/Dbl.thy ===== *)
theory Dbl
  imports Rust_Prelude
begin

text \<open>
  The crate \<^verbatim>\<open>dbl\<close>: doubling and halving in GF(2^64), GF(2^128) and GF(2^256) on big-endian byte
  arrays, computed on \<open>u64\<close> limbs.  The specification multiplies a word of the full width by x and reduces
  with the field polynomial; the limb code refines it, and halving inverts doubling.
\<close>

section \<open>Operations\<close>

definition C64 :: u64 where "C64 = 0b11011"
definition C128 :: u64 where "C128 = 0b10000111"
definition C256 :: u64 where "C256 = 0b10000100101"

text \<open>\<open>u64::from_be_bytes(self[a..b].try_into().unwrap())\<close>, and a multiplication that may overflow.\<close>

definition u64_at :: "bytes \<Rightarrow> nat \<Rightarrow> nat \<Rightarrow> u64 outcome" where
  "u64_at self a b =
     and_then (slice self a b) (\<lambda>s.
       if length s = 8 then Return (from_be_bytes s) else Panic Unwrap_Failed)"

definition mul_u64 :: "u64 \<Rightarrow> u64 \<Rightarrow> u64 outcome" where
  "mul_u64 a b = (if unat a * unat b < 2 ^ 64 then Return (a * b) else Panic Overflow)"

definition dbl_8 :: "bytes \<Rightarrow> bytes outcome" where
  "dbl_8 self =
     and_then (u64_at self 0 (length self)) (\<lambda>val.
       let a = drop_bit 63 val; val = push_bit 1 val in
       and_then (mul_u64 a C64) (\<lambda>m. Return (to_be_bytes (val XOR m))))"

definition inv_dbl_8 :: "bytes \<Rightarrow> bytes outcome" where
  "inv_dbl_8 self =
     and_then (u64_at self 0 (length self)) (\<lambda>val.
       let a = val AND 1; val = drop_bit 1 val in
       and_then (mul_u64 a (push_bit 63 1 XOR drop_bit 1 C64)) (\<lambda>m.
         Return (to_be_bytes (val XOR m))))"

definition dbl_16 :: "bytes \<Rightarrow> bytes outcome" where
  "dbl_16 self =
     and_then (u64_at self 0 8) (\<lambda>val0.
     and_then (u64_at self 8 (length self)) (\<lambda>val1.
       let b = drop_bit 63 val1; a = drop_bit 63 val0;
           val0 = push_bit 1 val0; val0 = val0 XOR b;
           val1 = push_bit 1 val1
       in and_then (mul_u64 a C128) (\<lambda>m.
       let val1 = val1 XOR m; res = replicate 16 0 in
       and_then (copy_at res 0 8 (to_be_bytes val0)) (\<lambda>res.
         copy_at res 8 (length res) (to_be_bytes val1)))))"

definition inv_dbl_16 :: "bytes \<Rightarrow> bytes outcome" where
  "inv_dbl_16 self =
     and_then (u64_at self 0 8) (\<lambda>val0.
     and_then (u64_at self 8 (length self)) (\<lambda>val1.
       let a = push_bit 63 (val0 AND 1); b = val1 AND 1;
           val0 = drop_bit 1 val0; val1 = drop_bit 1 val1; val1 = val1 XOR a
       in and_then (mul_u64 b (push_bit 63 1)) (\<lambda>m0.
          and_then (mul_u64 b (drop_bit 1 C128)) (\<lambda>m1.
       let val0 = val0 XOR m0; val1 = val1 XOR m1; res = replicate 16 0 in
       and_then (copy_at res 0 8 (to_be_bytes val0)) (\<lambda>res.
         copy_at res 8 (length res) (to_be_bytes val1))))))"

definition dbl_32 :: "bytes \<Rightarrow> bytes outcome" where
  "dbl_32 self =
     and_then (u64_at self 0 8) (\<lambda>val0.
     and_then (u64_at self 8 16) (\<lambda>val1.
     and_then (u64_at self 16 24) (\<lambda>val2.
     and_then (u64_at self 24 32) (\<lambda>val3.
       let a = drop_bit 63 val0; b = drop_bit 63 val1; c = drop_bit 63 val2; d = drop_bit 63 val3;
           val0 = push_bit 1 val0; val0 = val0 XOR b;
           val1 = push_bit 1 val1; val1 = val1 XOR c;
           val2 = push_bit 1 val2; val2 = val2 XOR d;
           val3 = push_bit 1 val3
       in and_then (mul_u64 a C256) (\<lambda>m.
       let val3 = val3 XOR m; res = replicate 32 0 in
       and_then (copy_at res 0 8 (to_be_bytes val0)) (\<lambda>res.
       and_then (copy_at res 8 16 (to_be_bytes val1)) (\<lambda>res.
       and_then (copy_at res 16 24 (to_be_bytes val2)) (\<lambda>res.
         copy_at res 24 32 (to_be_bytes val3)))))))))"

definition inv_dbl_32 :: "bytes \<Rightarrow> bytes outcome" where
  "inv_dbl_32 self =
     and_then (u64_at self 0 8) (\<lambda>val0.
     and_then (u64_at self 8 16) (\<lambda>val1.
     and_then (u64_at self 16 24) (\<lambda>val2.
     and_then (u64_at self 24 32) (\<lambda>val3.
       let a = push_bit 63 (val0 AND 1); b = push_bit 63 (val1 AND 1);
           c = push_bit 63 (val2 AND 1); d = val3 AND 1;
           val0 = drop_bit 1 val0; val1 = drop_bit 1 val1;
           val2 = drop_bit 1 val2; val3 = drop_bit 1 val3;
           val1 = val1 XOR a; val2 = val2 XOR b; val3 = val3 XOR c
       in and_then (mul_u64 d (push_bit 63 1)) (\<lambda>m0.
          and_then (mul_u64 d (drop_bit 1 C256)) (\<lambda>m3.
       let val0 = val0 XOR m0; val3 = val3 XOR m3; res = replicate 32 0 in
       and_then (copy_at res 0 8 (to_be_bytes val0)) (\<lambda>res.
       and_then (copy_at res 8 16 (to_be_bytes val1)) (\<lambda>res.
       and_then (copy_at res 16 24 (to_be_bytes val2)) (\<lambda>res.
         copy_at res 24 32 (to_be_bytes val3))))))))))"

section \<open>Specification\<close>

text \<open>
  A word is a polynomial over GF(2), bit \<open>k\<close> the coefficient of x^k.  Doubling multiplies by x and
  subtracts the field polynomial x^n + C once if the degree reached n.
\<close>

definition gf_dbl :: "u64 \<Rightarrow> 'a::len word \<Rightarrow> 'a word" where
  "gf_dbl C w = push_bit 1 w XOR (if bit w (LENGTH('a) - 1) then ucast C else 0)"

definition gf_inv_dbl :: "u64 \<Rightarrow> 'a::len word \<Rightarrow> 'a word" where
  "gf_inv_dbl C w =
     drop_bit 1 w XOR
     (if bit w 0 then push_bit (LENGTH('a) - 1) 1 XOR ucast (drop_bit 1 C) else 0)"

definition poly_reduce :: "nat \<Rightarrow> int \<Rightarrow> int \<Rightarrow> int" where
  "poly_reduce n c p = (if bit p n then p XOR (push_bit n 1 XOR c) else p)"

lemma bit_gf_dbl:
  assumes "k < LENGTH('a)"
  shows "bit (gf_dbl C (w :: 'a::len word)) k \<longleftrightarrow>
         (0 < k \<and> bit w (k - 1)) \<noteq> (bit w (LENGTH('a) - 1) \<and> bit C k)"
proof -
  have "bit (push_bit 1 w) k \<longleftrightarrow> 0 < k \<and> bit w (k - 1)"
    using assms bit_push_bit_iff [of 1 w k] by (auto simp: Suc_le_eq)
  then show ?thesis
    unfolding gf_dbl_def bit_xor_iff using assms by (simp add: bit_simps)
qed

lemma bit_gf_inv_dbl:
  assumes "k < LENGTH('a)" "64 \<le> LENGTH('a)"
  shows "bit (gf_inv_dbl C (w :: 'a::len word)) k \<longleftrightarrow>
         (if k = LENGTH('a) - 1 then bit w 0 else bit w (Suc k) \<noteq> (bit w 0 \<and> bit C (Suc k)))"
proof -
  have "\<not> bit C LENGTH('a)" using assms(2) bit_imp_le_length [of C "LENGTH('a)"] by auto
  moreover have "bit (push_bit (LENGTH('a) - 1) 1 :: 'a word) k \<longleftrightarrow> k = LENGTH('a) - 1"
    using assms(1) by (auto simp: bit_exp_iff possible_bit_word)
  moreover have "\<not> bit w LENGTH('a)" using bit_imp_le_length [of w "LENGTH('a)"] by auto
  ultimately show ?thesis
    unfolding gf_inv_dbl_def bit_xor_iff using assms(1)
    by (cases "Suc k = LENGTH('a)") (auto simp: bit_xor_iff bit_drop_bit_eq bit_unsigned_iff simp del: push_bit_of_1)
qed

lemma gf_dbl_poly:
  assumes "64 \<le> LENGTH('a)"
  shows "uint (gf_dbl C (w :: 'a::len word)) = poly_reduce LENGTH('a) (uint C) (push_bit 1 (uint w))"
proof (rule bit_eqI)
  fix k
  have C: "bit C k \<Longrightarrow> k < LENGTH('a)" for k using assms bit_imp_le_length [of C k] by simp
  have shift: "bit (push_bit 1 (uint w)) k \<longleftrightarrow> 0 < k \<and> bit w (k - 1)" for k
    using bit_push_bit_iff [of 1 "uint w" k] bit_imp_le_length [of w "k - 1"] by (auto simp: bit_simps)
  have poly: "bit (push_bit LENGTH('a) 1 :: int) k \<longleftrightarrow> k = LENGTH('a)"
    by (auto simp: bit_exp_iff)
  show "bit (uint (gf_dbl C w)) k = bit (poly_reduce LENGTH('a) (uint C) (push_bit 1 (uint w))) k"
  proof (cases "k < LENGTH('a)")
    case True
    then show ?thesis
      unfolding poly_reduce_def
      using shift [of "LENGTH('a)"] shift [of k] poly bit_gf_dbl [of k C w] bit_imp_le_length [of C k]
      by (auto simp: bit_xor_iff bit_uint_iff simp del: push_bit_of_1)
  next
    case False
    then show ?thesis
      unfolding poly_reduce_def
      using shift [of "LENGTH('a)"] shift [of k] poly C bit_imp_le_length [of w "k - 1"]
      by (cases "k = LENGTH('a)") (auto simp: bit_xor_iff bit_uint_iff simp del: push_bit_of_1)
  qed
qed

lemma gf_inv_dbl_gf_dbl:
  assumes "bit C 0" "64 \<le> LENGTH('a)"
  shows "gf_inv_dbl C (gf_dbl C (w :: 'a::len word)) = w"
proof (rule bit_word_eqI)
  fix k assume k: "k < LENGTH('a)"
  then show "bit (gf_inv_dbl C (gf_dbl C w)) k = bit w k"
    using assms
    by (cases "k = LENGTH('a) - 1") (auto simp: bit_gf_inv_dbl bit_gf_dbl)
qed

lemma gf_dbl_gf_inv_dbl:
  assumes "bit C 0" "64 \<le> LENGTH('a)"
  shows "gf_dbl C (gf_inv_dbl C (w :: 'a::len word)) = w"
proof (rule bit_word_eqI)
  fix k assume k: "k < LENGTH('a)"
  then show "bit (gf_dbl C (gf_inv_dbl C w)) k = bit w k"
    using assms by (cases k) (auto simp: bit_gf_inv_dbl bit_gf_dbl)
qed

section \<open>Limbs\<close>

text \<open>Bit \<open>k\<close> of a big-endian block made of \<open>u64\<close> limbs.\<close>

lemma bit_from_be_bytes_limbs:
  "bit (from_be_bytes (concat (map to_be_bytes (ws :: u64 list))) :: 'a::len word) k \<longleftrightarrow>
   k < LENGTH('a) \<and> k < 64 * length ws \<and> bit (rev ws ! (k div 64)) (k mod 64)"
proof -
  have len: "length (concat (map to_be_bytes ws)) = 8 * length ws"
    by (simp add: length_concat comp_def sum_list_triv)
  have byte: "rev (concat (map to_be_bytes ws)) ! j = to_le_bytes (rev ws ! (j div 8)) ! (j mod 8)"
    if "j < 8 * length ws" for j
    using that
  proof (induction ws arbitrary: j rule: rev_induct)
    case (snoc w ws)
    then show ?case
    proof (cases "j < 8")
      case False
      then have "j div 8 = Suc ((j - 8) div 8)" "j mod 8 = (j - 8) mod 8"
        by (simp_all add: le_div_geq le_mod_geq)
      then show ?thesis
        using False snoc.IH [of "j - 8"] snoc.prems by (simp add: to_be_bytes_def nth_append)
    qed (simp add: to_be_bytes_def nth_append)
  qed simp
  have "k div 8 div 8 = k div 64" "8 * (k div 8 mod 8) + k mod 8 = k mod 64"
    using div_mult2_eq [of k 8 8] mod_mult2_eq [of k 8 8] by simp_all
  then show ?thesis
    using byte [of "k div 8"] unfolding bit_from_be_bytes len
    by (auto simp: to_le_bytes_def bit_simps)
qed

lemma u64_at_limbs:
  assumes "b = 8 + 8 * i" "i < length ws"
  shows "u64_at (concat (map to_be_bytes ws)) (8 * i) b = Return (ws ! i)"
proof -
  have "concat (map to_be_bytes ws) = concat (map to_be_bytes (take i ws)) @ to_be_bytes (ws ! i) @
      concat (map to_be_bytes (drop (Suc i) ws))"
    using assms(2) by (subst id_take_nth_drop [of i ws]) simp_all
  moreover have "length (concat (map to_be_bytes (take i ws))) = 8 * i"
    using assms(2) by (simp add: length_concat comp_def sum_list_triv)
  ultimately show ?thesis
    using assms(1) by (simp add: u64_at_def slice_def from_be_bytes_to_be_bytes)
qed

lemma block_limbs:
  assumes "length b = 8 * n"
  obtains ws :: "u64 list" where "b = concat (map to_be_bytes ws)" "length ws = n"
proof
  let ?ws = "map from_be_bytes (chunks_of 8 n b) :: u64 list"
  have "map to_be_bytes ?ws = chunks_of 8 n b"
    using chunks_of_block_length [of n 8 b] assms
    by (auto simp: map_idI to_be_bytes_from_be_bytes)
  then show "b = concat (map to_be_bytes ?ws)"
    using assms concat_chunks_of [of n 8 b] by simp
qed simp

lemma drop_bit_63: "drop_bit 63 (w :: u64) = of_bool (bit w 63)"
proof (rule bit_word_eqI)
  fix n
  show "bit (drop_bit 63 w) n = bit (of_bool (bit w 63) :: u64) n"
    using bit_imp_le_length [of w "63 + n"] by (cases "n = 0") (auto simp: bit_simps bit_1_iff)
qed

lemma and_1_word: "w AND 1 = (of_bool (bit w 0) :: u64)"
  by (rule bit_word_eqI) (auto simp: bit_simps bit_1_iff)

lemma mul_u64_bool: "mul_u64 (of_bool P) C = Return (if P then C else 0)"
proof -
  have "unat C < 2 ^ 64" by (rule order_less_le_trans [OF unsigned_less]) simp
  then show ?thesis by (simp add: mul_u64_def)
qed

text \<open>What the code computes on the limbs.\<close>

lemma concat_limbs [simp]:
  "u64_at (to_be_bytes v0) 0 8 = Return (v0 :: u64)"
  "u64_at (to_be_bytes v0 @ to_be_bytes v1) 0 8 = Return v0"
  "u64_at (to_be_bytes v0 @ to_be_bytes v1) 8 16 = Return v1"
  using u64_at_limbs [of 8 0 "[v0]"] u64_at_limbs [of 8 0 "[v0, v1]"] u64_at_limbs [of 16 1 "[v0, v1]"]
  by simp_all

lemma concat_limbs4 [simp]:
  "u64_at (to_be_bytes v0 @ to_be_bytes v1 @ to_be_bytes v2 @ to_be_bytes v3) 0 8 = Return (v0 :: u64)"
  "u64_at (to_be_bytes v0 @ to_be_bytes v1 @ to_be_bytes v2 @ to_be_bytes v3) 8 16 = Return v1"
  "u64_at (to_be_bytes v0 @ to_be_bytes v1 @ to_be_bytes v2 @ to_be_bytes v3) 16 24 = Return v2"
  "u64_at (to_be_bytes v0 @ to_be_bytes v1 @ to_be_bytes v2 @ to_be_bytes v3) 24 32 = Return v3"
  using u64_at_limbs [of 8 0 "[v0, v1, v2, v3]"] u64_at_limbs [of 16 1 "[v0, v1, v2, v3]"]
    u64_at_limbs [of 24 2 "[v0, v1, v2, v3]"] u64_at_limbs [of 32 3 "[v0, v1, v2, v3]"]
  by simp_all

lemmas limb_simps = xor.assoc drop_bit_63 and_1_word mul_u64_bool Let_def copy_at_def overwrite_def

lemma dbl_8_limbs:
  "dbl_8 (to_be_bytes (v :: u64)) = Return (to_be_bytes (push_bit 1 v XOR (if bit v 63 then C64 else 0)))"
  by (simp add: dbl_8_def limb_simps)

lemma inv_dbl_8_limbs:
  "inv_dbl_8 (to_be_bytes (v :: u64)) =
     Return (to_be_bytes (drop_bit 1 v XOR (if bit v 0 then push_bit 63 1 XOR drop_bit 1 C64 else 0)))"
  by (simp add: inv_dbl_8_def limb_simps)

lemma dbl_16_limbs:
  "dbl_16 (to_be_bytes (v0 :: u64) @ to_be_bytes (v1 :: u64)) =
     Return (to_be_bytes (push_bit 1 v0 XOR of_bool (bit v1 63)) @
             to_be_bytes (push_bit 1 v1 XOR (if bit v0 63 then C128 else 0)))"
  by (simp add: dbl_16_def limb_simps)

lemma inv_dbl_16_limbs:
  "inv_dbl_16 (to_be_bytes (v0 :: u64) @ to_be_bytes (v1 :: u64)) =
     Return (to_be_bytes (drop_bit 1 v0 XOR (if bit v1 0 then push_bit 63 1 else 0)) @
             to_be_bytes (drop_bit 1 v1 XOR push_bit 63 (of_bool (bit v0 0)) XOR
               (if bit v1 0 then drop_bit 1 C128 else 0)))"
  by (simp add: inv_dbl_16_def limb_simps)

lemma dbl_32_limbs:
  "dbl_32 (to_be_bytes (v0 :: u64) @ to_be_bytes (v1 :: u64) @ to_be_bytes (v2 :: u64) @ to_be_bytes (v3 :: u64)) =
     Return (to_be_bytes (push_bit 1 v0 XOR of_bool (bit v1 63)) @
             to_be_bytes (push_bit 1 v1 XOR of_bool (bit v2 63)) @
             to_be_bytes (push_bit 1 v2 XOR of_bool (bit v3 63)) @
             to_be_bytes (push_bit 1 v3 XOR (if bit v0 63 then C256 else 0)))"
  by (simp add: dbl_32_def limb_simps)

lemma inv_dbl_32_limbs:
  "inv_dbl_32 (to_be_bytes (v0 :: u64) @ to_be_bytes (v1 :: u64) @ to_be_bytes (v2 :: u64) @ to_be_bytes (v3 :: u64)) =
     Return (to_be_bytes (drop_bit 1 v0 XOR (if bit v3 0 then push_bit 63 1 else 0)) @
             to_be_bytes (drop_bit 1 v1 XOR push_bit 63 (of_bool (bit v0 0))) @
             to_be_bytes (drop_bit 1 v2 XOR push_bit 63 (of_bool (bit v1 0))) @
             to_be_bytes (drop_bit 1 v3 XOR push_bit 63 (of_bool (bit v2 0)) XOR
               (if bit v3 0 then drop_bit 1 C256 else 0)))"
  by (simp add: inv_dbl_32_def limb_simps)

section \<open>Refinement\<close>

text \<open>The abstraction of little-endian limbs, and when new limbs are the doubled or halved ones.\<close>

definition limbs_word :: "u64 list \<Rightarrow> 'a::len word" where
  "limbs_word rs = from_be_bytes (concat (map to_be_bytes (rev rs)))"

lemma bit_limbs_word:
  assumes "LENGTH('a) = 64 * length rs" "q < length rs" "j < 64"
  shows "bit (limbs_word rs :: 'a::len word) (64 * q + j) = bit (rs ! q) j"
  using assms by (simp add: limbs_word_def bit_from_be_bytes_limbs)

lemma limb_bit_cases:
  assumes "k < 64 * length rs"
  obtains q j where "k = 64 * q + j" "q < length rs" "j < 64"
  using assms that [of "k div 64" "k mod 64"] by (simp add: less_mult_imp_div_less mult.commute)

lemma limbs_dbl:
  assumes len: "LENGTH('a) = 64 * length rs" "length rs' = length rs"
    and step: "\<And>q. q < length rs \<Longrightarrow> rs' ! q = push_bit 1 (rs ! q) XOR
      (if q = 0 then if bit (rs ! (length rs - 1)) 63 then C else 0 else of_bool (bit (rs ! (q - 1)) 63))"
  shows "limbs_word rs' = gf_dbl C (limbs_word rs :: 'a::len word)"
proof (rule bit_word_eqI)
  fix k assume "k < LENGTH('a)"
  then obtain q j where k: "k = 64 * q + j" "q < length rs" "j < 64" using limb_bit_cases [of k rs] len(1) by auto
  have top: "bit (limbs_word rs :: 'a word) (LENGTH('a) - 1) = bit (rs ! (length rs - 1)) 63"
    using bit_limbs_word [OF len(1), of "length rs - 1" 63] k(2) len(1)
    by (simp add: diff_mult_distrib2)
  have shift: "bit (push_bit 1 (rs ! q)) j \<longleftrightarrow> 0 < j \<and> bit (rs ! q) (j - 1)"
    using bit_push_bit_iff [of 1 "rs ! q" j] k(3) by (auto simp: Suc_le_eq)
  have prev: "0 < k \<and> bit (limbs_word rs :: 'a word) (k - 1) \<longleftrightarrow>
      (if j = 0 then q \<noteq> 0 \<and> bit (rs ! (q - 1)) 63 else bit (rs ! q) (j - 1))"
  proof (cases j)
    case 0
    then show ?thesis
      using bit_limbs_word [OF len(1), of "q - 1" 63] k by (cases q) (auto simp: add.commute)
  next
    case (Suc i)
    then show ?thesis using bit_limbs_word [OF len(1), of q i] k by simp
  qed
  have C: "bit C k \<longleftrightarrow> q = 0 \<and> bit C j" using bit_imp_le_length [of C k] k by (cases q) auto
  have "bit (limbs_word rs' :: 'a word) k = bit (rs' ! q) j"
    using bit_limbs_word [of rs' q j, where 'a = 'a] len k by simp
  also have "\<dots> \<longleftrightarrow> bit (gf_dbl C (limbs_word rs :: 'a word)) k"
    unfolding bit_gf_dbl [OF \<open>k < LENGTH('a)\<close>] prev C top step [OF k(2)] bit_xor_iff shift
    by (auto simp: bit_1_iff of_bool_def)
  finally show "bit (limbs_word rs' :: 'a word) k = bit (gf_dbl C (limbs_word rs :: 'a word)) k" .
qed

lemma limbs_inv_dbl:
  assumes len: "LENGTH('a) = 64 * length rs" "length rs' = length rs"
    and step: "\<And>q. q < length rs \<Longrightarrow> rs' ! q = drop_bit 1 (rs ! q) XOR
      (if Suc q = length rs then if bit (rs ! 0) 0 then push_bit 63 1 else 0
       else push_bit 63 (of_bool (bit (rs ! Suc q) 0))) XOR
      (if q = 0 \<and> bit (rs ! 0) 0 then drop_bit 1 C else 0)"
  shows "limbs_word rs' = gf_inv_dbl C (limbs_word rs :: 'a::len word)"
proof (rule bit_word_eqI)
  fix k assume kl: "k < LENGTH('a)"
  then obtain q j where k: "k = 64 * q + j" "q < length rs" "j < 64" using limb_bit_cases [of k rs] len(1) by auto
  have low: "bit (limbs_word rs :: 'a word) 0 = bit (rs ! 0) 0"
    using bit_limbs_word [OF len(1), of 0 0] k(2) by (cases rs) auto
  have top: "k = LENGTH('a) - 1 \<longleftrightarrow> Suc q = length rs \<and> j = 63"
    using k len(1) by auto
  have "next": "bit (limbs_word rs :: 'a word) (Suc k) \<longleftrightarrow>
      (if j = 63 then bit (rs ! Suc q) 0 else bit (rs ! q) (Suc j))" if "k \<noteq> LENGTH('a) - 1"
  proof (cases "j = 63")
    case True
    then show ?thesis using bit_limbs_word [OF len(1), of "Suc q" 0] k that top by (simp add: Suc_lessI)
  next
    case False
    then show ?thesis using bit_limbs_word [OF len(1), of q "Suc j"] k by simp
  qed
  have shift: "bit (push_bit 63 (of_bool P) :: u64) j \<longleftrightarrow> j = 63 \<and> P" for P
    using k(3) by (auto simp: bit_push_bit_iff bit_1_iff)
  have out: "\<not> bit (w :: u64) 64" for w using bit_imp_le_length [of w 64] by auto
  have C: "bit C (Suc k) \<longleftrightarrow> q = 0 \<and> bit C (Suc j)"
    using bit_imp_le_length [of C "Suc k"] k by (cases q) auto
  have "bit (limbs_word rs' :: 'a word) k = bit (rs' ! q) j"
    using bit_limbs_word [of rs' q j, where 'a = 'a] len k by simp
  also have "\<dots> \<longleftrightarrow> bit (gf_inv_dbl C (limbs_word rs :: 'a word)) k"
  proof -
    have "64 \<le> LENGTH('a)" using len(1) k(2) by (cases "length rs") auto
    then show ?thesis
      unfolding bit_gf_inv_dbl [OF kl \<open>64 \<le> LENGTH('a)\<close>] C low step [OF k(2)] bit_xor_iff
      using "next" shift [of True] shift [of "bit (rs ! Suc q) 0"] top out [of C] out [of "rs ! q"]
        bit_imp_le_length [of C "length rs + 63"]
      by (cases "j = 63") (auto simp: bit_drop_bit_eq)
  qed
  finally show "bit (limbs_word rs' :: 'a word) k = bit (gf_inv_dbl C (limbs_word rs :: 'a word)) k" .
qed

lemma length_4_cases:
  assumes "length xs = 4"
  obtains a b c d where "xs = [a, b, c, d]"
  using assms by (auto simp: length_Suc_conv eval_nat_numeral)

lemma less_2_cases: "q < Suc (Suc 0) \<Longrightarrow> q = 0 \<or> q = 1"
  by auto

lemma less_4_cases: "q < Suc (Suc (Suc (Suc 0))) \<Longrightarrow> q = 0 \<or> q = 1 \<or> q = 2 \<or> q = 3"
  by auto

text \<open>
  The interface of a block size: the two operations on arrays of \<open>n\<close> bytes refine doubling and
  halving of the field with polynomial \<open>C\<close>.  Everything else follows from the field.
\<close>

locale gf_block =
  fixes dbl inv_dbl :: "bytes \<Rightarrow> bytes outcome" and n :: nat and C :: u64 and field :: "'a::len word itself"
  assumes dbl_refines:
      "length b = n \<Longrightarrow> \<exists>r. dbl b = Return r \<and> length r = n \<and>
         (from_be_bytes r :: 'a word) = gf_dbl C (from_be_bytes b)"
    and inv_dbl_refines:
      "length b = n \<Longrightarrow> \<exists>r. inv_dbl b = Return r \<and> length r = n \<and>
         (from_be_bytes r :: 'a word) = gf_inv_dbl C (from_be_bytes b)"
    and width: "8 * n = LENGTH('a)" "64 \<le> LENGTH('a)"
    and odd_poly: "bit C 0"
begin

lemma from_be_bytes_inj:
  "length x = n \<Longrightarrow> length y = n \<Longrightarrow> from_be_bytes x = (from_be_bytes y :: 'a word) \<Longrightarrow> x = y"
  using to_be_bytes_from_be_bytes width(1) by metis

lemma inv_dbl_dbl: "length b = n \<Longrightarrow> and_then (dbl b) inv_dbl = Return b"
  using dbl_refines [of b] inv_dbl_refines from_be_bytes_inj gf_inv_dbl_gf_dbl [OF odd_poly width(2)]
  by (metis and_then.simps(2))

lemma dbl_inv_dbl: "length b = n \<Longrightarrow> and_then (inv_dbl b) dbl = Return b"
  using inv_dbl_refines [of b] dbl_refines from_be_bytes_inj gf_dbl_gf_inv_dbl [OF odd_poly width(2)]
  by (metis and_then.simps(2))

lemma dbl_poly:
  assumes "length b = n"
  shows "\<exists>r. dbl b = Return r \<and> length r = n \<and>
           uint (from_be_bytes r :: 'a word) =
             poly_reduce (8 * n) (uint C) (push_bit 1 (uint (from_be_bytes b :: 'a word)))"
  using dbl_refines [OF assms] gf_dbl_poly [OF width(2), of C "from_be_bytes b"] width(1) by metis

end

interpretation gf64: gf_block dbl_8 inv_dbl_8 8 C64 "TYPE(64 word)"
proof
  fix b :: bytes assume "length b = 8"
  then have "length b = 8 * 1" by simp
  then obtain ws :: "u64 list" where "b = concat (map to_be_bytes ws)" "length ws = 1" by (rule block_limbs)
  then obtain v0 where b: "b = to_be_bytes (v0 :: u64)" by (auto simp: length_Suc_conv)
  show "\<exists>r. dbl_8 b = Return r \<and> length r = 8 \<and> (from_be_bytes r :: u64) = gf_dbl C64 (from_be_bytes b)"
    by (simp add: b dbl_8_limbs from_be_bytes_to_be_bytes gf_dbl_def)
  show "\<exists>r. inv_dbl_8 b = Return r \<and> length r = 8 \<and> (from_be_bytes r :: u64) = gf_inv_dbl C64 (from_be_bytes b)"
    by (simp add: b inv_dbl_8_limbs from_be_bytes_to_be_bytes gf_inv_dbl_def)
qed (simp_all add: C64_def)

interpretation gf128: gf_block dbl_16 inv_dbl_16 16 C128 "TYPE(128 word)"
proof
  fix b :: bytes assume "length b = 16"
  then have "length b = 8 * 2" by simp
  then obtain ws :: "u64 list" where "b = concat (map to_be_bytes ws)" "length ws = 2" by (rule block_limbs)
  then obtain v0 v1 where b: "b = to_be_bytes (v0 :: u64) @ to_be_bytes (v1 :: u64)"
    by (auto simp: length_Suc_conv numeral_2_eq_2)
  have abs: "(from_be_bytes (to_be_bytes x0 @ to_be_bytes x1) :: u128) = limbs_word [x1, x0]" for x0 x1 :: u64
    by (simp add: limbs_word_def)
  show "\<exists>r. dbl_16 b = Return r \<and> length r = 16 \<and> (from_be_bytes r :: u128) = gf_dbl C128 (from_be_bytes b)"
    unfolding b dbl_16_limbs
    by (auto simp: abs simp del: push_bit_of_1 intro!: limbs_dbl dest!: less_2_cases)
  show "\<exists>r. inv_dbl_16 b = Return r \<and> length r = 16 \<and> (from_be_bytes r :: u128) = gf_inv_dbl C128 (from_be_bytes b)"
    unfolding b inv_dbl_16_limbs
    by (auto simp: abs simp del: push_bit_of_1 intro!: limbs_inv_dbl dest!: less_2_cases)
qed (simp_all add: C128_def)

interpretation gf256: gf_block dbl_32 inv_dbl_32 32 C256 "TYPE(256 word)"
proof
  fix b :: bytes assume "length b = 32"
  then have "length b = 8 * 4" by simp
  then obtain ws :: "u64 list" where ws: "b = concat (map to_be_bytes ws)" "length ws = 4" by (rule block_limbs)
  obtain v0 v1 v2 v3 where "ws = [v0, v1, v2, v3]" using ws(2) by (rule length_4_cases)
  then have b: "b = to_be_bytes v0 @ to_be_bytes v1 @ to_be_bytes v2 @ to_be_bytes v3" using ws(1) by simp
  have abs: "(from_be_bytes (to_be_bytes x0 @ to_be_bytes x1 @ to_be_bytes x2 @ to_be_bytes x3) :: 256 word) =
      limbs_word [x3, x2, x1, x0]" for x0 x1 x2 x3 :: u64
    by (simp add: limbs_word_def)
  show "\<exists>r. dbl_32 b = Return r \<and> length r = 32 \<and> (from_be_bytes r :: 256 word) = gf_dbl C256 (from_be_bytes b)"
    unfolding b dbl_32_limbs
    by (auto simp: abs simp del: push_bit_of_1 intro!: limbs_dbl dest!: less_4_cases)
  show "\<exists>r. inv_dbl_32 b = Return r \<and> length r = 32 \<and> (from_be_bytes r :: 256 word) = gf_inv_dbl C256 (from_be_bytes b)"
    unfolding b inv_dbl_32_limbs
    by (auto simp: abs simp del: push_bit_of_1 intro!: limbs_inv_dbl dest!: less_4_cases)
qed (simp_all add: C256_def)

section \<open>Properties\<close>

text \<open>
  (C21) Doubling is multiplication by x in the field.  For blocks of 8, 16 and 32 bytes \<open>dbl\<close> returns
  without overflow, and the result, read as a big-endian polynomial over GF(2), is x times the
  input reduced by the polynomial x^n + C of the block size.
\<close>

theorem dbl_multiplies_by_x:
  assumes "length b8 = 8" and "length b16 = 16" and "length b32 = 32"
  shows "\<exists>r8 r16 r32. dbl_8 b8 = Return r8 \<and> dbl_16 b16 = Return r16 \<and> dbl_32 b32 = Return r32 \<and>
           length r8 = 8 \<and> length r16 = 16 \<and> length r32 = 32 \<and>
           uint (from_be_bytes r8 :: 64 word) =
             poly_reduce 64 0x1b (push_bit 1 (uint (from_be_bytes b8 :: 64 word))) \<and>
           uint (from_be_bytes r16 :: 128 word) =
             poly_reduce 128 0x87 (push_bit 1 (uint (from_be_bytes b16 :: 128 word))) \<and>
           uint (from_be_bytes r32 :: 256 word) =
             poly_reduce 256 0x425 (push_bit 1 (uint (from_be_bytes b32 :: 256 word)))"
proof -
  have "uint C64 = 0x1b" "uint C128 = 0x87" "uint C256 = 0x425"
    by (simp_all add: C64_def C128_def C256_def)
  then show ?thesis
    using gf64.dbl_poly [OF assms(1)] gf128.dbl_poly [OF assms(2)] gf256.dbl_poly [OF assms(3)]
    by auto
qed

theorem dbl_multiplies_by_x_witness:
  "\<exists>r8 r16 r32. dbl_8 (replicate 8 0xff) = Return r8 \<and> dbl_16 (replicate 16 0x80) = Return r16 \<and>
     dbl_32 (replicate 32 1) = Return r32 \<and> length r8 = 8 \<and> length r16 = 16 \<and> length r32 = 32 \<and>
     uint (from_be_bytes r8 :: 64 word) =
       poly_reduce 64 0x1b (push_bit 1 (uint (from_be_bytes (replicate 8 0xff) :: 64 word))) \<and>
     uint (from_be_bytes r16 :: 128 word) =
       poly_reduce 128 0x87 (push_bit 1 (uint (from_be_bytes (replicate 16 0x80) :: 128 word))) \<and>
     uint (from_be_bytes r32 :: 256 word) =
       poly_reduce 256 0x425 (push_bit 1 (uint (from_be_bytes (replicate 32 1) :: 256 word)))"
  by (rule dbl_multiplies_by_x) simp_all

text \<open>
  (C32) \<open>inv_dbl\<close> is the inverse of \<open>dbl\<close> on both sides, for all three block sizes.
\<close>

theorem inv_dbl_inverse:
  assumes "length b8 = 8" and "length b16 = 16" and "length b32 = 32"
  shows "and_then (dbl_8 b8) inv_dbl_8 = Return b8 \<and> and_then (inv_dbl_8 b8) dbl_8 = Return b8 \<and>
         and_then (dbl_16 b16) inv_dbl_16 = Return b16 \<and> and_then (inv_dbl_16 b16) dbl_16 = Return b16 \<and>
         and_then (dbl_32 b32) inv_dbl_32 = Return b32 \<and> and_then (inv_dbl_32 b32) dbl_32 = Return b32"
  using gf64.inv_dbl_dbl gf64.dbl_inv_dbl gf128.inv_dbl_dbl gf128.dbl_inv_dbl
    gf256.inv_dbl_dbl gf256.dbl_inv_dbl assms
  by blast

theorem inv_dbl_inverse_witness:
  "and_then (dbl_8 (replicate 8 1)) inv_dbl_8 = Return (replicate 8 1) \<and>
   and_then (inv_dbl_8 (replicate 8 1)) dbl_8 = Return (replicate 8 1) \<and>
   and_then (dbl_16 (replicate 16 2)) inv_dbl_16 = Return (replicate 16 2) \<and>
   and_then (inv_dbl_16 (replicate 16 2)) dbl_16 = Return (replicate 16 2) \<and>
   and_then (dbl_32 (replicate 32 3)) inv_dbl_32 = Return (replicate 32 3) \<and>
   and_then (inv_dbl_32 (replicate 32 3)) dbl_32 = Return (replicate 32 3)"
  by (rule inv_dbl_inverse) simp_all

end
