(* ===== verification/Cmov.thy ===== *)
theory Cmov
  imports Rust_Prelude
begin

text \<open>
  The crate \<^verbatim>\<open>cmov\<close>: conditional moves.  Three backends (\<^verbatim>\<open>portable.rs\<close>, \<^verbatim>\<open>x86.rs\<close>, \<^verbatim>\<open>aarch64.rs\<close>)
  implement \<open>Cmov\<close> for \<open>u16\<close>, \<open>u32\<close> and \<open>u64\<close>; \<^verbatim>\<open>lib.rs\<close> builds \<open>u8\<close> and \<open>u128\<close> on whichever is
  compiled in.  A method \<open>fn cmovz(&mut self, value, condition)\<close> returns the new \<open>self\<close>.

  For the inline assembly, an operand of a type narrower than its register leaves the upper
  bits of the register undefined; these bits are an argument of the model.
\<close>

section \<open>Portable backend\<close>

definition is_non_zero :: "u8 \<Rightarrow> u64" where
  "is_non_zero condition =
     (let SHIFT_BITS = 8 - 1; condition = (ucast condition :: u64)
      in drop_bit SHIFT_BITS (condition OR (NOT condition + 1)) AND 1)"

definition portable_cmovz_u64 :: "u64 \<Rightarrow> u64 \<Rightarrow> u8 \<Rightarrow> u64" where
  "portable_cmovz_u64 self value condition =
     (let mask = (1 XOR is_non_zero condition) - 1 in (self AND mask) OR (value AND NOT mask))"

definition portable_cmovnz_u64 :: "u64 \<Rightarrow> u64 \<Rightarrow> u8 \<Rightarrow> u64" where
  "portable_cmovnz_u64 self value condition =
     (let mask = is_non_zero condition - 1 in (self AND mask) OR (value AND NOT mask))"

definition portable_cmovz_u32 :: "u32 \<Rightarrow> u32 \<Rightarrow> u8 \<Rightarrow> u32" where
  "portable_cmovz_u32 self value condition =
     ucast (portable_cmovz_u64 (ucast self) (ucast value) condition)"

definition portable_cmovnz_u32 :: "u32 \<Rightarrow> u32 \<Rightarrow> u8 \<Rightarrow> u32" where
  "portable_cmovnz_u32 self value condition =
     ucast (portable_cmovnz_u64 (ucast self) (ucast value) condition)"

definition portable_cmovz_u16 :: "u16 \<Rightarrow> u16 \<Rightarrow> u8 \<Rightarrow> u16" where
  "portable_cmovz_u16 self value condition =
     ucast (portable_cmovz_u64 (ucast self) (ucast value) condition)"

definition portable_cmovnz_u16 :: "u16 \<Rightarrow> u16 \<Rightarrow> u8 \<Rightarrow> u16" where
  "portable_cmovnz_u16 self value condition =
     ucast (portable_cmovnz_u64 (ucast self) (ucast value) condition)"

section \<open>Registers\<close>

text \<open>A 64-bit register holding \<open>v\<close> in its low bits; \<open>junk\<close> supplies the undefined upper bits.\<close>

definition reg_in :: "u64 \<Rightarrow> 'a::len word \<Rightarrow> u64" where
  "reg_in junk v = push_bit LENGTH('a) junk OR ucast v"

lemma ucast_reg_in:
  assumes "LENGTH('a) \<le> LENGTH('b)" "LENGTH('b) \<le> 64"
  shows "(ucast (ucast (reg_in junk (v :: 'a::len word)) :: 'b::len word) :: 'a word) = v"
proof (rule bit_word_eqI)
  fix n assume "n < LENGTH('a)"
  then show "bit (ucast (ucast (reg_in junk v) :: 'b word) :: 'a word) n = bit v n"
    using assms by (simp add: reg_in_def bit_simps)
qed

section \<open>x86 backend\<close>

text \<open>
  The macro \<open>cmov!\<close>: \<open>test {0}, {0}\<close> on the byte register of the condition sets the zero flag, then
  \<open>cmovz\<close> or \<open>cmovnz\<close> in the 32-bit (\<open>e\<close>) or 64-bit (\<open>r\<close>) form.  The 32-bit form clears the upper
  half of its destination whether or not it moves.
\<close>

definition x86_test :: "u8 \<Rightarrow> bool" where
  "x86_test condition \<longleftrightarrow> condition AND condition = 0"

definition x86_cmov_e :: "bool \<Rightarrow> u64 \<Rightarrow> u64 \<Rightarrow> u64" where
  "x86_cmov_e move dst src = ucast (if move then ucast src else ucast dst :: u32)"

definition x86_cmov_r :: "bool \<Rightarrow> u64 \<Rightarrow> u64 \<Rightarrow> u64" where
  "x86_cmov_r move dst src = (if move then src else dst)"

definition x86_cmovz_u16 :: "u64 \<times> u64 \<Rightarrow> u16 \<Rightarrow> u16 \<Rightarrow> u8 \<Rightarrow> u16" where
  "x86_cmovz_u16 junk self value condition =
     ucast (x86_cmov_e (x86_test condition) (reg_in (fst junk) self) (reg_in (snd junk) value))"

definition x86_cmovnz_u16 :: "u64 \<times> u64 \<Rightarrow> u16 \<Rightarrow> u16 \<Rightarrow> u8 \<Rightarrow> u16" where
  "x86_cmovnz_u16 junk self value condition =
     ucast (x86_cmov_e (\<not> x86_test condition) (reg_in (fst junk) self) (reg_in (snd junk) value))"

definition x86_cmovz_u32 :: "u64 \<times> u64 \<Rightarrow> u32 \<Rightarrow> u32 \<Rightarrow> u8 \<Rightarrow> u32" where
  "x86_cmovz_u32 junk self value condition =
     ucast (x86_cmov_e (x86_test condition) (reg_in (fst junk) self) (reg_in (snd junk) value))"

definition x86_cmovnz_u32 :: "u64 \<times> u64 \<Rightarrow> u32 \<Rightarrow> u32 \<Rightarrow> u8 \<Rightarrow> u32" where
  "x86_cmovnz_u32 junk self value condition =
     ucast (x86_cmov_e (\<not> x86_test condition) (reg_in (fst junk) self) (reg_in (snd junk) value))"

definition x86_cmovz_u64 :: "u64 \<Rightarrow> u64 \<Rightarrow> u8 \<Rightarrow> u64" where
  "x86_cmovz_u64 self value condition = x86_cmov_r (x86_test condition) self value"

definition x86_cmovnz_u64 :: "u64 \<Rightarrow> u64 \<Rightarrow> u8 \<Rightarrow> u64" where
  "x86_cmovnz_u64 self value condition = x86_cmov_r (\<not> x86_test condition) self value"

section \<open>aarch64 backend\<close>

text \<open>
  The macro \<open>csel!\<close>: \<open>cmp {0:w}, 0\<close> or \<open>cmp {0:x}, 0\<close> on the register of the condition sets the
  flag EQ, then \<open>csel\<close> takes the second operand if the flag condition holds and the third otherwise.
  The condition is a \<open>u8\<close> in a full register.
\<close>

record csel_junk =
  j_condition :: u64
  j_value :: u64
  j_self :: u64

definition cmp_w :: "u64 \<Rightarrow> bool" where
  "cmp_w r \<longleftrightarrow> (ucast r :: u32) = 0"

definition cmp_x :: "u64 \<Rightarrow> bool" where
  "cmp_x r \<longleftrightarrow> r = 0"

definition csel_w :: "bool \<Rightarrow> u64 \<Rightarrow> u64 \<Rightarrow> u64" where
  "csel_w cond n m = ucast (if cond then ucast n else ucast m :: u32)"

definition csel_x :: "bool \<Rightarrow> u64 \<Rightarrow> u64 \<Rightarrow> u64" where
  "csel_x cond n m = (if cond then n else m)"

definition aarch64_cmovz_u16 :: "csel_junk \<Rightarrow> u16 \<Rightarrow> u16 \<Rightarrow> u8 \<Rightarrow> u16" where
  "aarch64_cmovz_u16 j self value condition =
     ucast (csel_w (cmp_w (reg_in (j_condition j) condition)) (reg_in (j_value j) value) (reg_in (j_self j) self))"

definition aarch64_cmovnz_u16 :: "csel_junk \<Rightarrow> u16 \<Rightarrow> u16 \<Rightarrow> u8 \<Rightarrow> u16" where
  "aarch64_cmovnz_u16 j self value condition =
     ucast (csel_w (\<not> cmp_w (reg_in (j_condition j) condition)) (reg_in (j_value j) value) (reg_in (j_self j) self))"

definition aarch64_cmovz_u32 :: "csel_junk \<Rightarrow> u32 \<Rightarrow> u32 \<Rightarrow> u8 \<Rightarrow> u32" where
  "aarch64_cmovz_u32 j self value condition =
     ucast (csel_w (cmp_w (reg_in (j_condition j) condition)) (reg_in (j_value j) value) (reg_in (j_self j) self))"

definition aarch64_cmovnz_u32 :: "csel_junk \<Rightarrow> u32 \<Rightarrow> u32 \<Rightarrow> u8 \<Rightarrow> u32" where
  "aarch64_cmovnz_u32 j self value condition =
     ucast (csel_w (\<not> cmp_w (reg_in (j_condition j) condition)) (reg_in (j_value j) value) (reg_in (j_self j) self))"

definition aarch64_cmovz_u64 :: "csel_junk \<Rightarrow> u64 \<Rightarrow> u64 \<Rightarrow> u8 \<Rightarrow> u64" where
  "aarch64_cmovz_u64 j self value condition =
     csel_x (cmp_x (reg_in (j_condition j) condition)) value self"

definition aarch64_cmovnz_u64 :: "csel_junk \<Rightarrow> u64 \<Rightarrow> u64 \<Rightarrow> u8 \<Rightarrow> u64" where
  "aarch64_cmovnz_u64 j self value condition =
     csel_x (\<not> cmp_x (reg_in (j_condition j) condition)) value self"

section \<open>The wrappers of lib.rs\<close>

definition cmovz_u8 :: "(u16 \<Rightarrow> u16 \<Rightarrow> u8 \<Rightarrow> u16) \<Rightarrow> u8 \<Rightarrow> u8 \<Rightarrow> u8 \<Rightarrow> u8" where
  "cmovz_u8 cmovz_u16 self value condition =
     (let tmp = ucast self; tmp = cmovz_u16 tmp (ucast value) condition in ucast tmp)"

definition cmovnz_u8 :: "(u16 \<Rightarrow> u16 \<Rightarrow> u8 \<Rightarrow> u16) \<Rightarrow> u8 \<Rightarrow> u8 \<Rightarrow> u8 \<Rightarrow> u8" where
  "cmovnz_u8 cmovnz_u16 self value condition =
     (let tmp = ucast self; tmp = cmovnz_u16 tmp (ucast value) condition in ucast tmp)"

definition u64_MAX :: u64 where "u64_MAX = - 1"

definition cmovz_u128 :: "(u64 \<Rightarrow> u64 \<Rightarrow> u8 \<Rightarrow> u64) \<Rightarrow> u128 \<Rightarrow> u128 \<Rightarrow> u8 \<Rightarrow> u128" where
  "cmovz_u128 cmovz_u64 self value condition =
     (let lo = ucast (self AND ucast u64_MAX);
          hi = ucast (drop_bit 64 self);
          lo = cmovz_u64 lo (ucast (value AND ucast u64_MAX)) condition;
          hi = cmovz_u64 hi (ucast (drop_bit 64 value)) condition
      in ucast lo OR push_bit 64 (ucast hi))"

definition cmovnz_u128 :: "(u64 \<Rightarrow> u64 \<Rightarrow> u8 \<Rightarrow> u64) \<Rightarrow> u128 \<Rightarrow> u128 \<Rightarrow> u8 \<Rightarrow> u128" where
  "cmovnz_u128 cmovnz_u64 self value condition =
     (let lo = ucast (self AND ucast u64_MAX);
          hi = ucast (drop_bit 64 self);
          lo = cmovnz_u64 lo (ucast (value AND ucast u64_MAX)) condition;
          hi = cmovnz_u64 hi (ucast (drop_bit 64 value)) condition
      in ucast lo OR push_bit 64 (ucast hi))"

section \<open>Contract of a backend\<close>

text \<open>The trait's promise, and the interface the wrappers rely on.\<close>

definition cmovz_spec :: "'a \<Rightarrow> 'a \<Rightarrow> u8 \<Rightarrow> 'a" where
  "cmovz_spec self value condition = (if condition = 0 then value else self)"

definition cmovnz_spec :: "'a \<Rightarrow> 'a \<Rightarrow> u8 \<Rightarrow> 'a" where
  "cmovnz_spec self value condition = (if condition \<noteq> 0 then value else self)"

locale cmov_backend =
  fixes cmovz16 cmovnz16 :: "u16 \<Rightarrow> u16 \<Rightarrow> u8 \<Rightarrow> u16"
    and cmovz32 cmovnz32 :: "u32 \<Rightarrow> u32 \<Rightarrow> u8 \<Rightarrow> u32"
    and cmovz64 cmovnz64 :: "u64 \<Rightarrow> u64 \<Rightarrow> u8 \<Rightarrow> u64"
  assumes cmovz16: "cmovz16 = cmovz_spec" and cmovnz16: "cmovnz16 = cmovnz_spec"
    and cmovz32: "cmovz32 = cmovz_spec" and cmovnz32: "cmovnz32 = cmovnz_spec"
    and cmovz64: "cmovz64 = cmovz_spec" and cmovnz64: "cmovnz64 = cmovnz_spec"
begin

lemma u8_ok: "cmovz_u8 cmovz16 = cmovz_spec" "cmovnz_u8 cmovnz16 = cmovnz_spec"
  by (auto simp: fun_eq_iff cmovz_u8_def cmovnz_u8_def cmovz16 cmovnz16 cmovz_spec_def cmovnz_spec_def)

lemma halves: "ucast (ucast (x AND ucast u64_MAX) :: u64) OR push_bit 64 (ucast (ucast (drop_bit 64 x) :: u64)) = (x :: u128)"
  by (rule bit_word_eqI) (auto simp: u64_MAX_def bit_simps)

lemma u128_ok: "cmovz_u128 cmovz64 = cmovz_spec" "cmovnz_u128 cmovnz64 = cmovnz_spec"
  by (auto simp: fun_eq_iff cmovz_u128_def cmovnz_u128_def cmovz64 cmovnz64 cmovz_spec_def cmovnz_spec_def
      Let_def halves)

end

section \<open>The backends keep it\<close>

text \<open>
  The shift by 7 (not 63) is enough because the condition is a byte: \<open>x OR -x\<close> has every bit above
  the lowest set bit of \<open>x\<close>, so bit 7 too.
\<close>

lemma bit_7_or_neg:
  assumes "x \<noteq> 0" "uint (x :: u64) < 256"
  shows "bit x 7 \<or> bit (- x) 7"
proof -
  have bit7: "bit w 7 \<longleftrightarrow> odd (uint w div 128)" for w :: u64
    using bit_uint_iff [of w 7] by (simp add: bit_iff_odd)
  have pos: "0 < uint x" using assms(1) by (simp add: order.not_eq_order_implies_strict uint_0_iff)
  then have neg: "uint (- x) = 2 ^ 64 - uint x"
    using assms(2) zmod_zminus1_eq_if [of "uint x" "2 ^ 64"]
    by (simp add: uint_word_ariths)
  show ?thesis
  proof (cases "uint x < 128")
    case True
    with pos neg have "uint (- x) div 128 = 2 ^ 57 - 1" by simp
    then show ?thesis by (simp add: bit7)
  next
    case False
    with assms(2) have "uint x div 128 = 1" by simp
    then show ?thesis by (simp add: bit7)
  qed
qed

lemma is_non_zero_eq: "is_non_zero c = of_bool (c \<noteq> 0)"
proof (cases "c = 0")
  case False
  define x :: u64 where "x = ucast c"
  have "x \<noteq> 0" "uint x < 256"
  proof -
    have u: "uint x = uint c" by (simp add: x_def uint_ucast_up)
    have "uint c < 2 ^ 8" by (rule order_less_le_trans [OF unsigned_less]) simp
    then show "uint x < 256" using u by simp
    show "x \<noteq> 0" using False by (simp add: x_def)
  qed
  then have "bit (x OR - x) 7" using bit_7_or_neg by (auto simp: bit_or_iff)
  then have "drop_bit 7 (x OR - x) AND 1 = 1"
    by (intro bit_word_eqI) (auto simp: bit_simps bit_1_iff)
  then show ?thesis
    using False by (simp add: is_non_zero_def x_def [symmetric] flip: minus_eq_not_plus_1)
qed (simp add: is_non_zero_def)

lemma portable_u64: "portable_cmovz_u64 = cmovz_spec" "portable_cmovnz_u64 = cmovnz_spec"
  by (auto simp: fun_eq_iff portable_cmovz_u64_def portable_cmovnz_u64_def is_non_zero_eq
      cmovz_spec_def cmovnz_spec_def)

interpretation portable: cmov_backend
  portable_cmovz_u16 portable_cmovnz_u16 portable_cmovz_u32 portable_cmovnz_u32
  portable_cmovz_u64 portable_cmovnz_u64
  by unfold_locales
     (auto simp: fun_eq_iff portable_u64 portable_cmovz_u16_def portable_cmovnz_u16_def
        portable_cmovz_u32_def portable_cmovnz_u32_def cmovz_spec_def cmovnz_spec_def)

lemma ucast_reg_in_32 [simp]:
  "ucast (ucast (ucast (reg_in junk (v :: u16)) :: u32) :: u64) = v"
  "ucast (reg_in junk (w :: u32)) = w"
  by (rule bit_word_eqI, simp add: reg_in_def bit_simps)+

interpretation x86: cmov_backend
  "x86_cmovz_u16 junk" "x86_cmovnz_u16 junk" "x86_cmovz_u32 junk" "x86_cmovnz_u32 junk"
  x86_cmovz_u64 x86_cmovnz_u64
  for junk
  by unfold_locales
     (auto simp: fun_eq_iff x86_cmovz_u16_def x86_cmovnz_u16_def x86_cmovz_u32_def x86_cmovnz_u32_def
        x86_cmovz_u64_def x86_cmovnz_u64_def x86_cmov_e_def x86_cmov_r_def x86_test_def
        cmovz_spec_def cmovnz_spec_def)

text \<open>On aarch64 the contract holds when the compiler zero-extends the condition.\<close>

lemma cmp_zero_extended: "cmp_w (reg_in 0 c) \<longleftrightarrow> c = 0" "cmp_x (reg_in 0 c) \<longleftrightarrow> (c :: u8) = 0"
proof -
  have "(ucast (ucast c :: u64) :: u32) = ucast c" by (rule bit_word_eqI) (auto simp: bit_simps)
  then show "cmp_w (reg_in 0 c) \<longleftrightarrow> c = 0" "cmp_x (reg_in 0 c) \<longleftrightarrow> c = 0"
    by (simp_all add: cmp_w_def cmp_x_def reg_in_def)
qed

interpretation aarch64: cmov_backend
  "aarch64_cmovz_u16 \<lparr>j_condition = 0, j_value = jv, j_self = js\<rparr>"
  "aarch64_cmovnz_u16 \<lparr>j_condition = 0, j_value = jv, j_self = js\<rparr>"
  "aarch64_cmovz_u32 \<lparr>j_condition = 0, j_value = jv, j_self = js\<rparr>"
  "aarch64_cmovnz_u32 \<lparr>j_condition = 0, j_value = jv, j_self = js\<rparr>"
  "aarch64_cmovz_u64 \<lparr>j_condition = 0, j_value = jv, j_self = js\<rparr>"
  "aarch64_cmovnz_u64 \<lparr>j_condition = 0, j_value = jv, j_self = js\<rparr>"
  for jv js
  by unfold_locales
     (auto simp: fun_eq_iff aarch64_cmovz_u16_def aarch64_cmovnz_u16_def aarch64_cmovz_u32_def
        aarch64_cmovnz_u32_def aarch64_cmovz_u64_def aarch64_cmovnz_u64_def csel_w_def csel_x_def
        cmp_zero_extended cmovz_spec_def cmovnz_spec_def)

section \<open>Properties\<close>

text \<open>
  (C22) The portable and the x86 backend implement the same function for every width from \<open>u8\<close> to
  \<open>u128\<close>: \<open>cmovz\<close> gives \<open>value\<close> exactly when the condition is zero and \<open>cmovnz\<close> exactly when it is
  not, for every condition byte and, on x86, for every content of the undefined register bits.
\<close>

theorem cmov_correct:
  "cmovz_u8 portable_cmovz_u16 self8 value8 c = (if c = 0 then value8 else self8) \<and>
   cmovnz_u8 portable_cmovnz_u16 self8 value8 c = (if c = 0 then self8 else value8) \<and>
   portable_cmovz_u16 self16 value16 c = (if c = 0 then value16 else self16) \<and>
   portable_cmovnz_u16 self16 value16 c = (if c = 0 then self16 else value16) \<and>
   portable_cmovz_u32 self32 value32 c = (if c = 0 then value32 else self32) \<and>
   portable_cmovnz_u32 self32 value32 c = (if c = 0 then self32 else value32) \<and>
   portable_cmovz_u64 self64 value64 c = (if c = 0 then value64 else self64) \<and>
   portable_cmovnz_u64 self64 value64 c = (if c = 0 then self64 else value64) \<and>
   cmovz_u128 portable_cmovz_u64 self128 value128 c = (if c = 0 then value128 else self128) \<and>
   cmovnz_u128 portable_cmovnz_u64 self128 value128 c = (if c = 0 then self128 else value128) \<and>
   cmovz_u8 (x86_cmovz_u16 j) = cmovz_u8 portable_cmovz_u16 \<and>
   cmovnz_u8 (x86_cmovnz_u16 j) = cmovnz_u8 portable_cmovnz_u16 \<and>
   x86_cmovz_u16 j = portable_cmovz_u16 \<and> x86_cmovnz_u16 j = portable_cmovnz_u16 \<and>
   x86_cmovz_u32 j = portable_cmovz_u32 \<and> x86_cmovnz_u32 j = portable_cmovnz_u32 \<and>
   x86_cmovz_u64 = portable_cmovz_u64 \<and> x86_cmovnz_u64 = portable_cmovnz_u64 \<and>
   cmovz_u128 x86_cmovz_u64 = cmovz_u128 portable_cmovz_u64 \<and>
   cmovnz_u128 x86_cmovnz_u64 = cmovnz_u128 portable_cmovnz_u64"
  unfolding portable.u8_ok portable.u128_ok x86.u8_ok x86.u128_ok
  unfolding portable.cmovz16 portable.cmovnz16 portable.cmovz32 portable.cmovnz32
    portable.cmovz64 portable.cmovnz64 x86.cmovz16 x86.cmovnz16 x86.cmovz32 x86.cmovnz32
    x86.cmovz64 x86.cmovnz64
  by (simp add: cmovz_spec_def cmovnz_spec_def)

text \<open>The comparison sees 24 or 56 of the undefined bits above the condition.\<close>

lemma bit_reg_in: "bit (reg_in junk (c :: u8)) n \<longleftrightarrow> n < 64 \<and> (if n < 8 then bit c n else bit junk (n - 8))"
  by (auto simp: reg_in_def bit_simps dest: bit_imp_le_length)

lemma low_bits_zero: "(\<forall>n < 8 + k. \<not> bit (reg_in junk (c :: u8)) n) \<longleftrightarrow> c = 0 \<and> take_bit k junk = 0" if "k \<le> 56"
proof -
  have "(\<forall>n < 8 + k. \<not> bit (reg_in junk c) n) \<longleftrightarrow> (\<forall>n < 8. \<not> bit c n) \<and> (\<forall>n < k. \<not> bit junk n)"
  proof (intro iffI conjI allI impI)
    fix n assume all: "\<forall>n < 8 + k. \<not> bit (reg_in junk c) n"
    show "\<not> bit c n" if "n < 8" using all [rule_format, of n] that by (simp add: bit_reg_in)
    show "\<not> bit junk n" if "n < k"
      using all [rule_format, of "8 + n"] that \<open>k \<le> 56\<close> by (simp add: bit_reg_in)
  next
    fix n assume "(\<forall>n < 8. \<not> bit c n) \<and> (\<forall>n < k. \<not> bit junk n)" "n < 8 + k"
    then show "\<not> bit (reg_in junk c) n" by (auto simp: bit_reg_in)
  qed
  moreover have "(\<forall>n < 8. \<not> bit c n) \<longleftrightarrow> c = 0" by (auto simp: bit_eq_iff dest: bit_imp_le_length)
  moreover have "(\<forall>n < k. \<not> bit junk n) \<longleftrightarrow> take_bit k junk = 0"
    using that by (auto simp: bit_eq_iff bit_take_bit_iff)
  ultimately show ?thesis by blast
qed

lemma cmp_reg_in:
  "cmp_w (reg_in junk (c :: u8)) \<longleftrightarrow> c = 0 \<and> take_bit 24 junk = 0"
  "cmp_x (reg_in junk c) \<longleftrightarrow> c = 0 \<and> take_bit 56 junk = 0"
proof -
  have "cmp_w r \<longleftrightarrow> (\<forall>n < 32. \<not> bit r n)" for r
    by (auto simp: cmp_w_def bit_eq_iff bit_ucast_iff dest: bit_imp_le_length)
  then show "cmp_w (reg_in junk c) \<longleftrightarrow> c = 0 \<and> take_bit 24 junk = 0" using low_bits_zero [of 24 junk c] by simp
  have "cmp_x r \<longleftrightarrow> (\<forall>n < 64. \<not> bit r n)" for r
    by (auto simp: cmp_x_def bit_eq_iff dest: bit_imp_le_length)
  then show "cmp_x (reg_in junk c) \<longleftrightarrow> c = 0 \<and> take_bit 56 junk = 0" using low_bits_zero [of 56 junk c] by simp
qed

lemma csel_widths:
  "ucast (csel_w cond (reg_in jv v16) (reg_in js s16)) = (if cond then v16 else s16 :: u16)"
  "ucast (csel_w cond (reg_in jv v32) (reg_in js s32)) = (if cond then v32 else s32 :: u32)"
  by (simp_all add: csel_w_def)

lemma selects_iff:
  fixes x y :: 'a
  assumes "x \<noteq> y"
  shows "((\<lambda>(s :: 'a) v c. if c = 0 \<and> P then v else s) = cmovz_spec \<longleftrightarrow> P) \<and>
    ((\<lambda>(s :: 'a) v c. if c = 0 \<and> P then s else v) = cmovnz_spec \<longleftrightarrow> P)"
proof (cases P)
  case True
  then show ?thesis by (auto simp: fun_eq_iff cmovz_spec_def cmovnz_spec_def)
next
  case False
  have "\<exists>s v c. s \<noteq> (cmovz_spec s v c :: 'a)" "\<exists>s v c. v \<noteq> (cmovnz_spec s v c :: 'a)"
    using assms by (auto simp: cmovz_spec_def cmovnz_spec_def intro!: exI [of _ 0])
  with False show ?thesis by (auto simp: fun_eq_iff)
qed

text \<open>
  (C38) The aarch64 backend relies on the undefined upper bits of the condition's register.  \<open>cmp\<close> looks at 32
  bits of the register for \<open>u8\<close>, \<open>u16\<close> and \<open>u32\<close> and at all 64 for \<open>u64\<close> and \<open>u128\<close>, and only
  8 of them are defined: the condition is taken for zero exactly if it is zero and the other bits that are compared, 24 or 56,
  are zero too.  So each width computes what the portable backend computes exactly if these bits are zero, whatever
  stands in the rest of the registers.
\<close>

theorem aarch64_needs_zero_extension:
  "let low = take_bit 24 (j_condition j) = 0; all = take_bit 56 (j_condition j) = 0 in
   (cmovz_u8 (aarch64_cmovz_u16 j) s8 v8 c = (if c = 0 \<and> low then v8 else s8) \<and>
    cmovnz_u8 (aarch64_cmovnz_u16 j) s8 v8 c = (if c = 0 \<and> low then s8 else v8) \<and>
    aarch64_cmovz_u16 j s16 v16 c = (if c = 0 \<and> low then v16 else s16) \<and>
    aarch64_cmovnz_u16 j s16 v16 c = (if c = 0 \<and> low then s16 else v16) \<and>
    aarch64_cmovz_u32 j s32 v32 c = (if c = 0 \<and> low then v32 else s32) \<and>
    aarch64_cmovnz_u32 j s32 v32 c = (if c = 0 \<and> low then s32 else v32) \<and>
    aarch64_cmovz_u64 j s64 v64 c = (if c = 0 \<and> all then v64 else s64) \<and>
    aarch64_cmovnz_u64 j s64 v64 c = (if c = 0 \<and> all then s64 else v64) \<and>
    cmovz_u128 (aarch64_cmovz_u64 j) s128 v128 c = (if c = 0 \<and> all then v128 else s128) \<and>
    cmovnz_u128 (aarch64_cmovnz_u64 j) s128 v128 c = (if c = 0 \<and> all then s128 else v128)) \<and>
   (aarch64_cmovz_u16 j = portable_cmovz_u16 \<longleftrightarrow> low) \<and> (aarch64_cmovnz_u16 j = portable_cmovnz_u16 \<longleftrightarrow> low) \<and>
   (aarch64_cmovz_u32 j = portable_cmovz_u32 \<longleftrightarrow> low) \<and> (aarch64_cmovnz_u32 j = portable_cmovnz_u32 \<longleftrightarrow> low) \<and>
   (aarch64_cmovz_u64 j = portable_cmovz_u64 \<longleftrightarrow> all) \<and> (aarch64_cmovnz_u64 j = portable_cmovnz_u64 \<longleftrightarrow> all)"
proof -
  let ?low = "take_bit 24 (j_condition j) = 0" and ?all = "take_bit 56 (j_condition j) = 0"
  have w: "aarch64_cmovz_u16 j = (\<lambda>s v c. if c = 0 \<and> ?low then v else s)"
      "aarch64_cmovnz_u16 j = (\<lambda>s v c. if c = 0 \<and> ?low then s else v)"
      "aarch64_cmovz_u32 j = (\<lambda>s v c. if c = 0 \<and> ?low then v else s)"
      "aarch64_cmovnz_u32 j = (\<lambda>s v c. if c = 0 \<and> ?low then s else v)"
      "aarch64_cmovz_u64 j = (\<lambda>s v c. if c = 0 \<and> ?all then v else s)"
      "aarch64_cmovnz_u64 j = (\<lambda>s v c. if c = 0 \<and> ?all then s else v)"
    by (simp_all add: fun_eq_iff aarch64_cmovz_u16_def aarch64_cmovnz_u16_def aarch64_cmovz_u32_def aarch64_cmovnz_u32_def
        aarch64_cmovz_u64_def aarch64_cmovnz_u64_def cmp_reg_in csel_widths csel_x_def)
  note iffs = selects_iff [of "0 :: u16" 1] selects_iff [of "0 :: u32" 1] selects_iff [of "0 :: u64" 1]
  show ?thesis
    unfolding Let_def w portable.cmovz16 portable.cmovnz16 portable.cmovz32 portable.cmovnz32 portable.cmovz64 portable.cmovnz64
    using iffs by (simp add: cmovz_u8_def cmovnz_u8_def cmovz_u128_def cmovnz_u128_def Let_def portable.halves)
qed

end
