(* ===== verification/Hex_Literal.thy ===== *)
theory Hex_Literal
  imports Rust_Prelude
begin

text \<open>
  The crate \<^verbatim>\<open>hex-literal\<close>: the procedural macro \<open>hex!\<close>, which turns string literals with hexadecimal
  digits, whitespace and comments into an array of bytes.  \<^verbatim>\<open>comments.rs\<close> removes comments with a
  finite state machine, \<^verbatim>\<open>lib.rs\<close> parses the digits and builds the token stream.

  Token streams come from the compiler's \<open>proc_macro\<close>; the model has their documented structure: a
  stream is a list of token trees, a literal is the text it prints as.
\<close>

section \<open>Token streams\<close>

datatype Delimiter = Parenthesis | Brace | Bracket | NoDelimiter

datatype TokenTree =
    Group Delimiter "TokenTree list"
  | Literal bytes
  | U8_Literal u8
  | Punct u8
  | Ident bytes

section \<open>Comments\<close>

datatype CommentState = Normal | PotentialComment | LineComment | BlockComment | PotentialBlockCommentEnd

record excluding_comments =
  ec_state :: CommentState
  ec_iter :: bytes

definition new_from_iter :: "bytes \<Rightarrow> excluding_comments" where
  "new_from_iter iter = \<lparr>ec_state = Normal, ec_iter = iter\<rparr>"

definition isolated_slash :: panic where
  "isolated_slash = Message ''encountered isolated `/`''"

definition not_terminated :: panic where
  "not_terminated = Message ''block comment not terminated with */''"

text \<open>ASCII: 47 is the slash, 42 the asterisk, 10 the line feed.\<close>

fun next_byte :: "CommentState \<Rightarrow> bytes \<Rightarrow> (u8 option \<times> excluding_comments) outcome" where
  "next_byte st [] = Return (None, \<lparr>ec_state = st, ec_iter = []\<rparr>)"
| "next_byte st (b # rest) =
     (case st of
        Normal \<Rightarrow>
          if b = 47 then next_byte PotentialComment rest
          else Return (Some b, \<lparr>ec_state = Normal, ec_iter = rest\<rparr>)
      | PotentialComment \<Rightarrow>
          if b = 47 then next_byte LineComment rest
          else if b = 42 then next_byte BlockComment rest
          else Panic isolated_slash
      | LineComment \<Rightarrow>
          if b = 10 then Return (Some 10, \<lparr>ec_state = Normal, ec_iter = rest\<rparr>)
          else next_byte LineComment rest
      | BlockComment \<Rightarrow>
          if b = 42 then next_byte PotentialBlockCommentEnd rest
          else next_byte BlockComment rest
      | PotentialBlockCommentEnd \<Rightarrow>
          if b = 47 then next_byte Normal rest
          else next_byte BlockComment rest)"

definition ec_next :: "excluding_comments \<Rightarrow> (u8 option \<times> excluding_comments) outcome" where
  "ec_next self =
     and_then (next_byte (ec_state self) (ec_iter self)) (\<lambda>(v, self).
       if v = None then
         case ec_state self of
           BlockComment \<Rightarrow> Panic not_terminated
         | PotentialBlockCommentEnd \<Rightarrow> Panic not_terminated
         | PotentialComment \<Rightarrow> Panic isolated_slash
         | _ \<Rightarrow> Return (v, self)
       else Return (v, self))"

lemma next_byte_shorter:
  "next_byte st bs = Return (Some v, self') \<Longrightarrow> length (ec_iter self') < length bs"
  by (induction st bs rule: next_byte.induct)
     (auto split: CommentState.split_asm if_splits simp: less_Suc_eq)

lemma ec_next_shorter:
  "ec_next self = Return (Some v, self') \<Longrightarrow> length (ec_iter self') < length (ec_iter self)"
  by (auto simp: ec_next_def split: if_splits CommentState.split_asm dest: next_byte_shorter)

text \<open>Collecting the bytes that remain.\<close>

function exclude_comments :: "excluding_comments \<Rightarrow> bytes outcome" where
  "exclude_comments self =
     and_then (ec_next self) (\<lambda>(v, self').
       case v of None \<Rightarrow> Return []
       | Some b \<Rightarrow> and_then (exclude_comments self') (\<lambda>bs. Return (b # bs)))"
  by auto
termination
  by (relation "measure (\<lambda>self. length (ec_iter self))") (auto dest: ec_next_shorter)

declare exclude_comments.simps [simp del]

section \<open>Hexadecimal digits\<close>

record token_tree_iter =
  tti_buf :: excluding_comments
  tti_is_punct :: bool

definition not_a_string :: panic where
  "not_a_string = Message ''expected string literal''"

text \<open>\<open>TokenTreeIter::new\<close>; 34 is the quotation mark.\<close>

definition tti_new :: "bytes \<Rightarrow> token_tree_iter outcome" where
  "tti_new buf =
     (if 2 \<le> length buf \<and> hd buf = 34 \<and> last buf = 34 then
        let buf = butlast buf in
        and_then (ec_next (new_from_iter buf)) (\<lambda>(_, iter).
          Return \<lparr>tti_buf = iter, tti_is_punct = False\<rparr>)
      else Panic not_a_string)"

definition invalid_character :: panic where
  "invalid_character = Message ''encountered invalid character''"

definition invalid_non_ascii :: panic where
  "invalid_non_ascii = Message ''encountered invalid non-ASCII character''"

function next_hex_val :: "excluding_comments \<Rightarrow> (u8 option \<times> excluding_comments) outcome" where
  "next_hex_val buf =
     and_then (ec_next buf) (\<lambda>(v, buf').
       case v of
         None \<Rightarrow> Return (None, buf')
       | Some v \<Rightarrow>
           if 48 \<le> v \<and> v \<le> 57 then Return (Some (v - 48), buf')
           else if 65 \<le> v \<and> v \<le> 70 then Return (Some (v - 55), buf')
           else if 97 \<le> v \<and> v \<le> 102 then Return (Some (v - 87), buf')
           else if v = 32 \<or> v = 13 \<or> v = 10 \<or> v = 9 then next_hex_val buf'
           else if v \<le> 127 then Panic invalid_character
           else Panic invalid_non_ascii)"
  by auto
termination
  by (relation "measure (\<lambda>buf. length (ec_iter buf))") (auto dest: ec_next_shorter)

declare next_hex_val.simps [simp del]

definition add_u8 :: "u8 \<Rightarrow> u8 \<Rightarrow> u8 outcome" where
  "add_u8 a b = (if unat a + unat b < 256 then Return (a + b) else Panic Overflow)"

definition odd_digits :: panic where
  "odd_digits = Message ''expected even number of hex characters''"

definition tti_next :: "token_tree_iter \<Rightarrow> (TokenTree option \<times> token_tree_iter) outcome" where
  "tti_next self =
     (if tti_is_punct self then
        Return (Some (Punct 44), self\<lparr>tti_is_punct := \<not> tti_is_punct self\<rparr>)
      else
        and_then (next_hex_val (tti_buf self)) (\<lambda>(p1, buf).
          case p1 of
            None \<Rightarrow> Return (None, self\<lparr>tti_buf := buf\<rparr>)
          | Some p1 \<Rightarrow>
              and_then (next_hex_val buf) (\<lambda>(p2, buf).
                case p2 of
                  None \<Rightarrow> Panic odd_digits
                | Some p2 \<Rightarrow>
                    and_then (add_u8 (push_bit 4 p1) p2) (\<lambda>val.
                      Return (Some (U8_Literal val),
                              self\<lparr>tti_buf := buf, tti_is_punct := \<not> tti_is_punct self\<rparr>)))))"

lemma next_hex_val_shorter:
  "next_hex_val buf = Return (Some v, buf') \<Longrightarrow> length (ec_iter buf') < length (ec_iter buf)"
proof (induction buf rule: next_hex_val.induct)
  case (1 buf)
  then obtain w b1 where w: "ec_next buf = Return (Some w, b1)"
    by (auto simp: next_hex_val.simps [of buf] split: option.split_asm)
  note len = ec_next_shorter [OF w]
  show ?case
  proof (cases "next_hex_val b1 = Return (Some v, buf')")
    case True
    then have "b1 = buf' \<or> length (ec_iter buf') < length (ec_iter b1)"
      using 1 w by (auto simp: next_hex_val.simps [of buf] split: if_splits)
    with len show ?thesis by auto
  next
    case False
    then show ?thesis
      using "1.prems" w len by (auto simp: next_hex_val.simps [of buf] split: if_splits)
  qed
qed

text \<open>\<open>out_ts.extend(iter)\<close> collects the tokens of an iterator.\<close>

definition tti_size :: "token_tree_iter \<Rightarrow> nat" where
  "tti_size self = 2 * length (ec_iter (tti_buf self)) + (if tti_is_punct self then 1 else 0)"

lemma tti_next_smaller: "tti_next self = Return (Some v, self') \<Longrightarrow> tti_size self' < tti_size self"
  by (fastforce simp: tti_next_def tti_size_def split: if_splits option.split_asm dest!: next_hex_val_shorter)

function tti_collect :: "token_tree_iter \<Rightarrow> TokenTree list outcome" where
  "tti_collect self =
     and_then (tti_next self) (\<lambda>(v, self').
       case v of None \<Rightarrow> Return []
       | Some t \<Rightarrow> and_then (tti_collect self') (\<lambda>ts. Return (t # ts)))"
  by auto
termination
  by (relation "measure tti_size") (auto dest: tti_next_smaller)

declare tti_collect.simps [simp del]

section \<open>The macro\<close>

text \<open>
  The loop of \<open>ignore_groups\<close>: \<open>tokens\<close> is the iterator over the original stream, \<open>input\<close> the
  stream to return.
\<close>

fun ignore_groups_loop :: "TokenTree list \<Rightarrow> TokenTree list \<Rightarrow> TokenTree list" where
  "ignore_groups_loop (Group NoDelimiter stream # tokens) input = ignore_groups_loop tokens stream"
| "ignore_groups_loop tokens input = input"

definition ignore_groups :: "TokenTree list \<Rightarrow> TokenTree list" where
  "ignore_groups input = ignore_groups_loop input input"

fun hex_tokens :: "TokenTree list \<Rightarrow> TokenTree list outcome" where
  "hex_tokens [] = Return []"
| "hex_tokens (Literal literal # tts) =
     and_then (tti_new literal) (\<lambda>iter.
     and_then (tti_collect iter) (\<lambda>out.
     and_then (hex_tokens tts) (\<lambda>rest. Return (out @ rest))))"
| "hex_tokens (unexpected # tts) = Panic not_a_string"

definition hex :: "TokenTree list \<Rightarrow> TokenTree list outcome" where
  "hex input = and_then (hex_tokens (ignore_groups input)) (\<lambda>out_ts. Return [Group Bracket out_ts])"

section \<open>Text with comments\<close>

text \<open>
  The text of a literal as a sequence of pieces: plain bytes, comments up to the end of the line, and block comments.  The
  rule for the body of a block comment is the one of the state machine: an asterisk takes the byte after it with it,
  which must not be a slash.  After the pieces the text may end inside a comment, or go on after a slash that starts
  no comment.
\<close>

datatype piece = Plain u8 | Line bytes | Block bytes

datatype ending = Complete | Open_Line bytes | Open_Block bytes bool | Isolated bytes

fun block_body :: "bytes \<Rightarrow> bool" where
  "block_body [] \<longleftrightarrow> True"
| "block_body [b] \<longleftrightarrow> b \<noteq> 42"
| "block_body (b # c # bs) \<longleftrightarrow> (if b = 42 then c \<noteq> 47 \<and> block_body bs else block_body (c # bs))"

fun piece_ok :: "piece \<Rightarrow> bool" where
  "piece_ok (Plain b) \<longleftrightarrow> b \<noteq> 47"
| "piece_ok (Line body) \<longleftrightarrow> 10 \<notin> set body"
| "piece_ok (Block body) \<longleftrightarrow> block_body body"

fun render :: "piece \<Rightarrow> bytes" where
  "render (Plain b) = [b]"
| "render (Line body) = 47 # 47 # body @ [10]"
| "render (Block body) = 47 # 42 # body @ [42, 47]"

fun strip :: "piece \<Rightarrow> bytes" where
  "strip (Plain b) = [b]"
| "strip (Line body) = [10]"
| "strip (Block body) = []"

fun ending_ok :: "ending \<Rightarrow> bool" where
  "ending_ok Complete \<longleftrightarrow> True"
| "ending_ok (Open_Line body) \<longleftrightarrow> 10 \<notin> set body"
| "ending_ok (Open_Block body star) \<longleftrightarrow> block_body body"
| "ending_ok (Isolated rest) \<longleftrightarrow> rest = [] \<or> hd rest \<noteq> 47 \<and> hd rest \<noteq> 42"

fun render_ending :: "ending \<Rightarrow> bytes" where
  "render_ending Complete = []"
| "render_ending (Open_Line body) = 47 # 47 # body"
| "render_ending (Open_Block body star) = 47 # 42 # body @ (if star then [42] else [])"
| "render_ending (Isolated rest) = 47 # rest"

fun ending_error :: "ending \<Rightarrow> panic option" where
  "ending_error Complete = None"
| "ending_error (Open_Line body) = None"
| "ending_error (Open_Block body star) = Some not_terminated"
| "ending_error (Isolated rest) = Some isolated_slash"

text \<open>What the iterator yields, and the panic it ends with if there is one.\<close>

function drain :: "excluding_comments \<Rightarrow> bytes \<times> panic option" where
  "drain self =
     (case ec_next self of
        Panic e \<Rightarrow> ([], Some e)
      | Return (None, _) \<Rightarrow> ([], None)
      | Return (Some b, self') \<Rightarrow> apfst ((#) b) (drain self'))"
  by auto
termination
  by (relation "measure (\<lambda>self. length (ec_iter self))") (auto dest: ec_next_shorter)

declare drain.simps [simp del]

lemma drain_ec_next:
  "ec_next self = Panic e \<Longrightarrow> drain self = ([], Some e)"
  "ec_next self = Return (None, self') \<Longrightarrow> drain self = ([], None)"
  "ec_next self = Return (Some b, self') \<Longrightarrow> drain self = apfst ((#) b) (drain self')"
  by (simp_all add: drain.simps [of self])

lemma drain_cong: "ec_next self = ec_next self' \<Longrightarrow> drain self = drain self'"
  by (simp add: drain.simps)

lemma exclude_comments_drain:
  "exclude_comments self = (case drain self of (bs, None) \<Rightarrow> Return bs | (bs, Some e) \<Rightarrow> Panic e)"
proof (induction self rule: exclude_comments.induct)
  case (1 self)
  show ?case
  proof (cases "ec_next self")
    case (Panic e)
    then show ?thesis by (simp add: exclude_comments.simps [of self] drain_ec_next)
  next
    case (Return p)
    obtain v self' where p: "p = (v, self')" by fastforce
    show ?thesis
    proof (cases v)
      case None
      then show ?thesis using Return p by (simp add: exclude_comments.simps [of self] drain_ec_next)
    next
      case (Some b)
      then show ?thesis
        using Return p 1 [OF Return p [symmetric] Some]
        by (auto simp: exclude_comments.simps [of self] drain_ec_next split: prod.splits option.splits)
    qed
  qed
qed

lemma next_byte_block: "block_body body \<Longrightarrow> next_byte BlockComment (body @ rest) = next_byte BlockComment rest"
  by (induction body rule: block_body.induct) (auto split: if_splits)

lemma next_byte_line:
  "10 \<notin> set body \<Longrightarrow> next_byte LineComment (body @ 10 # rest) = Return (Some 10, \<lparr>ec_state = Normal, ec_iter = rest\<rparr>)"
  by (induction body) auto

lemma next_byte_last_line:
  "10 \<notin> set body \<Longrightarrow> next_byte LineComment body = Return (None, \<lparr>ec_state = LineComment, ec_iter = []\<rparr>)"
  by (induction body) auto

lemma drain_ending:
  assumes "ending_ok e"
  shows "drain (new_from_iter (render_ending e)) = ([], ending_error e)"
proof (cases e)
  case Complete
  then show ?thesis by (simp add: drain.simps ec_next_def new_from_iter_def)
next
  case (Open_Line body)
  then show ?thesis
    using assms by (simp add: drain.simps ec_next_def new_from_iter_def next_byte_last_line)
next
  case (Open_Block body star)
  then have "ec_next (new_from_iter (render_ending e)) = Panic not_terminated"
    using assms next_byte_block [of body "[42]"] next_byte_block [of body "[]"]
    by (simp add: ec_next_def new_from_iter_def)
  then show ?thesis using Open_Block by (simp add: drain_ec_next)
next
  case (Isolated rest)
  then show ?thesis using assms by (cases rest) (simp_all add: drain.simps ec_next_def new_from_iter_def)
qed

lemma drain_pieces:
  assumes "\<forall>p \<in> set ps. piece_ok p" "ending_ok e"
  shows "drain (new_from_iter (concat (map render ps) @ render_ending e)) = (concat (map strip ps), ending_error e)"
  using assms(1)
proof (induction ps)
  case Nil
  then show ?case using drain_ending [OF assms(2)] by simp
next
  case (Cons p ps)
  let ?rest = "concat (map render ps) @ render_ending e"
  have IH: "drain (new_from_iter ?rest) = (concat (map strip ps), ending_error e)" using Cons by simp
  show ?case
  proof (cases p)
    case (Plain b)
    then have "ec_next (new_from_iter (render p @ ?rest)) = Return (Some b, new_from_iter ?rest)"
      using Cons.prems by (simp add: ec_next_def new_from_iter_def)
    from drain_ec_next(3) [OF this] IH Plain show ?thesis by simp
  next
    case (Line body)
    then have "ec_next (new_from_iter (render p @ ?rest)) = Return (Some 10, new_from_iter ?rest)"
      using Cons.prems next_byte_line [of body ?rest] by (simp add: ec_next_def new_from_iter_def)
    from drain_ec_next(3) [OF this] IH Line show ?thesis by simp
  next
    case (Block body)
    then have "ec_next (new_from_iter (render p @ ?rest)) = ec_next (new_from_iter ?rest)"
      using Cons.prems next_byte_block [of body "42 # 47 # ?rest"] by (simp add: ec_next_def new_from_iter_def)
    from drain_cong [OF this] IH Block show ?thesis by simp
  qed
qed

text \<open>Every text is such a sequence.\<close>

lemma block_split:
  "(\<exists>body rest. block_body body \<and> s = body @ 42 # 47 # rest) \<or>
   (\<exists>body star. block_body body \<and> s = body @ (if star then [42] else []))"
proof (induction s rule: block_body.induct)
  case 1
  have "block_body [] \<and> [] = [] @ (if False then [42] else [])" by simp
  then show ?case by blast
next
  case (2 b)
  have "block_body (if b = 42 then [] else [b]) \<and> [b] = (if b = 42 then [] else [b]) @ (if b = 42 then [42] else [])"
    by simp
  then show ?case by blast
next
  case (3 b c bs)
  show ?case
  proof (cases "b = 42")
    case True
    show ?thesis
    proof (cases "c = 47")
      case True
      then have "block_body [] \<and> b # c # bs = [] @ 42 # 47 # bs" using \<open>b = 42\<close> by simp
      then show ?thesis by blast
    next
      case False
      then have ext: "block_body body \<Longrightarrow> block_body (b # c # body)" for body using \<open>b = 42\<close> by simp
      from "3.IH"(1) [OF True] show ?thesis by (metis ext append_Cons)
    qed
  next
    case False
    then have ext: "block_body body \<Longrightarrow> block_body (b # body)" for body by (cases body) auto
    from "3.IH"(2) [OF False] show ?thesis by (metis ext append_Cons)
  qed
qed

lemma text_has_pieces:
  "\<exists>ps e. (\<forall>p \<in> set ps. piece_ok p) \<and> ending_ok e \<and> t = concat (map render ps) @ render_ending e"
proof (induction t rule: length_induct)
  case (1 t)
  have more: ?case if prem: "t = render p @ rest" "piece_ok p" "length rest < length t" for p rest
  proof -
    obtain ps e where "\<forall>p \<in> set ps. piece_ok p" "ending_ok e" "rest = concat (map render ps) @ render_ending e"
      using 1 prem(3) by blast
    then show ?thesis using prem(1,2) by (intro exI [of _ "p # ps"] exI [of _ e]) simp
  qed
  have ends: ?case if "t = render_ending e" "ending_ok e" for e
    using that by (intro exI [of _ "[]"] exI [of _ e]) simp
  consider "t = []" | b r where "t = b # r" "b \<noteq> 47" | "t = [47]" | s where "t = 47 # 47 # s"
    | s where "t = 47 # 42 # s" | c r where "t = 47 # c # r" "c \<noteq> 47" "c \<noteq> 42"
    by (metis list.exhaust)
  then show ?case
  proof cases
    case 1
    then show ?thesis using ends [of Complete] by simp
  next
    case (2 b r)
    then show ?thesis using more [of "Plain b" r] by simp
  next
    case 3
    then show ?thesis using ends [of "Isolated []"] by simp
  next
    case (4 s)
    show ?thesis
    proof (cases "10 \<in> set s")
      case True
      then obtain body rest where "s = body @ 10 # rest" "10 \<notin> set body" by (meson split_list_first)
      then show ?thesis using 4 more [of "Line body" rest] by simp
    next
      case False
      then show ?thesis using 4 ends [of "Open_Line s"] by simp
    qed
  next
    case (5 s)
    from block_split [of s] show ?thesis
    proof (elim disjE exE conjE)
      fix body rest assume "block_body body" "s = body @ 42 # 47 # rest"
      then show ?thesis using 5 more [of "Block body" rest] by simp
    next
      fix body star assume "block_body body" "s = body @ (if star then [42] else [])"
      then show ?thesis using 5 ends [of "Open_Block body star"] by simp
    qed
  next
    case (6 c r)
    then show ?thesis using ends [of "Isolated (c # r)"] by simp
  qed
qed

section \<open>Reference decoder\<close>

definition is_space :: "u8 \<Rightarrow> bool" where
  "is_space b \<longleftrightarrow> b = 32 \<or> b = 13 \<or> b = 10 \<or> b = 9"

definition hex_value :: "u8 \<Rightarrow> u8 option" where
  "hex_value b =
     (if 48 \<le> b \<and> b \<le> 57 then Some (b - 48)
      else if 65 \<le> b \<and> b \<le> 70 then Some (b - 55)
      else if 97 \<le> b \<and> b \<le> 102 then Some (b - 87) else None)"

definition bad_digit :: "u8 \<Rightarrow> panic" where
  "bad_digit b = (if b \<le> 127 then invalid_character else invalid_non_ascii)"

text \<open>
  Two digits at a time; where the digits end the error of the text is raised, and a digit without partner is one.
\<close>

fun hex_decode :: "bytes \<Rightarrow> panic option \<Rightarrow> u8 list outcome" where
  "hex_decode [] err = (case err of None \<Rightarrow> Return [] | Some e \<Rightarrow> Panic e)"
| "hex_decode [a] err =
     (case hex_value a of None \<Rightarrow> Panic (bad_digit a)
      | Some x \<Rightarrow> (case err of None \<Rightarrow> Panic odd_digits | Some e \<Rightarrow> Panic e))"
| "hex_decode (a # b # r) err =
     (case hex_value a of None \<Rightarrow> Panic (bad_digit a)
      | Some x \<Rightarrow>
          case hex_value b of None \<Rightarrow> Panic (bad_digit b)
          | Some y \<Rightarrow> and_then (hex_decode r err) (\<lambda>vs. Return ((16 * x + y) # vs)))"

lemma drain_cases:
  assumes "drain buf = (bs, err)"
  shows "case bs of
      [] \<Rightarrow> (case err of None \<Rightarrow> \<exists>buf'. ec_next buf = Return (None, buf') | Some e \<Rightarrow> ec_next buf = Panic e)
    | b # rest \<Rightarrow> \<exists>buf'. ec_next buf = Return (Some b, buf') \<and> drain buf' = (rest, err)"
  using assms
  by (auto simp: drain.simps [of buf] apfst_def map_prod_def split: outcome.split_asm prod.split_asm option.split_asm)

lemma next_hex_val_reads:
  assumes "drain buf = (bs, err)"
  shows "case dropWhile is_space bs of
           [] \<Rightarrow> (case err of None \<Rightarrow> \<exists>buf'. next_hex_val buf = Return (None, buf') | Some e \<Rightarrow> next_hex_val buf = Panic e)
         | b # rest \<Rightarrow>
             (case hex_value b of
                None \<Rightarrow> next_hex_val buf = Panic (bad_digit b)
              | Some x \<Rightarrow> \<exists>buf'. next_hex_val buf = Return (Some x, buf') \<and> drain buf' = (rest, err))"
  using assms
proof (induction bs arbitrary: buf)
  case Nil
  then show ?case using drain_cases [OF Nil] by (auto simp: next_hex_val.simps [of buf] split: option.splits)
next
  case (Cons b bs)
  obtain buf' where b: "ec_next buf = Return (Some b, buf')" "drain buf' = (bs, err)"
    using drain_cases [OF Cons.prems] by auto
  show ?case
  proof (cases "is_space b")
    case True
    then have eq: "next_hex_val buf = next_hex_val buf'"
      using b(1) by (auto simp: next_hex_val.simps [of buf] is_space_def)
    have "dropWhile is_space (b # bs) = dropWhile is_space bs" using True by simp
    then show ?thesis using Cons.IH [OF b(2)] unfolding eq by (simp only:)
  next
    case False
    then have "next_hex_val buf = (case hex_value b of None \<Rightarrow> Panic (bad_digit b) | Some x \<Rightarrow> Return (Some x, buf'))"
      using b(1) by (simp add: next_hex_val.simps [of buf] is_space_def hex_value_def bad_digit_def)
    then show ?thesis using False b(2) by (auto split: option.split)
  qed
qed

lemma next_hex_val_cases:
  assumes "drain buf = (bs, err)"
  shows "dropWhile is_space bs = [] \<Longrightarrow>
      case err of None \<Rightarrow> \<exists>buf'. next_hex_val buf = Return (None, buf') | Some e \<Rightarrow> next_hex_val buf = Panic e"
    and "dropWhile is_space bs = b # rest \<Longrightarrow> hex_value b = None \<Longrightarrow> next_hex_val buf = Panic (bad_digit b)"
    and "dropWhile is_space bs = b # rest \<Longrightarrow> hex_value b = Some x \<Longrightarrow>
      \<exists>buf'. next_hex_val buf = Return (Some x, buf') \<and> drain buf' = (rest, err)"
  using next_hex_val_reads [OF assms] by (simp_all only: list.case option.case)

lemma hex_value_less: "hex_value b = Some x \<Longrightarrow> unat x < 16"
  by (auto simp: hex_value_def word_le_nat_alt unat_sub split: if_splits)

lemma join_nibbles:
  assumes "unat x < 16" "unat y < 16"
  shows "add_u8 (push_bit 4 x) y = Return (16 * x + y)"
proof -
  have "push_bit 4 x = 16 * x" by (simp add: push_bit_eq_mult mult.commute)
  moreover have "unat (16 * x) = 16 * unat x" using assms(1) by (simp add: unat_word_ariths)
  ultimately show ?thesis using assms by (simp add: add_u8_def)
qed

definition byte_tokens :: "u8 list \<Rightarrow> TokenTree list" where
  "byte_tokens vs = concat (map (\<lambda>v. [U8_Literal v, Punct 44]) vs)"

lemma byte_tokens_simps [simp]:
  "byte_tokens [] = []" "byte_tokens (v # vs) = U8_Literal v # Punct 44 # byte_tokens vs"
  "byte_tokens (vs @ ws) = byte_tokens vs @ byte_tokens ws"
  by (simp_all add: byte_tokens_def)

lemma filter_not_space:
  "dropWhile is_space bs = [] \<Longrightarrow> filter (\<lambda>b. \<not> is_space b) bs = []"
  "dropWhile is_space bs = b # rest \<Longrightarrow>
     filter (\<lambda>b. \<not> is_space b) bs = b # filter (\<lambda>b. \<not> is_space b) rest"
  by (induction bs) (auto split: if_splits)

lemma dropWhile_length: "dropWhile P bs = b # rest \<Longrightarrow> length rest < length bs"
  by (induction bs) (auto split: if_splits)

text \<open>Two digits in a row make one byte and a comma.\<close>

lemma tti_collect_pair:
  assumes "next_hex_val buf = Return (Some x, buf1)" "next_hex_val buf1 = Return (Some y, buf2)" "unat x < 16" "unat y < 16"
  shows "tti_collect \<lparr>tti_buf = buf, tti_is_punct = False\<rparr> =
    and_then (tti_collect \<lparr>tti_buf = buf2, tti_is_punct = False\<rparr>) (\<lambda>ts. Return (U8_Literal (16 * x + y) # Punct 44 # ts))"
proof -
  have "tti_collect \<lparr>tti_buf = buf2, tti_is_punct = True\<rparr> =
      and_then (tti_collect \<lparr>tti_buf = buf2, tti_is_punct = False\<rparr>) (\<lambda>ts. Return (Punct 44 # ts))"
    by (subst tti_collect.simps) (simp add: tti_next_def)
  then show ?thesis
    using assms(1,2) join_nibbles [OF assms(3,4)]
    by (simp add: tti_collect.simps [of "\<lparr>tti_buf = buf, tti_is_punct = False\<rparr>"] tti_next_def and_then_assoc)
qed

text \<open>A first digit without a second one.\<close>

lemma tti_collect_single:
  assumes "next_hex_val buf = Return (Some x, buf1)"
    and "next_hex_val buf1 = Panic e \<or> (\<exists>b2. next_hex_val buf1 = Return (None, b2))"
  shows "tti_collect \<lparr>tti_buf = buf, tti_is_punct = False\<rparr> =
    Panic (case next_hex_val buf1 of Panic e \<Rightarrow> e | Return _ \<Rightarrow> odd_digits)"
  using assms by (auto simp: tti_collect.simps [of "\<lparr>tti_buf = buf, tti_is_punct = False\<rparr>"] tti_next_def)

lemma tti_collect_decodes:
  assumes "drain buf = (bs, err)"
  shows "tti_collect \<lparr>tti_buf = buf, tti_is_punct = False\<rparr> =
           and_then (hex_decode (filter (\<lambda>b. \<not> is_space b) bs) err) (\<lambda>vs. Return (byte_tokens vs))"
  using assms
proof (induction bs arbitrary: buf rule: length_induct)
  case (1 bs)
  note tti_simps = tti_collect.simps [of "\<lparr>tti_buf = buf, tti_is_punct = False\<rparr>"] tti_next_def
  note read = next_hex_val_cases [OF 1(2)]
  show ?case
  proof (cases "dropWhile is_space bs")
    case Nil
    then show ?thesis using read(1) filter_not_space(1) by (auto simp del: dropWhile_eq_Nil_conv simp: tti_simps split: option.splits)
  next
    case bs: (Cons a rest)
    show ?thesis
    proof (cases "hex_value a")
      case None
      then show ?thesis
        using read(2) [OF bs] filter_not_space(2) [OF bs]
        by (cases "filter (\<lambda>b. \<not> is_space b) rest") (auto simp: tti_simps)
    next
      case x: (Some x)
      then obtain buf1 where b1: "next_hex_val buf = Return (Some x, buf1)" "drain buf1 = (rest, err)"
        using read(3) [OF bs] by auto
      note read1 = next_hex_val_cases [OF b1(2)]
      show ?thesis
      proof (cases "dropWhile is_space rest")
        case Nil
        then show ?thesis
          using read1(1) filter_not_space(2) [OF bs] filter_not_space(1) x tti_collect_single [OF b1(1)]
          by (auto simp del: dropWhile_eq_Nil_conv split: option.splits)
      next
        case rest: (Cons c rest2)
        note fil = filter_not_space(2) [OF bs] filter_not_space(2) [OF rest]
        show ?thesis
        proof (cases "hex_value c")
          case None
          then show ?thesis using read1(2) [OF rest] fil x tti_collect_single [OF b1(1)] by simp
        next
          case (Some y)
          then obtain buf2 where b2: "next_hex_val buf1 = Return (Some y, buf2)" "drain buf2 = (rest2, err)"
            using read1(3) [OF rest] by auto
          have xy: "unat x < 16" "unat y < 16" using hex_value_less x Some by auto
          have "length rest2 < length bs"
            using dropWhile_length [OF bs] dropWhile_length [OF rest] by simp
          then show ?thesis
            using 1(1) b2(2) tti_collect_pair [OF b1(1) b2(1) xy] Some x fil by (simp add: and_then_assoc)
        qed
      qed
    qed
  qed
qed

section \<open>Literals\<close>

text \<open>A string literal: its pieces and how it ends, between quotation marks.\<close>

definition literal_text :: "piece list \<times> ending \<Rightarrow> bytes" where
  "literal_text l = 34 # concat (map render (fst l)) @ render_ending (snd l) @ [34]"

definition literal_ok :: "piece list \<times> ending \<Rightarrow> bool" where
  "literal_ok l \<longleftrightarrow> (\<forall>p \<in> set (fst l). piece_ok p) \<and> ending_ok (snd l)"

definition literal_digits :: "piece list \<times> ending \<Rightarrow> bytes" where
  "literal_digits l = filter (\<lambda>b. \<not> is_space b) (concat (map strip (fst l)))"

fun decode_all :: "(piece list \<times> ending) list \<Rightarrow> u8 list outcome" where
  "decode_all [] = Return []"
| "decode_all (l # ls) =
     and_then (hex_decode (literal_digits l) (ending_error (snd l))) (\<lambda>vs.
       and_then (decode_all ls) (\<lambda>ws. Return (vs @ ws)))"

lemma string_is_literal: "\<exists>l. literal_ok l \<and> literal_text l = 34 # t @ [34]"
  using text_has_pieces [of t] by (force simp: literal_ok_def literal_text_def)

lemma literal_tokens:
  assumes "literal_ok l"
  shows "and_then (tti_new (literal_text l)) tti_collect =
           and_then (hex_decode (literal_digits l) (ending_error (snd l))) (\<lambda>vs. Return (byte_tokens vs))"
proof -
  have "tti_new (literal_text l) =
      Return \<lparr>tti_buf = new_from_iter (concat (map render (fst l)) @ render_ending (snd l)), tti_is_punct = False\<rparr>"
    by (simp add: tti_new_def literal_text_def ec_next_def new_from_iter_def butlast_append)
  then show ?thesis
    using tti_collect_decodes [OF drain_pieces, of "fst l" "snd l"] assms
    by (simp add: literal_ok_def literal_digits_def)
qed

text \<open>A token that is no string literal and no invisible group.\<close>

fun no_string :: "TokenTree \<Rightarrow> bool" where
  "no_string (Literal t) \<longleftrightarrow> \<not> (2 \<le> length t \<and> hd t = 34 \<and> last t = 34)"
| "no_string (Group delimiter stream) \<longleftrightarrow> delimiter \<noteq> NoDelimiter"
| "no_string _ \<longleftrightarrow> True"

lemma no_string_panics: "no_string tt \<Longrightarrow> hex_tokens (tt # tts) = Panic not_a_string"
  by (cases tt) (auto simp: tti_new_def)

lemma hex_tokens_reference:
  assumes "\<forall>l \<in> set lits. literal_ok l"
  shows "hex_tokens (map (\<lambda>l. Literal (literal_text l)) lits @ tts) =
     and_then (decode_all lits) (\<lambda>vs. and_then (hex_tokens tts) (\<lambda>ts. Return (byte_tokens vs @ ts)))"
  using assms
proof (induction lits)
  case Nil
  then show ?case by (cases "hex_tokens tts") simp_all
next
  case (Cons l lits)
  have "hex_tokens (map (\<lambda>l. Literal (literal_text l)) (l # lits) @ tts) =
      and_then (and_then (tti_new (literal_text l)) tti_collect) (\<lambda>out.
        and_then (hex_tokens (map (\<lambda>l. Literal (literal_text l)) lits @ tts)) (\<lambda>rest. Return (out @ rest)))"
    by (simp add: and_then_assoc)
  also have "\<dots> = and_then (hex_decode (literal_digits l) (ending_error (snd l))) (\<lambda>vs.
        and_then (decode_all lits) (\<lambda>ws. and_then (hex_tokens tts) (\<lambda>ts. Return (byte_tokens (vs @ ws) @ ts))))"
    using Cons literal_tokens [of l] by (simp add: and_then_assoc)
  finally show ?case by (simp add: and_then_assoc)
qed

lemma ignore_groups_no_string:
  assumes "no_string tt"
  shows "ignore_groups (tt # tts) = tt # tts"
proof (cases tt)
  case (Group delimiter stream)
  then show ?thesis using assms by (cases delimiter) (simp_all add: ignore_groups_def)
qed (simp_all add: ignore_groups_def)

lemma ignore_groups_literals:
  "ignore_groups (map (\<lambda>l. Literal (f l)) lits) = map (\<lambda>l. Literal (f l)) lits"
  "ignore_groups [Group NoDelimiter ts] = ts"
  "no_string tt \<Longrightarrow> ignore_groups (map (\<lambda>l. Literal (f l)) lits @ tt # tts) = map (\<lambda>l. Literal (f l)) lits @ tt # tts"
  using ignore_groups_no_string [of tt tts] by (cases lits; simp add: ignore_groups_def)+

text \<open>The digits of a byte, each in upper or lower case.\<close>

definition hex_digit :: "bool \<Rightarrow> nat \<Rightarrow> u8" where
  "hex_digit upper n = of_nat (if n < 10 then 48 + n else if upper then 55 + n else 87 + n)"

definition hex_encode :: "(bool \<times> bool \<times> u8) list \<Rightarrow> bytes" where
  "hex_encode xs = concat (map (\<lambda>(u1, u2, v). [hex_digit u1 (unat v div 16), hex_digit u2 (unat v mod 16)]) xs)"

lemma hex_value_digit:
  assumes "n < 16"
  shows "hex_value (hex_digit upper n) = Some (of_nat n)"
proof -
  have u: "unat (hex_digit upper n) = (if n < 10 then 48 + n else if upper then 55 + n else 87 + n)"
    using assms by (simp add: hex_digit_def)
  consider "n < 10" | "\<not> n < 10" upper | "\<not> n < 10" "\<not> upper" by blast
  then show ?thesis
  proof cases
    case 1
    then show ?thesis using u by (simp add: hex_value_def word_le_nat_alt hex_digit_def)
  next
    case 2
    then show ?thesis using u assms by (simp add: hex_value_def word_le_nat_alt hex_digit_def)
  next
    case 3
    then show ?thesis using u assms by (simp add: hex_value_def word_le_nat_alt hex_digit_def)
  qed
qed

lemma hex_decode_encode: "hex_decode (hex_encode xs) None = Return (map (\<lambda>(_, _, v). v) xs)"
proof (induction xs)
  case (Cons x xs)
  obtain u1 u2 v where x: "x = (u1, u2, v)" by (cases x) auto
  have "unat v div 16 < 16" using unat_u8_lt [of v] by linarith
  moreover have "16 * of_nat (unat v div 16) + of_nat (unat v mod 16) = v"
  proof -
    have "(of_nat (16 * (unat v div 16) + unat v mod 16) :: u8) = v" by (simp only: mult_div_mod_eq of_nat_unat ucast_id)
    then show ?thesis by (simp only: of_nat_add of_nat_mult of_nat_numeral)
  qed
  ultimately show ?case using Cons x by (simp add: hex_encode_def hex_value_digit)
qed (simp add: hex_encode_def)

section \<open>Properties\<close>

text \<open>
  (C16) \<open>hex!\<close> computes the reference decoder, on every sequence of string literals.  Every text between quotation marks is
  a sequence of plain bytes, line comments and block comments, which may end inside a comment or at a slash that starts none;
  in a block comment an asterisk takes the next byte with it unless that is a slash.  Directly or inside one invisible
  group, the macro expands to the array of the bytes that a two-digits-at-a-time decoder finds after dropping comments and
  whitespace, one literal after the other.  It panics exactly where that decoder does: at the first invalid character, at the
  end of a literal with an odd number of digits, or, when the digits before are read, at the isolated slash or
  the unterminated block comment.  A token that is no string literal panics when the literals before it are decoded.
\<close>

theorem hex_reference:
  assumes "\<forall>l \<in> set lits. literal_ok l"
  shows "hex (map (\<lambda>l. Literal (literal_text l)) lits) =
           and_then (decode_all lits) (\<lambda>vs. Return [Group Bracket (byte_tokens vs)]) \<and>
         hex [Group NoDelimiter (map (\<lambda>l. Literal (literal_text l)) lits)] =
           hex (map (\<lambda>l. Literal (literal_text l)) lits) \<and>
         (no_string tt \<longrightarrow>
           hex (map (\<lambda>l. Literal (literal_text l)) lits @ tt # tts) =
             and_then (decode_all lits) (\<lambda>_. Panic not_a_string)) \<and>
         (\<exists>l. literal_ok l \<and> literal_text l = 34 # t @ [34])"
  using hex_tokens_reference [OF assms, of "[]"] hex_tokens_reference [OF assms, of "tt # tts"]
    no_string_panics [of tt tts] string_is_literal [of t]
  by (auto simp: hex_def ignore_groups_literals and_then_assoc)

theorem hex_reference_witness:
  "hex (map (\<lambda>l. Literal (literal_text l)) [([Plain 48, Block [97, 42, 42], Plain 65], Complete), ([Plain 49], Open_Block [] False)]) =
     Panic not_terminated \<and>
   hex [Group NoDelimiter (map (\<lambda>l. Literal (literal_text l))
     [([Plain 48, Block [97, 42, 42], Plain 65], Complete), ([Plain 49], Open_Block [] False)])] = Panic not_terminated"
proof -
  let ?lits = "[([Plain 48, Block [97, 42, 42], Plain 65], Complete), ([Plain 49], Open_Block [] False)]"
  have ok: "\<forall>l \<in> set ?lits. literal_ok l" by (simp add: literal_ok_def)
  have "decode_all ?lits = Panic not_terminated"
    by (simp add: literal_digits_def is_space_def hex_value_def)
  with hex_reference [OF ok, of "Punct 44" "[]" "[]"] show ?thesis by simp
qed

text \<open>
  Hexadecimal text round-trips: a literal whose digits, between any whitespace and comments, are the digits of
  the bytes \<open>vs\<close> in upper or lower case expands to the array of exactly these bytes.
\<close>

theorem hex_roundtrip:
  assumes "literal_ok l" and "ending_error (snd l) = None" and "literal_digits l = hex_encode xs"
  shows "hex [Literal (literal_text l)] =
           Return [Group Bracket (concat (map (\<lambda>(_, _, v). [U8_Literal v, Punct 44]) xs))]"
proof -
  have "concat (map (\<lambda>(_, _, v). [U8_Literal v, Punct 44]) xs) = byte_tokens (map (\<lambda>(_, _, v). v) xs)"
    by (auto simp: byte_tokens_def comp_def case_prod_unfold)
  then show ?thesis
    using hex_tokens_reference [of "[l]" "[]"] assms hex_decode_encode [of xs] ignore_groups_literals(1) [of literal_text "[l]"]
    by (simp add: hex_def)
qed

theorem hex_roundtrip_witness:
  "hex [Literal (literal_text ([Plain 70, Block [42, 32], Plain 48, Line [47]], Open_Line []))] =
     Return [Group Bracket (concat (map (\<lambda>(_, _, v). [U8_Literal v, Punct 44]) [(True, False, 0xf0)]))]"
proof (rule hex_roundtrip)
  show "literal_ok ([Plain 70, Block [42, 32], Plain 48, Line [47]], Open_Line [])" by (simp add: literal_ok_def)
  show "literal_digits ([Plain 70, Block [42, 32], Plain 48, Line [47]], Open_Line []) = hex_encode [(True, False, 0xf0)]"
    by (simp add: literal_digits_def hex_encode_def hex_digit_def is_space_def)
qed simp

text \<open>A run of asterisks before a slash: the machine takes them in pairs.\<close>

lemma next_byte_stars:
  "next_byte BlockComment (replicate k 42 @ 47 # rest) = (if odd k then next_byte Normal rest else next_byte BlockComment rest)"
proof (induction k rule: nat_less_induct)
  case (1 k)
  show ?case
  proof (cases "k < 2")
    case True
    then consider "k = 0" | "k = 1" by linarith
    then show ?thesis by cases simp_all
  next
    case False
    then obtain j where "k = Suc (Suc j)" by (metis add_2_eq_Suc le_add_diff_inverse not_less)
    with 1 show ?thesis by simp
  qed
qed

text \<open>
  (C40) A block comment closed by a run of asterisks and a slash is closed only if the run is odd.  In a block
  comment with any text before the run, an odd number of asterisks followed by a slash ends the comment, and an
  even number does not: the machine takes the asterisks in pairs, and what follows is read as the inside of a comment that has just been
  opened.  So the digits up to the next closing are dropped silently, and if no asterisk follows the comment is reported as
  unterminated.
\<close>

theorem double_asterisk_does_not_close:
  assumes "block_body body" and "1 \<le> k"
  shows "exclude_comments (new_from_iter (47 # 42 # body @ replicate k 42 @ 47 # rest)) =
      (if odd k then exclude_comments (new_from_iter rest) else exclude_comments (new_from_iter (47 # 42 # rest))) \<and>
    (even k \<and> (\<forall>b \<in> set rest. b \<noteq> 42) \<longrightarrow>
      exclude_comments (new_from_iter (47 # 42 # body @ replicate k 42 @ 47 # rest)) = Panic not_terminated) \<and>
    (even k \<and> rest = body' @ 42 # 47 # rest' \<and> block_body body' \<longrightarrow>
      exclude_comments (new_from_iter (47 # 42 # body @ replicate k 42 @ 47 # rest)) = exclude_comments (new_from_iter rest'))"
proof -
  let ?s = "47 # 42 # body @ replicate k 42 @ 47 # rest"
  have run: "ec_next (new_from_iter ?s) =
      (if odd k then ec_next (new_from_iter rest) else ec_next (new_from_iter (47 # 42 # rest)))"
    using next_byte_block [OF assms(1), of "replicate k 42 @ 47 # rest"] next_byte_stars [of k rest]
    by (simp add: ec_next_def new_from_iter_def)
  have "ec_next (new_from_iter (47 # 42 # rest)) = Panic not_terminated" if "\<forall>b \<in> set rest. b \<noteq> 42"
  proof -
    have "next_byte BlockComment rest = Return (None, \<lparr>ec_state = BlockComment, ec_iter = []\<rparr>)"
      using that by (induction rest) auto
    then show ?thesis by (simp add: ec_next_def new_from_iter_def)
  qed
  moreover have "ec_next (new_from_iter (47 # 42 # body' @ 42 # 47 # rest')) = ec_next (new_from_iter rest')" if "block_body body'"
    using next_byte_block [OF that, of "42 # 47 # rest'"] by (simp add: ec_next_def new_from_iter_def)
  ultimately show ?thesis using run by (auto simp: exclude_comments.simps)
qed

theorem double_asterisk_does_not_close_witness:
  "exclude_comments (new_from_iter (47 # 42 # [97] @ replicate 2 42 @ 47 # [48, 48])) = Panic not_terminated \<and>
   exclude_comments (new_from_iter (47 # 42 # [97] @ replicate 2 42 @ 47 # [48, 49] @ 42 # 47 # [50])) =
     exclude_comments (new_from_iter [50])"
proof -
  have "block_body [97]" "(1 :: nat) \<le> 2" "even (2 :: nat)" by simp_all
  note runs = double_asterisk_does_not_close [OF this(1,2)] this(3)
  show ?thesis
    using runs(1) [of "[48, 48]" "[]" "[]"] runs(1) [of "[48, 49] @ 42 # 47 # [50]" "[48, 49]" "[50]"] runs(2)
    by auto
qed

text \<open>
  \<open>ignore_groups\<close> strips one level only.  A literal inside two nested invisible groups, which a macro that
  forwards a fragment twice produces, is rejected although the innermost tokens are a string
  literal, and of several invisible groups at the top only the last one is kept.
\<close>

theorem ignore_groups_one_level:
  "hex [Group NoDelimiter [Group NoDelimiter [Literal lit]]] = Panic not_a_string \<and>
   hex [Group NoDelimiter ts, Group NoDelimiter us] = hex [Group NoDelimiter us]"
  by (simp add: hex_def ignore_groups_def)

end
