(* ===== verification/Cpufeatures.thy ===== *)
theory Cpufeatures
  imports Rust_Prelude
begin

text \<open>
  The crate \<^verbatim>\<open>cpufeatures\<close>: run-time detection of CPU features.  \<^verbatim>\<open>x86.rs\<close> and \<^verbatim>\<open>aarch64.rs\<close> decide
  whether all requested features are present; \<^verbatim>\<open>lib.rs\<close> caches the answer in one atomic byte that any number of
  threads initialise without locks.

  What the code asks of the machine is a parameter: the results of the CPUID instruction, the
  value of \<open>getauxval(AT_HWCAP)\<close> with the \<open>HWCAP\<close> constants of \<^verbatim>\<open>libc\<close>, and the call
  \<open>sysctlbyname\<close>.  Compile-time configuration (\<open>cfg\<close>) is a parameter too.
\<close>

section \<open>x86\<close>

record cpuid_result =
  ecx :: u32
  edx :: u32
  ebx :: u32

datatype reg = ECX | EDX | EBX

primrec reg_of :: "reg \<Rightarrow> cpuid_result \<Rightarrow> u32" where
  "reg_of ECX r = ecx r"
| "reg_of EDX r = edx r"
| "reg_of EBX r = ebx r"

text \<open>The table of \<open>__expand_check_macro!\<close>: index of the CPUID result, register and bit.\<close>

definition x86_features :: "(string \<times> (nat \<times> reg \<times> nat) list) list" where
  "x86_features =
    [(''mmx'', [(0, EDX, 23)]),
     (''sse'', [(0, EDX, 25)]),
     (''sse2'', [(0, EDX, 26)]),
     (''sse3'', [(0, ECX, 0)]),
     (''pclmulqdq'', [(0, ECX, 1)]),
     (''ssse3'', [(0, ECX, 9)]),
     (''fma'', [(0, ECX, 28), (0, ECX, 12)]),
     (''sse4.1'', [(0, ECX, 19)]),
     (''sse4.2'', [(0, ECX, 20)]),
     (''popcnt'', [(0, ECX, 23)]),
     (''aes'', [(0, ECX, 25)]),
     (''avx'', [(0, ECX, 28)]),
     (''rdrand'', [(0, ECX, 30)]),
     (''sgx'', [(1, EBX, 2)]),
     (''bmi1'', [(1, EBX, 3)]),
     (''avx2'', [(0, ECX, 28), (1, EBX, 5)]),
     (''bmi2'', [(1, EBX, 8)]),
     (''rdseed'', [(1, EBX, 18)]),
     (''adx'', [(1, EBX, 19)]),
     (''sha'', [(1, EBX, 29)])]"

text \<open>\<open>check!(cr, name)\<close>; a name that is not in the table does not compile.\<close>

definition x86_check_bits :: "cpuid_result list \<Rightarrow> (nat \<times> reg \<times> nat) list \<Rightarrow> bool" where
  "x86_check_bits cr bits = foldl (\<lambda>acc (i, reg, offset). acc \<and> reg_of reg (cr ! i) AND push_bit offset 1 \<noteq> 0) True bits"

definition x86_check :: "cpuid_result list \<Rightarrow> string \<Rightarrow> bool option" where
  "x86_check cr name = map_option (x86_check_bits cr) (map_of x86_features name)"

fun all_checks :: "(string \<Rightarrow> bool option) \<Rightarrow> string list \<Rightarrow> bool option" where
  "all_checks check [] = Some True"
| "all_checks check (tf # tfs) =
     (case check tf of None \<Rightarrow> None | Some b \<Rightarrow> map_option (\<lambda>bs. b \<and> bs) (all_checks check tfs))"

definition x86_detect ::
  "(u32 \<Rightarrow> cpuid_result) \<Rightarrow> (u32 \<Rightarrow> u32 \<Rightarrow> cpuid_result) \<Rightarrow> string list \<Rightarrow> bool option" where
  "x86_detect cpuid cpuid_count tfs =
     (let cr = [cpuid 1, cpuid_count 7 0] in all_checks (x86_check cr) tfs)"

definition x86_unless :: "bool \<Rightarrow> bool \<Rightarrow> 'a \<Rightarrow> (bool \<Rightarrow> 'a) \<Rightarrow> 'a" where
  "x86_unless all_enabled sgx body value =
     (if \<not> all_enabled then if \<not> sgx then body else value False else value True)"

section \<open>aarch64\<close>

record hwcap_consts =
  HWCAP_AES :: u64
  HWCAP_PMULL :: u64
  HWCAP_SHA2 :: u64
  HWCAP_SHA3 :: u64
  HWCAP_SHA512 :: u64

definition hwcaps_AES :: "hwcap_consts \<Rightarrow> u64" where
  "hwcaps_AES libc = HWCAP_AES libc OR HWCAP_PMULL libc"

definition hwcaps_SHA2 :: "hwcap_consts \<Rightarrow> u64" where
  "hwcaps_SHA2 libc = HWCAP_SHA2 libc"

definition hwcaps_SHA3 :: "hwcap_consts \<Rightarrow> u64" where
  "hwcaps_SHA3 libc = HWCAP_SHA3 libc OR HWCAP_SHA512 libc"

definition linux_check :: "hwcap_consts \<Rightarrow> u64 \<Rightarrow> string \<Rightarrow> bool option" where
  "linux_check libc hwcaps name =
     (if name = ''aes'' then Some (hwcaps AND hwcaps_AES libc \<noteq> 0)
      else if name = ''sha2'' then Some (hwcaps AND hwcaps_SHA2 libc \<noteq> 0)
      else if name = ''sha3'' then Some (hwcaps AND hwcaps_SHA3 libc \<noteq> 0)
      else None)"

definition linux_detect :: "hwcap_consts \<Rightarrow> u64 \<Rightarrow> string list \<Rightarrow> bool option" where
  "linux_detect libc getauxval_hwcap tfs = all_checks (linux_check libc getauxval_hwcap) tfs"

text \<open>
  The helper \<open>sysctlbyname\<close> around the call of \<^verbatim>\<open>libc\<close>, which yields a return code, a value and a size.
\<close>

definition sysctlbyname :: "(bytes \<Rightarrow> int \<times> u32 \<times> nat) \<Rightarrow> bytes \<Rightarrow> bool outcome" where
  "sysctlbyname libc_sysctl name =
     and_then (rust_assert (name \<noteq> [] \<and> last name = 0) Assert_Failed) (\<lambda>_.
       let (rc, value, size) = libc_sysctl name in
       and_then (rust_assert (size = 4) Assert_Failed) (\<lambda>_.
       and_then (rust_assert (rc = 0) Assert_Failed) (\<lambda>_.
         Return (value \<noteq> 0))))"

definition sha512_node :: bytes where
  "sha512_node = map of_char ''hw.optional.armv8_2_sha512'' @ [0]"

definition sha3_node :: bytes where
  "sha3_node = map of_char ''hw.optional.armv8_2_sha3'' @ [0]"

definition macos_check :: "(bytes \<Rightarrow> int \<times> u32 \<times> nat) \<Rightarrow> string \<Rightarrow> bool option outcome" where
  "macos_check libc_sysctl name =
     (if name = ''aes'' \<or> name = ''sha2'' then Return (Some True)
      else if name = ''sha3'' then
        and_then (sysctlbyname libc_sysctl sha512_node) (\<lambda>a.
          if a then and_then (sysctlbyname libc_sysctl sha3_node) (\<lambda>b. Return (Some b))
          else Return (Some False))
      else Return None)"

fun macos_detect :: "(bytes \<Rightarrow> int \<times> u32 \<times> nat) \<Rightarrow> string list \<Rightarrow> bool option outcome" where
  "macos_detect libc_sysctl [] = Return (Some True)"
| "macos_detect libc_sysctl (tf # tfs) =
     and_then (macos_check libc_sysctl tf) (\<lambda>b.
     and_then (macos_detect libc_sysctl tfs) (\<lambda>bs.
       Return (case (b, bs) of (Some b, Some bs) \<Rightarrow> Some (b \<and> bs) | _ \<Rightarrow> None)))"

definition ios_check :: "string \<Rightarrow> bool option" where
  "ios_check name =
     (if name = ''aes'' \<or> name = ''sha2'' then Some True
      else if name = ''sha3'' then Some False else None)"

text \<open>Other systems have no detection at run time.\<close>

definition other_detect :: "string list \<Rightarrow> bool" where
  "other_detect tfs = False"

definition aarch64_unless :: "bool \<Rightarrow> 'a \<Rightarrow> (bool \<Rightarrow> 'a) \<Rightarrow> 'a" where
  "aarch64_unless all_enabled body value = (if \<not> all_enabled then body else value True)"

definition miri_unless :: "'a \<Rightarrow> (bool \<Rightarrow> 'a) \<Rightarrow> 'a" where
  "miri_unless body value = value False"

definition miri_detect :: bool where
  "miri_detect = False"

section \<open>The cached answer\<close>

definition UNINIT :: u8 where "UNINIT = 255"

text \<open>
  The functions of the generated module, run by one thread without interruption, over the content of
  \<open>STORAGE\<close> and the answer of detection.
\<close>

definition init_get_body :: "bool \<Rightarrow> u8 \<Rightarrow> bool \<times> u8" where
  "init_get_body detect storage =
     (let val = storage in
      if val = UNINIT then let res = detect in (res, of_bool res) else (val = 1, storage))"

definition token_get_body :: "u8 \<Rightarrow> bool" where
  "token_get_body storage \<longleftrightarrow> storage = 1"

text \<open>
  Both bodies stand inside \<open>__unless_target_features!\<close>, given here as an argument that
  gets the body and what to do when a constant takes its place.
\<close>

definition init_get ::
  "(bool \<times> u8 \<Rightarrow> (bool \<Rightarrow> bool \<times> u8) \<Rightarrow> bool \<times> u8) \<Rightarrow> bool \<Rightarrow> u8 \<Rightarrow> bool \<times> u8" where
  "init_get unless detect storage = unless (init_get_body detect storage) (\<lambda>b. (b, storage))"

definition init ::
  "(bool \<times> u8 \<Rightarrow> (bool \<Rightarrow> bool \<times> u8) \<Rightarrow> bool \<times> u8) \<Rightarrow> bool \<Rightarrow> u8 \<Rightarrow> u8" where
  "init unless detect storage = snd (init_get unless detect storage)"

definition cpu_get ::
  "(bool \<times> u8 \<Rightarrow> (bool \<Rightarrow> bool \<times> u8) \<Rightarrow> bool \<times> u8) \<Rightarrow> bool \<Rightarrow> u8 \<Rightarrow> bool \<times> u8" where
  "cpu_get unless detect storage = init_get unless detect storage"

definition token_get :: "(bool \<Rightarrow> (bool \<Rightarrow> bool) \<Rightarrow> bool) \<Rightarrow> u8 \<Rightarrow> bool" where
  "token_get unless storage = unless (token_get_body storage) (\<lambda>b. b)"

text \<open>
  Several threads: each atomic access is one step.  A thread is idle, or in a call of one of the three functions of the module,
  having loaded a value or having detected and being about to store.  It may hold a token, which \<open>init\<close> and
  \<open>init_get\<close> return and \<open>get\<close> drops, and tokens may be copied to other threads.  The answers of a thread are
  the values its calls computed, in order; \<open>init\<close> drops its own.  The accesses are relaxed, but to a single location, whose
  accesses are totally ordered.

  \<open>static\<close> is what \<open>__unless_target_features!\<close> leaves of the two bodies:
  \<^term>\<open>None\<close> the body, \<^term>\<open>Some b\<close> the constant \<open>b\<close> in its place, so that a call
  returns without touching the storage.
\<close>

definition static_answer :: "(bool option \<Rightarrow> (bool \<Rightarrow> bool option) \<Rightarrow> bool option) \<Rightarrow> bool option" where
  "static_answer unless = unless None Some"

datatype call = Init_Get | Init | Get

datatype phase = Idle | Loaded call u8 | Detected call bool

record thread =
  phase :: phase
  token :: bool
  answers :: "bool list"

record cpu_state =
  storage :: u8
  threads :: "nat \<Rightarrow> thread"

definition set_thread :: "cpu_state \<Rightarrow> nat \<Rightarrow> thread \<Rightarrow> cpu_state" where
  "set_thread s t th = s\<lparr>threads := (threads s)(t := th)\<rparr>"

definition answer :: "thread \<Rightarrow> bool \<Rightarrow> thread" where
  "answer th r = th\<lparr>phase := Idle, answers := answers th @ [r]\<rparr>"

definition finish :: "call \<Rightarrow> thread \<Rightarrow> bool \<Rightarrow> thread" where
  "finish c th r = (case c of
     Init_Get \<Rightarrow> (answer th r)\<lparr>token := True\<rparr>
   | Init \<Rightarrow> (answer th r)\<lparr>token := True\<rparr>
   | Get \<Rightarrow> answer th r)"

inductive cpu_step :: "bool option \<Rightarrow> bool \<Rightarrow> cpu_state \<Rightarrow> cpu_state \<Rightarrow> bool" for static detect where
  const: "phase (threads s t) = Idle \<Longrightarrow> static = Some b \<Longrightarrow>
    cpu_step static detect s (set_thread s t (finish c (threads s t) b))"
| load: "phase (threads s t) = Idle \<Longrightarrow> static = None \<Longrightarrow>
    cpu_step static detect s (set_thread s t ((threads s t)\<lparr>phase := Loaded c (storage s)\<rparr>))"
| detected: "phase (threads s t) = Loaded c val \<Longrightarrow> val = UNINIT \<Longrightarrow>
    cpu_step static detect s (set_thread s t ((threads s t)\<lparr>phase := Detected c detect\<rparr>))"
| cached: "phase (threads s t) = Loaded c val \<Longrightarrow> val \<noteq> UNINIT \<Longrightarrow>
    cpu_step static detect s (set_thread s t (finish c (threads s t) (val = 1)))"
| store: "phase (threads s t) = Detected c res \<Longrightarrow>
    cpu_step static detect s ((set_thread s t (finish c (threads s t) res))\<lparr>storage := of_bool res\<rparr>)"
| token_const: "phase (threads s t) = Idle \<Longrightarrow> token (threads s t) \<Longrightarrow> static = Some b \<Longrightarrow>
    cpu_step static detect s (set_thread s t (answer (threads s t) b))"
| token_load: "phase (threads s t) = Idle \<Longrightarrow> token (threads s t) \<Longrightarrow> static = None \<Longrightarrow>
    cpu_step static detect s (set_thread s t (answer (threads s t) (token_get_body (storage s))))"
| share: "token (threads s t) \<Longrightarrow>
    cpu_step static detect s (set_thread s u ((threads s u)\<lparr>token := True\<rparr>))"

definition cpu_start :: cpu_state where
  "cpu_start = \<lparr>storage = UNINIT, threads = (\<lambda>_. \<lparr>phase = Idle, token = False, answers = []\<rparr>)\<rparr>"

inductive cpu_reachable :: "bool option \<Rightarrow> bool \<Rightarrow> cpu_state \<Rightarrow> bool" for static detect where
  start: "cpu_reachable static detect cpu_start"
| step: "cpu_reachable static detect s \<Longrightarrow> cpu_step static detect s s' \<Longrightarrow> cpu_reachable static detect s'"

section \<open>Invariant\<close>

text \<open>The answer every call has to give, and what the storage holds once a call has returned.\<close>

definition right_answer :: "bool option \<Rightarrow> bool \<Rightarrow> bool" where
  "right_answer static detect = (case static of None \<Rightarrow> detect | Some b \<Rightarrow> b)"

definition settled :: "bool option \<Rightarrow> bool \<Rightarrow> u8 \<Rightarrow> bool" where
  "settled static detect st \<longleftrightarrow> st = (case static of None \<Rightarrow> of_bool detect | Some _ \<Rightarrow> UNINIT)"

fun phase_inv :: "bool option \<Rightarrow> bool \<Rightarrow> u8 \<Rightarrow> phase \<Rightarrow> bool" where
  "phase_inv static detect st Idle \<longleftrightarrow> True"
| "phase_inv static detect st (Loaded c v) \<longleftrightarrow>
     static = None \<and> (v = UNINIT \<or> v = of_bool detect \<and> settled static detect st)"
| "phase_inv static detect st (Detected c r) \<longleftrightarrow> static = None \<and> r = detect"

definition thread_inv :: "bool option \<Rightarrow> bool \<Rightarrow> u8 \<Rightarrow> thread \<Rightarrow> bool" where
  "thread_inv static detect st th \<longleftrightarrow>
     phase_inv static detect st (phase th) \<and>
     (token th \<or> answers th \<noteq> [] \<longrightarrow> settled static detect st) \<and> set (answers th) \<subseteq> {right_answer static detect}"

definition cpu_inv :: "bool option \<Rightarrow> bool \<Rightarrow> cpu_state \<Rightarrow> bool" where
  "cpu_inv static detect s \<longleftrightarrow>
     (storage s = UNINIT \<or> settled static detect (storage s)) \<and>
     (\<forall>t. thread_inv static detect (storage s) (threads s t))"

lemma of_bool_not_UNINIT [simp]: "(of_bool b :: u8) \<noteq> UNINIT" "UNINIT \<noteq> of_bool b"
  by (cases b; simp add: UNINIT_def)+

lemma of_bool_eq_1 [simp]: "(of_bool b :: u8) = 1 \<longleftrightarrow> b"
  by (cases b) simp_all

lemma settled_static [simp]:
  "settled None detect st \<longleftrightarrow> st = of_bool detect" "settled (Some b) detect st \<longleftrightarrow> st = UNINIT"
  by (simp_all add: settled_def)

lemma right_answer_static [simp]: "right_answer None detect = detect" "right_answer (Some b) detect = b"
  by (simp_all add: right_answer_def)

lemma cpu_start_inv: "cpu_inv static detect cpu_start"
  by (simp add: cpu_inv_def cpu_start_def thread_inv_def)

lemma set_thread_inv:
  "cpu_inv static detect s \<Longrightarrow> thread_inv static detect (storage s) th \<Longrightarrow> cpu_inv static detect (set_thread s t th)"
  by (simp add: cpu_inv_def set_thread_def)

lemma cpu_invD:
  assumes "cpu_inv static detect s"
  shows "storage s = UNINIT \<or> settled static detect (storage s)" "thread_inv static detect (storage s) (threads s t)"
  using assms by (simp_all add: cpu_inv_def)

lemma answer_inv:
  "thread_inv static detect st th \<Longrightarrow> settled static detect st \<Longrightarrow> r = right_answer static detect \<Longrightarrow>
   thread_inv static detect st (answer th r)"
  by (simp add: thread_inv_def answer_def)

lemma finish_inv:
  "thread_inv static detect st th \<Longrightarrow> settled static detect st \<Longrightarrow> r = right_answer static detect \<Longrightarrow>
   thread_inv static detect st (finish c th r)"
  using answer_inv [of static detect st th r] by (cases c) (simp_all add: finish_def thread_inv_def)

lemma thread_inv_stored: "thread_inv None detect st th \<Longrightarrow> thread_inv None detect (of_bool detect) th"
  unfolding thread_inv_def by (cases "phase th") auto

lemma cpu_step_inv:
  assumes "cpu_step static detect s s'" and inv: "cpu_inv static detect s"
  shows "cpu_inv static detect s'"
  using assms(1)
proof cases
  case (const t b c)
  then have "settled static detect (storage s)" using cpu_invD(1) [OF inv] by auto
  then show ?thesis
    using const set_thread_inv [OF inv finish_inv [OF cpu_invD(2) [OF inv]]] by simp
next
  case (load t c)
  have "thread_inv static detect (storage s) ((threads s t)\<lparr>phase := Loaded c (storage s)\<rparr>)"
    using load cpu_invD(1) [OF inv] cpu_invD(2) [OF inv, of t] unfolding thread_inv_def by auto
  then show ?thesis using load(1) set_thread_inv [OF inv] by simp
next
  case (detected t c val)
  have "thread_inv static detect (storage s) ((threads s t)\<lparr>phase := Detected c detect\<rparr>)"
    using detected cpu_invD(2) [OF inv, of t] by (cases static) (simp_all add: thread_inv_def)
  then show ?thesis using detected(1) set_thread_inv [OF inv] by simp
next
  case (cached t c val)
  then have val: "static = None" "val = of_bool detect" and st: "settled static detect (storage s)"
    using cpu_invD(2) [OF inv, of t] by (cases static; simp add: thread_inv_def)+
  then have "(val = 1) = right_answer static detect" by simp
  then show ?thesis
    using cached(1) set_thread_inv [OF inv finish_inv [OF cpu_invD(2) [OF inv] st]] by simp
next
  case (store t c res)
  then have res: "static = None" "res = detect" using cpu_invD(2) [OF inv, of t] by (cases static; simp add: thread_inv_def)+
  then have others: "thread_inv None detect (of_bool detect) (threads s u)" for u
    using cpu_invD(2) [OF inv, of u] thread_inv_stored by simp
  moreover have "thread_inv None detect (of_bool detect) (finish c (threads s t) detect)"
    by (rule finish_inv [OF others]) simp_all
  ultimately show ?thesis using store(1) res by (simp add: cpu_inv_def set_thread_def)
next
  case (token_const t b)
  then have "settled static detect (storage s)" "b = right_answer static detect"
    using cpu_invD(2) [OF inv, of t] by (cases static; simp add: thread_inv_def)+
  then show ?thesis
    using token_const(1) set_thread_inv [OF inv answer_inv [OF cpu_invD(2) [OF inv]]] by simp
next
  case (token_load t)
  then have st: "settled static detect (storage s)"
    using cpu_invD(2) [OF inv, of t] by (cases static; simp add: thread_inv_def)
  then have "token_get_body (storage s) = right_answer static detect" using token_load by (simp add: token_get_body_def)
  then show ?thesis
    using token_load(1) set_thread_inv [OF inv answer_inv [OF cpu_invD(2) [OF inv] st]] by simp
next
  case (share t u)
  have "settled static detect (storage s)"
    using share cpu_invD(2) [OF inv, of t] by (cases static; simp add: thread_inv_def)
  then have "thread_inv static detect (storage s) ((threads s u)\<lparr>token := True\<rparr>)"
    using cpu_invD(2) [OF inv, of u] by (simp add: thread_inv_def)
  then show ?thesis using share(1) set_thread_inv [OF inv] by simp
qed

lemma cpu_reachable_inv: "cpu_reachable static detect s \<Longrightarrow> cpu_inv static detect s"
  by (induction rule: cpu_reachable.induct) (auto intro: cpu_start_inv cpu_step_inv)

lemma x86_check_bits_all:
  "x86_check_bits cr bits \<longleftrightarrow> (\<forall>(i, reg, offset) \<in> set bits. bit (reg_of reg (cr ! i)) offset)"
proof -
  have "foldl (\<lambda>acc (i, reg, offset). acc \<and> reg_of reg (cr ! i) AND push_bit offset 1 \<noteq> 0) a bits \<longleftrightarrow>
      a \<and> (\<forall>(i, reg, offset) \<in> set bits. bit (reg_of reg (cr ! i)) offset)" for a
    by (induction bits arbitrary: a) (auto simp: and_exp_eq_0_iff_not_bit)
  then show ?thesis by (simp add: x86_check_bits_def)
qed

lemma all_checks_Some: "all_checks check tfs = Some True \<longleftrightarrow> (\<forall>tf \<in> set tfs. check tf = Some True)"
  by (induction tfs) (auto split: option.splits)

section \<open>Properties\<close>

text \<open>
  (C10) The lock-free cache is correct under every interleaving.  Any number of threads call
  \<open>init\<close>, \<open>get\<close> and \<open>init_get\<close> and use or share tokens.  If no feature is decided at
  compile time, every answer any call ever computed is the answer of detection, the storage holds that answer or the mark for
  uninitialised, and it holds the answer, not the mark, as soon as some call has returned or some thread holds a token, so
  \<open>InitToken::get\<close> may skip the check.  If \<open>__unless_target_features!\<close> puts a constant in
  place of the bodies, every answer is that constant and the storage is never written.
\<close>

theorem cache_agrees_with_detection:
  assumes "cpu_reachable static detect s"
  shows "case static of
      None \<Rightarrow>
        (\<forall>t. \<forall>r \<in> set (answers (threads s t)). r = detect) \<and>
        (storage s = UNINIT \<or> storage s = of_bool detect) \<and>
        (\<forall>t. token (threads s t) \<or> answers (threads s t) \<noteq> [] \<longrightarrow> storage s = of_bool detect)
    | Some b \<Rightarrow> (\<forall>t. \<forall>r \<in> set (answers (threads s t)). r = b) \<and> storage s = UNINIT"
  using cpu_reachable_inv [OF assms] by (cases static) (auto simp: cpu_inv_def thread_inv_def)

text \<open>A thread alone in its first \<open>init\<close>: load, detection, store.\<close>

definition first_load :: cpu_state where
  "first_load = set_thread cpu_start 7 ((threads cpu_start 7)\<lparr>phase := Loaded Init (storage cpu_start)\<rparr>)"

definition first_detection :: "bool \<Rightarrow> cpu_state" where
  "first_detection detect = set_thread first_load 7 ((threads first_load 7)\<lparr>phase := Detected Init detect\<rparr>)"

definition first_store :: "bool \<Rightarrow> cpu_state" where
  "first_store detect = (set_thread (first_detection detect) 7
     (finish Init (threads (first_detection detect) 7) detect))\<lparr>storage := of_bool detect\<rparr>"

lemmas first_defs = cpu_start_def set_thread_def first_load_def first_detection_def first_store_def finish_def answer_def

lemma first_run:
  "cpu_step None detect cpu_start first_load"
  "cpu_step None detect first_load (first_detection detect)"
  "cpu_step None detect (first_detection detect) (first_store detect)"
proof -
  show "cpu_step None detect cpu_start first_load"
    unfolding first_load_def by (rule cpu_step.load) (simp_all add: first_defs)
  show "cpu_step None detect first_load (first_detection detect)"
    unfolding first_detection_def by (rule cpu_step.detected) (simp_all add: first_defs)
  show "cpu_step None detect (first_detection detect) (first_store detect)"
    unfolding first_store_def by (rule cpu_step.store) (simp add: first_defs)
qed

theorem cache_agrees_with_detection_witness:
  "token (threads (first_store False) 7) \<and> answers (threads (first_store False) 7) = [False] \<and>
   storage (first_store False) = 0"
proof -
  have "cpu_reachable (static_answer (x86_unless False False)) False (first_store False)"
    unfolding static_answer_def x86_unless_def using first_run[of False] by simp (meson cpu_reachable.intros)
  from cache_agrees_with_detection[OF this] show ?thesis
    by (simp add: static_answer_def x86_unless_def first_defs)
qed

text \<open>Progress of one thread: how far it is in its call, and the answers it has.\<close>

fun phase_rank :: "phase \<Rightarrow> nat" where
  "phase_rank Idle = 0"
| "phase_rank (Loaded c v) = 1"
| "phase_rank (Detected c r) = 2"

definition moves :: "nat \<Rightarrow> cpu_state \<Rightarrow> cpu_state \<Rightarrow> bool" where
  "moves t s s' \<longleftrightarrow> phase (threads s' t) \<noteq> phase (threads s t) \<or> answers (threads s' t) \<noteq> answers (threads s t)"

fun own_steps :: "nat \<Rightarrow> cpu_state list \<Rightarrow> nat" where
  "own_steps t (s # s' # ss) = of_bool (moves t s s') + own_steps t (s' # ss)"
| "own_steps t ss = 0"

definition advance :: "nat \<Rightarrow> cpu_state \<Rightarrow> nat" where
  "advance t s = 3 * length (answers (threads s t)) + phase_rank (phase (threads s t))"

lemma phase_rank_le: "phase_rank p \<le> 2"
  by (cases p) simp_all

lemma step_advances: "cpu_step static detect s s' \<Longrightarrow> advance t s + of_bool (moves t s s') \<le> advance t s'"
  by (induction rule: cpu_step.induct)
    (auto simp: advance_def moves_def set_thread_def answer_def finish_def of_bool_def split: call.splits)

lemma run_advances:
  "successively (cpu_step static detect) (s # ss) \<Longrightarrow> advance t s + own_steps t (s # ss) \<le> advance t (last (s # ss))"
proof (induction ss arbitrary: s)
  case (Cons s' ss)
  have "advance t s + of_bool (moves t s s') \<le> advance t s'"
    using Cons.prems by (intro step_advances[of static detect]) simp
  then have "advance t s + own_steps t (s # s' # ss) \<le> advance t s' + own_steps t (s' # ss)"
    by (simp only: own_steps.simps add.assoc[symmetric] add_le_cancel_right)
  also have "\<dots> \<le> advance t (last (s' # ss))"
    using Cons.prems by (intro Cons.IH) simp
  also have "last (s' # ss) = last (s # s' # ss)" by simp
  finally show ?case .
qed simp

lemma finish_moves: "answers (finish c th r) = answers th @ [r]"
  by (cases c) (simp_all add: finish_def answer_def)

lemma can_move: "\<exists>s'. cpu_step static detect s s' \<and> moves t s s'"
proof (cases "phase (threads s t)")
  case Idle
  show ?thesis
  proof (cases static)
    case None
    with Idle show ?thesis by (intro exI conjI, rule cpu_step.load) (auto simp: moves_def set_thread_def)
  next
    case (Some b)
    with Idle show ?thesis
      by (intro exI conjI, rule cpu_step.const) (auto simp: moves_def set_thread_def finish_moves)
  qed
next
  case (Loaded c v)
  show ?thesis
  proof (cases "v = UNINIT")
    case True
    with Loaded show ?thesis by (intro exI conjI, rule cpu_step.detected) (auto simp: moves_def set_thread_def)
  next
    case False
    with Loaded show ?thesis
      by (intro exI conjI, rule cpu_step.cached) (auto simp: moves_def set_thread_def finish_moves)
  qed
next
  case (Detected c r)
  then show ?thesis by (intro exI conjI, rule cpu_step.store) (auto simp: moves_def set_thread_def finish_moves)
qed

text \<open>
  (C36) No thread waits for another.  In every state every thread can go on, and in every execution, whatever the others
  do, a thread that takes three steps of its own has its answer: with \<open>k\<close> steps, at least \<open>k div 3\<close> answers.
\<close>

theorem detection_wait_free:
  assumes "successively (cpu_step static detect) (s # ss)"
  shows "length (answers (threads s t)) + own_steps t (s # ss) div 3 \<le> length (answers (threads (last (s # ss)) t)) \<and>
    (\<exists>s'. cpu_step static detect (last (s # ss)) s' \<and> moves t (last (s # ss)) s')"
proof -
  have "3 * length (answers (threads s t)) + own_steps t (s # ss) \<le>
      3 * length (answers (threads (last (s # ss)) t)) + 2"
    using run_advances[OF assms, of t] phase_rank_le[of "phase (threads (last (s # ss)) t)"] unfolding advance_def
    by linarith
  then have "length (answers (threads s t)) + own_steps t (s # ss) div 3 \<le> length (answers (threads (last (s # ss)) t))"
    by linarith
  with can_move show ?thesis by blast
qed

theorem detection_wait_free_witness:
  "own_steps 7 [cpu_start, first_load, first_detection True, first_store True] = 3 \<and>
   1 \<le> length (answers (threads (first_store True) 7)) \<and>
   (\<exists>s'. cpu_step None True (first_store True) s' \<and> moves 7 (first_store True) s')"
proof -
  have run: "successively (cpu_step None True) [cpu_start, first_load, first_detection True, first_store True]"
    using first_run[of True] by simp
  have three: "own_steps 7 [cpu_start, first_load, first_detection True, first_store True] = 3"
    by (simp add: moves_def first_defs)
  show ?thesis
    using detection_wait_free[OF run, of 7] three by simp
qed

text \<open>
  One call alone on x86, whatever the storage holds in a reachable state: with the features enabled at compile time the
  answer is true, on SGX false, and otherwise the answer of detection.  \<open>get\<close> returns the same answer, and so does
  the token on the storage that \<open>init\<close> leaves.
\<close>

theorem init_get_returns_detection:
  fixes all_enabled sgx detect :: bool
  assumes "st = UNINIT \<or> st = of_bool detect"
  defines "result \<equiv> right_answer (static_answer (x86_unless all_enabled sgx)) detect"
  shows "fst (init_get (x86_unless all_enabled sgx) detect st) = result \<and>
         fst (cpu_get (x86_unless all_enabled sgx) detect st) = result \<and>
         token_get (x86_unless all_enabled sgx) (init (x86_unless all_enabled sgx) detect st) = result"
  using assms(1)
  by (auto simp: result_def static_answer_def init_get_def init_get_body_def cpu_get_def init_def token_get_def token_get_body_def x86_unless_def)

theorem init_get_returns_detection_witness:
  "fst (init_get (x86_unless False False) True UNINIT) = True \<and>
   fst (cpu_get (x86_unless False False) True UNINIT) = True \<and>
   token_get (x86_unless False False) (init (x86_unless False False) True UNINIT) = True"
  using init_get_returns_detection [of UNINIT True False False] by (simp add: static_answer_def x86_unless_def)

text \<open>
  x86 detection tests exactly the listed bits: it answers true exactly if, for every requested feature, all of the
  feature's bits are set in the CPUID results, and \<open>avx2\<close> or \<open>fma\<close> are reported only together with
  \<open>avx\<close>, as the manual asks.
\<close>

theorem x86_detect_bits:
  "(x86_detect cpuid cpuid_count tfs = Some True \<longleftrightarrow>
      (\<forall>tf \<in> set tfs. \<exists>bits. map_of x86_features tf = Some bits \<and>
         (\<forall>(i, reg, offset) \<in> set bits. bit (reg_of reg ([cpuid 1, cpuid_count 7 0] ! i)) offset))) \<and>
   (x86_detect cpuid cpuid_count [''avx2''] = Some True \<or> x86_detect cpuid cpuid_count [''fma''] = Some True \<longrightarrow>
      x86_detect cpuid cpuid_count [''avx''] = Some True)"
proof -
  have "x86_check cr tf = Some True \<longleftrightarrow>
      (\<exists>bits. map_of x86_features tf = Some bits \<and> x86_check_bits cr bits)" for cr tf
    by (auto simp: x86_check_def)
  then have main: "x86_detect cpuid cpuid_count tfs = Some True \<longleftrightarrow>
      (\<forall>tf \<in> set tfs. \<exists>bits. map_of x86_features tf = Some bits \<and>
         (\<forall>(i, reg, offset) \<in> set bits. bit (reg_of reg ([cpuid 1, cpuid_count 7 0] ! i)) offset))" for tfs
    by (simp add: x86_detect_def all_checks_Some x86_check_bits_all)
  show ?thesis unfolding main by (simp add: x86_features_def)
qed

theorem x86_detect_bits_witness:
  "x86_detect (\<lambda>_. \<lparr>ecx = push_bit 25 1, edx = 0, ebx = 0\<rparr>) (\<lambda>_ _. \<lparr>ecx = 0, edx = 0, ebx = 0\<rparr>) [''aes''] = Some True"
  using x86_detect_bits [of "\<lambda>_. \<lparr>ecx = push_bit 25 1, edx = 0, ebx = 0\<rparr>" "\<lambda>_ _. \<lparr>ecx = 0, edx = 0, ebx = 0\<rparr>" "[''aes'']"]
  by (simp add: x86_features_def bit_exp_iff [of 25, simplified] bit_push_bit_iff)

text \<open>
  On Linux for aarch64 a feature that stands for several capabilities is reported as soon as one of them is present:
  the check is \<open>!= 0\<close>, not equality with the mask, so a CPU with AES but without polynomial
  multiplication passes for \<open>aes\<close>, and one with SHA-512 but without SHA-3 for \<open>sha3\<close>.
\<close>

theorem linux_check_any_capability:
  assumes "hw AND HWCAP_AES libc \<noteq> 0" and "hw AND HWCAP_PMULL libc = 0"
    and "hw AND HWCAP_SHA512 libc \<noteq> 0" and "hw AND HWCAP_SHA3 libc = 0"
  shows "linux_detect libc hw [''aes''] = Some True \<and> linux_detect libc hw [''sha3''] = Some True"
  using assms
  by (simp add: linux_detect_def linux_check_def hwcaps_AES_def hwcaps_SHA3_def bit.conj_disj_distrib)

theorem linux_check_any_capability_witness:
  "linux_detect \<lparr>HWCAP_AES = 8, HWCAP_PMULL = 16, HWCAP_SHA2 = 64, HWCAP_SHA3 = 0x20000, HWCAP_SHA512 = 0x200000\<rparr>
     0x200008 [''aes''] = Some True \<and>
   linux_detect \<lparr>HWCAP_AES = 8, HWCAP_PMULL = 16, HWCAP_SHA2 = 64, HWCAP_SHA3 = 0x20000, HWCAP_SHA512 = 0x200000\<rparr>
     0x200008 [''sha3''] = Some True"
  by (rule linux_check_any_capability) simp_all

end
