(* ===== verification/Rust_Tests.thy ===== *)
theory Rust_Tests
  imports Rust_Prelude "HOL-Library.Sublist"
begin

text \<open>
  What the tests of the repository are written with: assertions, and the attribute \<open>should_panic\<close> with the text the
  message has to contain.  A test is an outcome; it passes if it returns.  The tests themselves are translated and run on
  the model in \<^verbatim>\<open>Unit_Tests\<close>, \<^verbatim>\<open>Buffer_Tests\<close>, \<^verbatim>\<open>Derive_Tests\<close>, \<^verbatim>\<open>Zeroize_Tests\<close> and \<^verbatim>\<open>Doc_Tests\<close>.
\<close>

definition assert_that :: "bool \<Rightarrow> unit outcome" where
  "assert_that b = rust_assert b Assert_Failed"

definition assert_eq :: "'a \<Rightarrow> 'a \<Rightarrow> unit outcome" where
  "assert_eq a b = rust_assert (a = b) Assert_Failed"

primrec all_of :: "unit outcome list \<Rightarrow> unit outcome" where
  "all_of [] = Return ()"
| "all_of (t # ts) = and_then t (\<lambda>_. all_of ts)"

definition passes :: "unit outcome \<Rightarrow> bool" where
  "passes t \<longleftrightarrow> returns t"

definition panics :: "'a outcome \<Rightarrow> bool" where
  "panics t \<longleftrightarrow> \<not> returns t"

definition should_panic :: "string \<Rightarrow> 'a outcome \<Rightarrow> bool" where
  "should_panic expected t = (case t of Panic (Message msg) \<Rightarrow> sublist expected msg | _ \<Rightarrow> False)"

definition ascii :: "string \<Rightarrow> bytes" where
  "ascii s = map of_char s"

definition line_feed :: string where
  "line_feed = [CHR 0x0A]"

lemma passes_iff: "passes t \<longleftrightarrow> t = Return ()"
  by (simp add: passes_def returns_iff)

lemma passes_all_of: "passes (all_of ts) \<longleftrightarrow> (\<forall>t \<in> set ts. passes t)"
  by (induction ts) (auto simp: passes_iff)

lemma passes_assert_eq [simp]: "passes (assert_eq a b) \<longleftrightarrow> a = b"
  by (simp add: passes_def assert_eq_def rust_assert_def)

lemma passes_assert_that [simp]: "passes (assert_that b) \<longleftrightarrow> b"
  by (simp add: passes_def assert_that_def rust_assert_def)

lemma assert_eq_refl [simp]: "assert_eq a a = Return ()"
  by (simp add: assert_eq_def)

lemma assert_that_True [simp]: "assert_that True = Return ()"
  by (simp add: assert_that_def)

lemma passes_Return [simp]: "passes (Return u)"
  by (simp add: passes_def)

lemma for_each_passes:
  assumes "\<And>x. x \<in> set xs \<Longrightarrow> f x () = Return ()"
  shows "passes (for_each f xs ())"
  using assms by (induction xs) (auto simp: passes_def)

end
