(* ===== verification/Unit_Tests.thy ===== *)
theory Unit_Tests
  imports Rust_Tests Hex_Literal Blobby Cmov Opaque_Debug
begin

text \<open>
  Test modules inside the crates, translated and run on the model: the comment filter of \<^verbatim>\<open>hex-literal\<close>
  (\<^verbatim>\<open>hex-literal/src/comments.rs\<close>) and the variable-length quantities of \<^verbatim>\<open>blobby\<close> (\<^verbatim>\<open>blobby/src/lib.rs\<close>); and the tests of
  \<^verbatim>\<open>cmov/tests/lib.rs\<close>, which pass on every backend that keeps the contract, and of \<^verbatim>\<open>opaque-debug/tests/mod.rs\<close>.
\<close>

section \<open>Comments\<close>

definition exclude_comments_str :: "string \<Rightarrow> string outcome" where
  "exclude_comments_str input =
     and_then (exclude_comments (new_from_iter (ascii input))) (\<lambda>bs. Return (map (\<lambda>b. char_of (unat b)) bs))"

definition assert_excluded :: "string \<Rightarrow> string \<Rightarrow> unit outcome" where
  "assert_excluded input expected = and_then (exclude_comments_str input) (\<lambda>s. assert_eq s expected)"

definition empty_comments :: "unit outcome" where
  "empty_comments = and_then (exclude_comments_str '''') (\<lambda>s. assert_that (s = []))"

definition single_char :: "unit outcome" where
  "single_char = assert_excluded ''0'' ''0''"

definition two_chars :: "unit outcome" where
  "two_chars = assert_excluded ''ab'' ''ab''"

definition comment :: "unit outcome" where
  "comment = assert_excluded ''ab//cd'' ''ab''"

definition comments_are_ended_by_new_line :: "unit outcome" where
  "comments_are_ended_by_new_line =
     assert_excluded (''ab//comment'' @ line_feed @ ''de'') (''ab'' @ line_feed @ ''de'')"

definition new_lines_without_comments :: "unit outcome" where
  "new_lines_without_comments = assert_excluded (''ab'' @ line_feed @ ''de'') (''ab'' @ line_feed @ ''de'')"

definition panic_on_single_slash :: bool where
  "panic_on_single_slash \<longleftrightarrow> panics (exclude_comments_str ''ab/cd'')"

definition line_comments_on_multiple_lines :: "unit outcome" where
  "line_comments_on_multiple_lines =
     assert_excluded
       (line_feed @ ''line 1 //comment 1'' @ line_feed @ ''line 2 // comment 2 // comment 3'' @ line_feed @
        ''line 3'' @ line_feed @ ''line 4 // comment 4'')
       (line_feed @ ''line 1 '' @ line_feed @ ''line 2 '' @ line_feed @ ''line 3'' @ line_feed @ ''line 4 '')"

definition block_comment :: "unit outcome" where
  "block_comment = assert_excluded ''ab/*comment*/12'' ''ab12''"

definition empty_block_comment :: "unit outcome" where
  "empty_block_comment = assert_excluded ''ab/**/12'' ''ab12''"

definition block_comment_with_asterisk_and_slash_inside :: "unit outcome" where
  "block_comment_with_asterisk_and_slash_inside = assert_excluded ''ab/*false * asterisk and / */12'' ''ab12''"

definition block_comment_within_line_comment :: "unit outcome" where
  "block_comment_within_line_comment = assert_excluded ''ab// /*comment*/12'' ''ab''"

definition block_comment_not_terminated :: bool where
  "block_comment_not_terminated \<longleftrightarrow> should_panic ''block comment not terminated with */'' (exclude_comments_str ''ab /*comment'')"

definition block_comment_not_completely_terminated :: bool where
  "block_comment_not_completely_terminated \<longleftrightarrow> should_panic ''block comment not terminated with */'' (exclude_comments_str ''ab /*comment*'')"

definition block_and_line_comments_on_multiple_lines :: "unit outcome" where
  "block_and_line_comments_on_multiple_lines =
     assert_excluded
       (line_feed @ ''line 1 /* comment 1 */'' @ line_feed @ ''line /* comment 2 */2 // line comment 1'' @ line_feed @
        ''line 3 /* some comments'' @ line_feed @ ''over multiple lines'' @ line_feed @ ''*/'' @ line_feed @
        ''line 4 /* more multiline comments'' @ line_feed @ ''* with leading'' @ line_feed @ ''* asterisks'' @ line_feed @
        ''*/end// line comment 2'')
       (line_feed @ ''line 1 '' @ line_feed @ ''line 2 '' @ line_feed @ ''line 3 '' @ line_feed @ ''line 4 end'')"

lemma comment_tests_pass:
  "passes empty_comments" "passes single_char" "passes two_chars" "passes comment"
  "passes comments_are_ended_by_new_line" "passes new_lines_without_comments" panic_on_single_slash
  "passes line_comments_on_multiple_lines" "passes block_comment" "passes empty_block_comment"
  "passes block_comment_with_asterisk_and_slash_inside" "passes block_comment_within_line_comment"
  block_comment_not_terminated block_comment_not_completely_terminated
  "passes block_and_line_comments_on_multiple_lines"
  by code_simp+

section \<open>Variable-length quantities\<close>

text \<open>
  The test has an \<open>encode_vlq\<close> of its own, the same steps on a buffer that is used again for every value.  The bytes
  left in the buffer by earlier values do not matter.
\<close>

definition encode_vlq_into :: "nat \<Rightarrow> bytes \<Rightarrow> bytes outcome" where
  "encode_vlq_into val buf = encode_vlq_steps 3 val buf"

definition encode_decode_step :: "bytes \<Rightarrow> nat \<Rightarrow> unit \<Rightarrow> unit outcome" where
  "encode_decode_step buf val u =
     and_then (encode_vlq_into val buf) (\<lambda>res.
     and_then (unwrap (fst (read_vlq res 0))) (\<lambda>val_res. assert_eq val val_res))"

definition encode_decode :: "bytes \<Rightarrow> unit outcome" where
  "encode_decode buf = for_each (encode_decode_step buf) [0..<270549120] ()"

definition vlq_examples :: bytes where
  "vlq_examples =
     [0b00000000, 0b00000010, 0b01111111,
      0b10000000, 0b00000000,
      0b11111111, 0b01111111,
      0b10000000, 0b10000000, 0b00000000,
      0b11111111, 0b11111111, 0b01111111,
      0b10000000, 0b10000000, 0b10000000, 0b00000000,
      0b11111111, 0b11111111, 0b11111111, 0b01111111,
      0b11111111, 0b11111111, 0b11111111, 0b11111111, 0b01111111]"

definition vlq_targets :: "(nat \<times> nat) list" where
  "vlq_targets =
     [(0, 1), (2, 1), (127, 1), (128, 2), (16511, 2), (16512, 3), (2113663, 3), (2113664, 4), (270549119, 4)]"

definition vlq_target :: "bytes \<Rightarrow> nat \<times> nat \<Rightarrow> nat \<Rightarrow> nat outcome" where
  "vlq_target buf target prev_pos =
     (let (val, size) = target;
          (res, pos) = read_vlq vlq_examples prev_pos
      in and_then (assert_eq res (Ok val)) (\<lambda>_.
         and_then (checked_sub pos prev_pos) (\<lambda>d.
         and_then (assert_eq d size) (\<lambda>_.
         and_then (encode_vlq_into val buf) (\<lambda>enc.
         and_then (slice vlq_examples prev_pos pos) (\<lambda>expected.
         and_then (assert_eq enc expected) (\<lambda>_. Return pos)))))))"

definition test_vlq :: "bytes \<Rightarrow> unit outcome" where
  "test_vlq buf =
     and_then (for_each (vlq_target buf) vlq_targets 0) (\<lambda>pos.
       let (res, pos) = read_vlq vlq_examples pos in
       and_then (assert_eq res (Err InvalidVlq)) (\<lambda>_. assert_eq pos 25))"

lemma encode_vlq_into_eq:
  assumes "length buf = 4"
  shows "encode_vlq_into val buf = encode_vlq val"
proof -
  have "encode_vlq_steps 2 w (buf[3 := b]) = encode_vlq_steps 2 w ((replicate 4 0)[3 := b])" if "0 < w" for w b
    using that assms by (simp add: encode_vlq_steps_digits drop_update_here)
  then show ?thesis
    using assms
    by (auto simp: encode_vlq_into_def encode_vlq_def encode_vlq_steps.simps [of 3] case_3 drop_update_here Let_def)
qed

lemma vlq_digits_numeral: "vlq_digits (numeral k) = vlq_digits (pred_numeral k div 128) @ [pred_numeral k mod 128]"
  by (subst numeral_eq_Suc) (rule vlq_digits.simps(2))

lemmas read_vlq_steps_numeral = read_vlq_steps.simps(2) [of "pred_numeral k" for k, folded numeral_eq_Suc]

lemma vlq_unit_tests_pass:
  assumes "length buf = 4"
  shows "passes (encode_decode buf)" "passes (test_vlq buf)"
proof -
  have "encode_decode_step buf val () = Return ()" if "val < 270549120" for val
  proof -
    from that have "encode_vlq val = Return (vlq_bytes (vlq_digits (val + 1)))" by (simp add: encode_vlq_digits)
    from this read_encode_vlq [OF this, of "[]" "[]"] show ?thesis
      by (simp add: encode_decode_step_def encode_vlq_into_eq [OF assms] assert_eq_def)
  qed
  then show "passes (encode_decode buf)"
    unfolding encode_decode_def by (intro for_each_passes) simp
  show "passes (test_vlq buf)"
    by (simp add: test_vlq_def vlq_target_def vlq_targets_def vlq_examples_def encode_vlq_into_eq [OF assms] passes_def
        encode_vlq_digits read_vlq_def read_vlq_steps_numeral vlq_digits_numeral NEXT_MASK_def VAL_MASK_def checked_sub_def slice_def assert_eq_def)
qed

section \<open>Conditional moves\<close>

text \<open>The modules \<open>u8\<close> to \<open>u128\<close> have the same two tests for different values.\<close>

definition cmovz_works :: "('a \<Rightarrow> 'a \<Rightarrow> u8 \<Rightarrow> 'a) \<Rightarrow> 'a \<Rightarrow> 'a \<Rightarrow> unit outcome" where
  "cmovz_works cmovz start value =
     and_then (for_each (\<lambda>cond n. let n = cmovz n value (of_nat cond) in and_then (assert_eq n start) (\<lambda>_. Return n))
       [1..<0xFF] start) (\<lambda>n. assert_eq (cmovz n value 0) value)"

definition cmovnz_works :: "('a \<Rightarrow> 'a \<Rightarrow> u8 \<Rightarrow> 'a) \<Rightarrow> 'a \<Rightarrow> 'a \<Rightarrow> 'a \<Rightarrow> unit outcome" where
  "cmovnz_works cmovnz start start' value =
     and_then (assert_eq (cmovnz start value 0) start) (\<lambda>_.
       for_each (\<lambda>cond _. assert_eq (cmovnz start' value (of_nat cond)) value) [1..<0xFF] ())"

definition u8_tests :: "(u8 \<Rightarrow> u8 \<Rightarrow> u8 \<Rightarrow> u8) \<Rightarrow> (u8 \<Rightarrow> u8 \<Rightarrow> u8 \<Rightarrow> u8) \<Rightarrow> unit outcome" where
  "u8_tests cmovz cmovnz = all_of [cmovz_works cmovz 0x11 0x22, cmovnz_works cmovnz 0x11 0x11 0x22]"

definition u16_tests :: "(u16 \<Rightarrow> u16 \<Rightarrow> u8 \<Rightarrow> u16) \<Rightarrow> (u16 \<Rightarrow> u16 \<Rightarrow> u8 \<Rightarrow> u16) \<Rightarrow> unit outcome" where
  "u16_tests cmovz cmovnz = all_of [cmovz_works cmovz 0x1111 0x2222, cmovnz_works cmovnz 0x1111 0x1111 0x2222]"

definition u32_tests :: "(u32 \<Rightarrow> u32 \<Rightarrow> u8 \<Rightarrow> u32) \<Rightarrow> (u32 \<Rightarrow> u32 \<Rightarrow> u8 \<Rightarrow> u32) \<Rightarrow> unit outcome" where
  "u32_tests cmovz cmovnz =
     all_of [cmovz_works cmovz 0x11111111 0x22222222, cmovnz_works cmovnz 0x11111111 0x11111111 0x22222222]"

definition u64_tests :: "(u64 \<Rightarrow> u64 \<Rightarrow> u8 \<Rightarrow> u64) \<Rightarrow> (u64 \<Rightarrow> u64 \<Rightarrow> u8 \<Rightarrow> u64) \<Rightarrow> unit outcome" where
  "u64_tests cmovz cmovnz =
     all_of [cmovz_works cmovz 0x1111111111111111 0x2222222222222222,
             cmovnz_works cmovnz 0x1111111111111111 0x1111111111111111 0x2222222222222222]"

definition u128_tests :: "(u128 \<Rightarrow> u128 \<Rightarrow> u8 \<Rightarrow> u128) \<Rightarrow> (u128 \<Rightarrow> u128 \<Rightarrow> u8 \<Rightarrow> u128) \<Rightarrow> unit outcome" where
  "u128_tests cmovz cmovnz =
     all_of [cmovz_works cmovz 0x11111111111111112222222222222222 0x22222222222222223333333333333333,
             cmovnz_works cmovnz 0x11111111111111112222222222222222 0x1111111111111111 0x22222222222222223333333333333333]"

lemma of_nat_u8_nonzero: "0 < n \<Longrightarrow> n < 256 \<Longrightarrow> (of_nat n :: u8) \<noteq> 0"
  using unat_of_nat [of n, where 'a = 8] by force

lemma for_each_invariant: "(\<And>x. x \<in> set xs \<Longrightarrow> f x s = Return s) \<Longrightarrow> for_each f xs s = Return s"
  by (induction xs) auto

lemma cmov_works_spec: "cmovz_works cmovz_spec start value = Return ()" "cmovnz_works cmovnz_spec start start' value = Return ()"
  unfolding cmovz_works_def cmovnz_works_def
  by (subst for_each_invariant; simp add: cmovz_spec_def cmovnz_spec_def of_nat_u8_nonzero)+

lemmas width_tests_def = u8_tests_def u16_tests_def u32_tests_def u64_tests_def u128_tests_def

context cmov_backend
begin

lemma tests_pass:
  "passes (u8_tests (cmovz_u8 cmovz16) (cmovnz_u8 cmovnz16))" "passes (u16_tests cmovz16 cmovnz16)"
  "passes (u32_tests cmovz32 cmovnz32)" "passes (u64_tests cmovz64 cmovnz64)"
  "passes (u128_tests (cmovz_u128 cmovz64) (cmovnz_u128 cmovnz64))"
  unfolding width_tests_def u8_ok u128_ok
  by (simp_all add: cmovz16 cmovnz16 cmovz32 cmovnz32 cmovz64 cmovnz64 cmov_works_spec)

end

lemmas portable_cmov_tests_pass = portable.tests_pass
lemmas x86_cmov_tests_pass = x86.tests_pass
lemmas aarch64_cmov_tests_pass = aarch64.tests_pass

section \<open>Opaque debug output\<close>

definition debug_formatting :: "unit outcome" where
  "debug_formatting = assert_eq (opaque_fmt ''Foo'' (42 :: u64) []) (Some ''Foo { ... }'')"

lemma debug_formatting_passes: "passes debug_formatting"
  by (simp add: debug_formatting_def opaque_fmt_hides)

end
