(* ===== verification/Buffer_Tests.thy ===== *)
theory Buffer_Tests
  imports Rust_Tests Read_Buffer
begin

text \<open>
  The tests of \<^verbatim>\<open>block-buffer/tests/mod.rs\<close>, translated and run on the model.

  The closures of the digest tests check each call against a table; here they record their calls, and the record is
  compared with the table in the end.  A call is recorded with the number of the input that caused it.
\<close>

section \<open>Digesting\<close>

type_synonym calls = "(nat \<times> bytes list) list"

definition digest_step ::
  "'p sealed \<Rightarrow> nat \<Rightarrow> nat \<times> bytes \<times> nat \<Rightarrow> 'p block_buffer \<times> calls \<Rightarrow> ('p block_buffer \<times> calls) outcome" where
  "digest_step K bs step st =
     (let (i, input, exp_pos) = step; (buf, n) = st in
      and_then (digest_blocks K bs (\<lambda>n b. n @ [(i, b)]) buf input n) (\<lambda>(buf, n).
      and_then (bb_get_pos K bs buf) (\<lambda>p.
      and_then (assert_eq exp_pos p) (\<lambda>_. Return (buf, n)))))"

definition digest_test :: "'p sealed \<Rightarrow> string list \<Rightarrow> (nat \<times> string list) list \<Rightarrow> nat list \<Rightarrow> bytes \<Rightarrow> unit outcome" where
  "digest_test K inputs exp_blocks exp_poses padded =
     and_then (for_each (digest_step K 4) (enumerate 0 (zip (map ascii inputs) exp_poses)) (bb_default K 4, [])) (\<lambda>(buf, n).
     and_then (assert_eq n (map (\<lambda>(i, bs). (i, map ascii bs)) exp_blocks)) (\<lambda>_.
     and_then (pad_with_zeros K 4 buf) (\<lambda>(block, buf).
     and_then (assert_eq block padded) (\<lambda>_.
     and_then (bb_get_pos K 4 buf) (\<lambda>p. assert_eq p 0)))))"

definition test_eager_digest_pad :: "unit outcome" where
  "test_eager_digest_pad =
     digest_test Eager [''01234567'', ''89'', ''abcdefghij'', ''klmnopqrs'', ''tuv'', ''wx'']
       [(0, [''0123'', ''4567'']), (2, [''89ab'']), (2, [''cdef'', ''ghij'']), (3, [''klmn'', ''opqr'']), (4, [''stuv''])]
       [0, 2, 0, 1, 0, 2] (ascii ''wx'' @ [0, 0])"

definition test_lazy_digest_pad :: "unit outcome" where
  "test_lazy_digest_pad =
     digest_test Lazy [''01234567'', ''89'', ''abcdefghij'', ''klmnopqrs'']
       [(0, [''0123'']), (1, [''4567'']), (2, [''89ab'']), (2, [''cdef'']), (3, [''ghij'']), (3, [''klmn'', ''opqr''])]
       [4, 2, 4, 1] (ascii ''s'' @ [0, 0, 0])"

section \<open>Reading\<close>

definition read_step ::
  "('g \<Rightarrow> bytes \<Rightarrow> bytes \<times> 'g) \<Rightarrow> bytes \<times> nat \<times> nat \<Rightarrow> read_buffer \<times> 'g \<Rightarrow> (read_buffer \<times> 'g) outcome" where
  "read_step gen step st =
     (let (expected, exp_pos, exp_remaining) = step; (buf, g) = st in
      and_then (rb_read 4 gen buf (replicate (length expected) 0) g) (\<lambda>(buf, out, g).
      and_then (assert_eq out expected) (\<lambda>_.
      and_then (rb_get_pos 4 buf) (\<lambda>p.
      and_then (assert_eq p exp_pos) (\<lambda>_.
      and_then (rb_remaining 4 buf) (\<lambda>r.
      and_then (assert_eq r exp_remaining) (\<lambda>_. Return (buf, g))))))))"

definition constant_blocks :: "u8 \<Rightarrow> bytes \<Rightarrow> bytes \<times> u8" where
  "constant_blocks n block = (map (\<lambda>_. n) block, n + 1)"

definition test_read :: "unit outcome" where
  "test_read =
     and_then (rb_default 4) (\<lambda>buf.
     and_then (for_each (read_step constant_blocks) [([0, 0, 0, 0, 1, 1], 2, 2), ([1, 1, 2], 1, 3), ([2, 2, 2], 4, 0)] (buf, 0))
       (\<lambda>(buf, n). assert_eq n 3))"

section \<open>Paddings\<close>

text \<open>\<open>|block| out.extend(block)\<close>\<close>

definition extend_out :: "bytes \<Rightarrow> bytes \<Rightarrow> bytes" where
  "extend_out out block = out @ block"

definition padding_test ::
  "nat \<Rightarrow> (nat \<Rightarrow> (bytes \<Rightarrow> bytes \<Rightarrow> bytes) \<Rightarrow> unit block_buffer \<Rightarrow> bytes \<Rightarrow> (unit block_buffer \<times> bytes) outcome) \<Rightarrow> bytes \<Rightarrow>
   unit outcome" where
  "padding_test bs padding expected =
     and_then (bb_new Eager bs [0x42]) (\<lambda>buf.
     and_then (padding bs extend_out (bb_clone buf) []) (\<lambda>(buf, out). assert_eq out expected))"

definition test_eager_paddings :: "unit outcome" where
  "test_eager_paddings =
     (let len = 0x0001020304050607; len128 = 0x000102030405060708090a0b0c0d0e0f in
      all_of
        [padding_test 8 (\<lambda>bs f buf. len64_padding_be bs f buf len)
           [0x42, 0x80, 0, 0, 0, 0, 0, 0, 0, 1, 2, 3, 4, 5, 6, 7],
         padding_test 8 (\<lambda>bs f buf. len64_padding_le bs f buf len)
           [0x42, 0x80, 0, 0, 0, 0, 0, 0, 7, 6, 5, 4, 3, 2, 1, 0],
         padding_test 10 (\<lambda>bs f buf. len64_padding_be bs f buf len)
           [0x42, 0x80, 0, 1, 2, 3, 4, 5, 6, 7],
         padding_test 10 (\<lambda>bs f buf. len64_padding_le bs f buf len)
           [0x42, 0x80, 7, 6, 5, 4, 3, 2, 1, 0],
         padding_test 16 (\<lambda>bs f buf. len128_padding_be bs f buf len128)
           ([0x42, 0x80] @ replicate 14 0 @ [0, 1, 2, 3, 4, 5, 6, 7, 8, 9, 10, 11, 12, 13, 14, 15]),
         padding_test 24 (\<lambda>bs f buf. len128_padding_be bs f buf len128)
           ([0x42, 0x80] @ replicate 6 0 @ [0, 1, 2, 3, 4, 5, 6, 7, 8, 9, 10, 11, 12, 13, 14, 15]),
         padding_test 4 (\<lambda>bs f buf. digest_pad bs f buf 0xff [0x10, 0x11, 0x12])
           [0x42, 0xff, 0, 0, 0, 0x10, 0x11, 0x12],
         padding_test 4 (\<lambda>bs f buf. digest_pad bs f buf 0xff [0x10, 0x11])
           [0x42, 0xff, 0x10, 0x11]])"

definition is_ok :: "('e, 'a) result \<Rightarrow> bool" where
  "is_ok r = (case r of Ok _ \<Rightarrow> True | Err _ \<Rightarrow> False)"

definition assert_ok :: "bool \<Rightarrow> ('e, 'a) result outcome \<Rightarrow> unit outcome" where
  "assert_ok b t = and_then t (\<lambda>r. assert_eq (is_ok r) b)"

definition test_try_new :: "unit outcome" where
  "test_try_new =
     all_of [assert_ok True (try_new Eager 4 (replicate 3 0)), assert_ok False (try_new Eager 4 (replicate 4 0)),
             assert_ok True (try_new Lazy 4 (replicate 4 0)), assert_ok False (try_new Lazy 4 (replicate 5 0))]"

section \<open>Serialising\<close>

text \<open>
  The three tests share a plan: a buffer is serialised, restored and compared, the original and the restored copies
  take the same further inputs, and invalid arrays are refused.
\<close>

definition restored :: "(bytes \<Rightarrow> (Error, 'b) result outcome) \<Rightarrow> ('b \<Rightarrow> bytes outcome) \<Rightarrow> bytes \<Rightarrow> unit outcome" where
  "restored deserialize serialize ser =
     and_then (deserialize ser) (\<lambda>r. and_then (unwrap r) (\<lambda>buf. and_then (serialize buf) (\<lambda>ser'. assert_eq ser' ser)))"

definition restore :: "(bytes \<Rightarrow> (Error, 'b) result outcome) \<Rightarrow> bytes \<Rightarrow> 'b outcome" where
  "restore deserialize ser = and_then (deserialize ser) unwrap"

definition feed :: "'p sealed \<Rightarrow> 'p block_buffer \<Rightarrow> u8 list \<Rightarrow> 'p block_buffer outcome" where
  "feed K buf input = and_then (digest_blocks K 4 (\<lambda>u _. u) buf input ()) (\<lambda>(buf, _). Return buf)"

definition serialize_test ::
  "'p sealed \<Rightarrow> ('p block_buffer \<Rightarrow> bytes outcome) \<Rightarrow> (bytes \<Rightarrow> (Error, 'p block_buffer) result outcome) \<Rightarrow> bytes list \<Rightarrow>
   unit outcome" where
  "serialize_test K serialize deserialize sers =
     (let buf1 = bb_default K 4; is = (\<lambda>buf i. and_then (serialize buf) (\<lambda>s. assert_eq s (sers ! i))) in
      and_then (is buf1 0) (\<lambda>_.
      and_then (restored deserialize serialize (sers ! 0)) (\<lambda>_.
      and_then (feed K buf1 [41, 42]) (\<lambda>buf1.
      and_then (is buf1 1) (\<lambda>_.
      and_then (restore deserialize (sers ! 1)) (\<lambda>buf2.
      and_then (feed K buf1 [43]) (\<lambda>buf1.
      and_then (feed K buf2 [43]) (\<lambda>buf2.
      and_then (is buf1 2) (\<lambda>_.
      and_then (restore deserialize (sers ! 2)) (\<lambda>buf3.
      and_then (is buf3 2) (\<lambda>_.
      and_then (try_map (\<lambda>buf. feed K buf [44]) [buf1, buf2, buf3]) (\<lambda>bufs.
      and_then (all_of (map (\<lambda>buf. is buf 3) bufs)) (\<lambda>_.
        if length sers = 4 then Return ()
        else and_then (try_map (\<lambda>buf. feed K buf [45]) bufs) (\<lambda>bufs. all_of (map (\<lambda>buf. is buf 4) bufs)))))))))))))))"

definition test_eager_serialize :: "unit outcome" where
  "test_eager_serialize =
     and_then (serialize_test Eager (eager_serialize 4) (eager_deserialize 4)
       [[0, 0, 0, 0], [41, 42, 0, 2], [41, 42, 43, 3], [0, 0, 0, 0]]) (\<lambda>_.
     all_of (map (\<lambda>buf. assert_ok False (eager_deserialize 4 buf))
       [[0, 0, 0, 4], [0, 0, 0, 10], [1, 0, 0, 0], [0, 1, 0, 1], [0, 0, 1, 2]]))"

definition test_lazy_serialize :: "unit outcome" where
  "test_lazy_serialize =
     and_then (serialize_test Lazy (lazy_serialize 4) (lazy_deserialize 4)
       [[0, 0, 0, 0, 0], [2, 41, 42, 0, 0], [3, 41, 42, 43, 0], [4, 41, 42, 43, 44], [1, 45, 0, 0, 0]]) (\<lambda>_.
     all_of (map (\<lambda>buf. assert_ok False (lazy_deserialize 4 buf))
       [[10, 0, 0, 0, 0], [5, 0, 0, 0, 0], [0, 1, 0, 0, 0], [1, 0, 1, 0, 0], [2, 0, 0, 1, 0], [3, 0, 0, 0, 1]]))"

fun counting_bytes :: "u8 \<Rightarrow> bytes \<Rightarrow> bytes \<times> u8" where
  "counting_bytes n [] = ([], n)"
| "counting_bytes n (b # bs) = (let (bs', n') = counting_bytes (n + 1) bs in (n # bs', n'))"

fun read_each :: "nat \<Rightarrow> read_buffer list \<Rightarrow> u8 \<Rightarrow> (read_buffer list \<times> u8) outcome" where
  "read_each k [] n = Return ([], n)"
| "read_each k (buf # bufs) n =
     and_then (rb_read 4 counting_bytes buf (replicate k 0) n) (\<lambda>(buf, _, n).
     and_then (read_each k bufs n) (\<lambda>(bufs, n). Return (buf # bufs, n)))"

definition all_serialize :: "read_buffer list \<Rightarrow> bytes list \<Rightarrow> unit outcome" where
  "all_serialize bufs sers = and_then (try_map (rb_serialize 4) bufs) (\<lambda>s. assert_eq s sers)"

definition test_read_serialize :: "unit outcome" where
  "test_read_serialize =
     and_then (rb_default 4) (\<lambda>buf1.
     and_then (all_serialize [buf1] [[4, 0, 0, 0]]) (\<lambda>_.
     and_then (restored (rb_deserialize 4) (rb_serialize 4) [4, 0, 0, 0]) (\<lambda>_.
     and_then (read_each 2 [buf1] 42) (\<lambda>(bufs, n).
     and_then (all_serialize bufs [[2, 0, 44, 45]]) (\<lambda>_.
     and_then (restore (rb_deserialize 4) [2, 0, 44, 45]) (\<lambda>buf2.
     and_then (read_each 1 (bufs @ [buf2]) n) (\<lambda>(bufs, n).
     and_then (all_serialize [hd bufs] [[3, 0, 0, 45]]) (\<lambda>_.
     and_then (restore (rb_deserialize 4) [3, 0, 0, 45]) (\<lambda>buf3.
     and_then (all_serialize [buf3] [[3, 0, 0, 45]]) (\<lambda>_.
     and_then (read_each 1 (bufs @ [buf3]) n) (\<lambda>(bufs, n).
     and_then (all_serialize bufs [[4, 0, 0, 0], [4, 0, 0, 0], [4, 0, 0, 0]]) (\<lambda>_.
     and_then (read_each 1 bufs n) (\<lambda>(bufs, n).
     and_then (all_serialize bufs [[1, 47, 48, 49], [1, 51, 52, 53], [1, 55, 56, 57]]) (\<lambda>_.
     all_of (map (\<lambda>buf. assert_ok False (rb_deserialize 4 buf))
       [[0, 0, 0, 0], [5, 0, 0, 0], [10, 0, 0, 0], [2, 1, 0, 0], [3, 0, 1, 0], [4, 0, 0, 1]])))))))))))))))"

section \<open>All tests pass\<close>

lemma digest_tests_pass: "passes test_eager_digest_pad" "passes test_lazy_digest_pad"
  by code_simp+

lemma read_test_passes: "passes test_read"
  by code_simp

lemma padding_tests_pass: "passes test_eager_paddings" "passes test_try_new"
  by code_simp+

lemma serialize_tests_pass: "passes test_eager_serialize" "passes test_lazy_serialize" "passes test_read_serialize"
  by code_simp+

end
