(* ===== verification/Derive_Tests.thy ===== *)
theory Derive_Tests
  imports Rust_Tests Zeroize_Derive
begin

text \<open>
  The test module of \<^verbatim>\<open>zeroize/derive/src/lib.rs\<close>, translated and run on the model of the derive macros.

  The items are written the way \<^verbatim>\<open>syn\<close> presents them, with the text of a type as the type.  An expansion is the
  sequence of generated implementations; \<open>const _\<close> wrappers and attributes around them are not part of the model.  The
  parser for bounds is the parameter of the macro; what it does on the two bounds of the tests is a hypothesis.
\<close>

section \<open>Items\<close>

type_synonym bounds_parser = "string \<Rightarrow> (string, string list) result"
type_synonym test_item = "(string, string) Structure"

definition zeroize_attr :: "nested list \<Rightarrow> attribute" where
  "zeroize_attr ns = Some (MetaList [''zeroize''] ns)"

abbreviation flag :: "string \<Rightarrow> nested" where
  "flag name \<equiv> NMeta (MetaPath [name])"

abbreviation bound_flag :: "string \<Rightarrow> nested" where
  "bound_flag text \<equiv> NMeta (MetaNameValue [''bound''] (LitStr text))"

definition test_field :: "attribute list \<Rightarrow> string \<Rightarrow> string field" where
  "test_field attrs ty = \<lparr>field_attrs = attrs, field_type = ty\<rparr>"

definition test_variant :: "attribute list \<Rightarrow> string field list \<Rightarrow> string variant" where
  "test_variant attrs fs = \<lparr>prefix = Some ''Z'', variant_attrs = attrs, bindings = fs\<rparr>"

definition test_struct :: "attribute list \<Rightarrow> string field list \<Rightarrow> test_item" where
  "test_struct attrs fs =
     \<lparr>ast_attrs = attrs, variants = [\<lparr>prefix = None, variant_attrs = attrs, bindings = fs\<rparr>],
      infer_bounds = True, where_predicates = []\<rparr>"

definition test_enum :: "attribute list \<Rightarrow> string variant list \<Rightarrow> test_item" where
  "test_enum attrs vs = \<lparr>ast_attrs = attrs, variants = vs, infer_bounds = True, where_predicates = []\<rparr>"

text \<open>The fields \<open>a: String, b: Vec<u8>, c: [u8; 3]\<close>, with their attributes.\<close>

definition fields_abc :: "attribute list \<Rightarrow> attribute list \<Rightarrow> attribute list \<Rightarrow> string field list" where
  "fields_abc a b c = [test_field a ''String'', test_field b ''Vec<u8>'', test_field c ''[u8; 3]'']"

definition parse_zeroize_test :: "bounds_parser \<Rightarrow> test_item \<Rightarrow> (string, string) impl list outcome" where
  "parse_zeroize_test pb item = derive_zeroize pb item"

section \<open>Expansions\<close>

abbreviation no_bounds :: "bool \<Rightarrow> string where_clause" where
  "no_bounds b \<equiv> \<lparr>inferred = b, predicates = []\<rparr>"

definition one_arm :: "string \<Rightarrow> (nat \<times> string) list \<Rightarrow> string match_body" where
  "one_arm meth calls = \<lparr>call_method = meth, arms = [(0, calls)], omitted_variants = False\<rparr>"

definition calls_abc :: "(nat \<times> string) list" where
  "calls_abc = [(0, ''String''), (1, ''Vec<u8>''), (2, ''[u8; 3]'')]"

definition zeroize_without_drop :: bool where
  "zeroize_without_drop \<longleftrightarrow>
     derive_zeroize_without_drop (test_struct [] (fields_abc [] [] [])) =
       Return [Zeroize_impl (no_bounds True) (one_arm ''zeroize'' calls_abc)]"

definition zeroize_with_drop :: bool where
  "zeroize_with_drop \<longleftrightarrow>
     derive_zeroize_with_drop (test_struct [] (fields_abc [] [] [])) =
       Return [Zeroize_impl (no_bounds True) (one_arm ''zeroize'' calls_abc), Drop_impl (no_bounds True) None]"

definition zeroize_with_skip :: bool where
  "zeroize_with_skip \<longleftrightarrow>
     derive_zeroize_without_drop (test_struct [] (fields_abc [] [] [zeroize_attr [flag ''skip'']])) =
       Return [Zeroize_impl (no_bounds True) (one_arm ''zeroize'' [(0, ''String''), (1, ''Vec<u8>'')])]"

definition zeroize_with_bound :: "bounds_parser \<Rightarrow> bool" where
  "zeroize_with_bound pb \<longleftrightarrow>
     derive_zeroize pb (test_struct [zeroize_attr [bound_flag ''T: MyTrait'']] [test_field [] ''T'']) =
       Return [Zeroize_impl \<lparr>inferred = False, predicates = [''T: MyTrait'']\<rparr> (one_arm ''zeroize'' [(0, ''T'')])]"

definition zeroize_only_drop :: bool where
  "zeroize_only_drop \<longleftrightarrow>
     derive_zeroize_on_drop (test_struct [] (fields_abc [] [] [])) =
       Return [Drop_impl (no_bounds False) (Some (one_arm ''zeroize_or_on_drop'' calls_abc)),
               ZeroizeOnDrop_impl (no_bounds False)]"

section \<open>Attributes\<close>

definition quoted :: "string \<Rightarrow> string" where
  "quoted s = [CHR 0x22] @ s @ [CHR 0x22]"

definition zeroize_on_struct :: "bounds_parser \<Rightarrow> bool" where
  "zeroize_on_struct pb \<longleftrightarrow>
     returns (parse_zeroize_test pb (test_struct [zeroize_attr [flag ''drop'']] (fields_abc [] [] [])))"

definition zeroize_on_enum :: "bounds_parser \<Rightarrow> bool" where
  "zeroize_on_enum pb \<longleftrightarrow>
     returns (parse_zeroize_test pb (test_enum [zeroize_attr [flag ''drop'']] [test_variant [] (fields_abc [] [] [])]))"

definition zeroize_on_struct_field :: "bounds_parser \<Rightarrow> bool" where
  "zeroize_on_struct_field pb \<longleftrightarrow>
     should_panic ''#[zeroize(drop)] attribute is not allowed on struct fields''
       (parse_zeroize_test pb (test_struct [] (fields_abc [zeroize_attr [flag ''drop'']] [] [])))"

definition zeroize_on_tuple_struct_field :: "bounds_parser \<Rightarrow> bool" where
  "zeroize_on_tuple_struct_field pb \<longleftrightarrow>
     should_panic ''#[zeroize(drop)] attribute is not allowed on struct fields''
       (parse_zeroize_test pb (test_struct [] [test_field [zeroize_attr [flag ''drop'']] ''String'']))"

definition zeroize_on_second_field :: "bounds_parser \<Rightarrow> bool" where
  "zeroize_on_second_field pb \<longleftrightarrow>
     should_panic ''#[zeroize(drop)] attribute is not allowed on struct fields''
       (parse_zeroize_test pb (test_struct [] (fields_abc [] [zeroize_attr [flag ''drop'']] [])))"

definition zeroize_on_tuple_enum_variant_field :: "bounds_parser \<Rightarrow> bool" where
  "zeroize_on_tuple_enum_variant_field pb \<longleftrightarrow>
     should_panic ''#[zeroize(drop)] attribute is not allowed on enum fields''
       (parse_zeroize_test pb (test_enum [] [test_variant [] [test_field [zeroize_attr [flag ''drop'']] ''String'']]))"

definition zeroize_on_enum_variant_field :: "bounds_parser \<Rightarrow> bool" where
  "zeroize_on_enum_variant_field pb \<longleftrightarrow>
     should_panic ''#[zeroize(drop)] attribute is not allowed on enum fields''
       (parse_zeroize_test pb (test_enum [] [test_variant [] (fields_abc [zeroize_attr [flag ''drop'']] [] [])]))"

definition zeroize_on_enum_second_variant_field :: "bounds_parser \<Rightarrow> bool" where
  "zeroize_on_enum_second_variant_field pb \<longleftrightarrow>
     should_panic ''#[zeroize(drop)] attribute is not allowed on enum fields''
       (parse_zeroize_test pb
         (test_enum [] [test_variant [] (fields_abc [] [] []),
                        test_variant [] (fields_abc [zeroize_attr [flag ''drop'']] [] [])]))"

definition zeroize_on_enum_variant :: "bounds_parser \<Rightarrow> bool" where
  "zeroize_on_enum_variant pb \<longleftrightarrow>
     should_panic ''#[zeroize(drop)] attribute is not allowed on enum variants''
       (parse_zeroize_test pb (test_enum [] [test_variant [zeroize_attr [flag ''drop'']] []]))"

definition zeroize_on_enum_second_variant :: "bounds_parser \<Rightarrow> bool" where
  "zeroize_on_enum_second_variant pb \<longleftrightarrow>
     should_panic ''#[zeroize(drop)] attribute is not allowed on enum variants''
       (parse_zeroize_test pb (test_enum [] [test_variant [] [], test_variant [zeroize_attr [flag ''drop'']] []]))"

definition zeroize_skip_on_struct :: "bounds_parser \<Rightarrow> bool" where
  "zeroize_skip_on_struct pb \<longleftrightarrow>
     should_panic ''The #[zeroize(skip)] attribute is not allowed on a `struct` or `enum`. Use it on a field or variant instead.''
       (parse_zeroize_test pb (test_struct [zeroize_attr [flag ''skip'']] (fields_abc [] [] [])))"

definition zeroize_skip_on_enum :: "bounds_parser \<Rightarrow> bool" where
  "zeroize_skip_on_enum pb \<longleftrightarrow>
     should_panic ''The #[zeroize(skip)] attribute is not allowed on a `struct` or `enum`. Use it on a field or variant instead.''
       (parse_zeroize_test pb (test_enum [zeroize_attr [flag ''skip'']] [test_variant [] [], test_variant [] []]))"

definition zeroize_duplicate_skip :: "bounds_parser \<Rightarrow> bool" where
  "zeroize_duplicate_skip pb \<longleftrightarrow>
     should_panic ''duplicate #[zeroize] skip flags''
       (parse_zeroize_test pb (test_struct [] (fields_abc [] [zeroize_attr [flag ''skip''], zeroize_attr [flag ''skip'']] [])))"

definition zeroize_duplicate_skip_list :: "bounds_parser \<Rightarrow> bool" where
  "zeroize_duplicate_skip_list pb \<longleftrightarrow>
     should_panic ''duplicate #[zeroize] skip flags''
       (parse_zeroize_test pb (test_struct [] (fields_abc [] [zeroize_attr [flag ''skip'', flag ''skip'']] [])))"

definition zeroize_duplicate_skip_enum :: "bounds_parser \<Rightarrow> bool" where
  "zeroize_duplicate_skip_enum pb \<longleftrightarrow>
     should_panic ''duplicate #[zeroize] skip flags''
       (parse_zeroize_test pb
         (test_enum [] [test_variant [zeroize_attr [flag ''skip'']] (fields_abc [] [zeroize_attr [flag ''skip'']] [])]))"

definition zeroize_duplicate_bound :: "bounds_parser \<Rightarrow> bool" where
  "zeroize_duplicate_bound pb \<longleftrightarrow>
     should_panic ''duplicate #[zeroize] bound flags''
       (parse_zeroize_test pb
         (test_struct [zeroize_attr [bound_flag ''T: MyTrait''], zeroize_attr [bound_flag '''']] [test_field [] ''T'']))"

definition zeroize_duplicate_bound_list :: "bounds_parser \<Rightarrow> bool" where
  "zeroize_duplicate_bound_list pb \<longleftrightarrow>
     should_panic ''duplicate #[zeroize] bound flags''
       (parse_zeroize_test pb (test_struct [zeroize_attr [bound_flag ''T: MyTrait'', bound_flag '''']] [test_field [] ''T'']))"

definition zeroize_bound_struct :: "bounds_parser \<Rightarrow> bool" where
  "zeroize_bound_struct pb \<longleftrightarrow>
     should_panic ''The #[zeroize(bound)] attribute is not allowed on struct fields. Use it on the containing struct instead.''
       (parse_zeroize_test pb (test_struct [] [test_field [zeroize_attr [bound_flag ''T: MyTrait'']] ''T'']))"

definition zeroize_bound_enum :: "bounds_parser \<Rightarrow> bool" where
  "zeroize_bound_enum pb \<longleftrightarrow>
     should_panic ''The #[zeroize(bound)] attribute is not allowed on enum variants. Use it on the containing enum instead.''
       (parse_zeroize_test pb (test_enum [] [test_variant [zeroize_attr [bound_flag ''T: MyTrait'']] [test_field [] ''T'']]))"

definition zeroize_bound_enum_variant_field :: "bounds_parser \<Rightarrow> bool" where
  "zeroize_bound_enum_variant_field pb \<longleftrightarrow>
     should_panic ''The #[zeroize(bound)] attribute is not allowed on enum fields. Use it on the containing enum instead.''
       (parse_zeroize_test pb (test_enum [] [test_variant [] [test_field [zeroize_attr [bound_flag ''T: MyTrait'']] ''T'']]))"

definition zeroize_bound_no_value :: "bounds_parser \<Rightarrow> bool" where
  "zeroize_bound_no_value pb \<longleftrightarrow>
     should_panic
       (''The #[zeroize(bound)] attribute expects a name-value syntax with a string literal value.'' @
        ''E.g. #[zeroize(bound = '' @
        quoted ''T: MyTrait'' @ '')].'')
       (parse_zeroize_test pb (test_struct [zeroize_attr [flag ''bound'']] [test_field [] ''T'']))"

definition zeroize_bound_no_where_predicate :: "bounds_parser \<Rightarrow> bool" where
  "zeroize_bound_no_where_predicate pb \<longleftrightarrow>
     should_panic (''error parsing bounds: LitStr { token: '' @ quoted ''T'' @ '' } (expected `:`)'')
       (parse_zeroize_test pb (test_struct [zeroize_attr [bound_flag ''T'']] [test_field [] ''T'']))"

section \<open>All tests pass\<close>

lemmas item_defs = test_struct_def test_enum_def test_variant_def test_field_def fields_abc_def zeroize_attr_def
  one_arm_def calls_abc_def parse_zeroize_test_def

lemmas derive_defs = derive_zeroize_def parse_def parse_variant_def parse_attr_def parse_nested_def parse_meta_def
  misplaced_def item_kind_def not_on_fields_def not_on_variants_def bound_value_def bound_syntax_def attrs_default_def
  derive_zeroize_with_drop_def derive_zeroize_without_drop_def derive_zeroize_on_drop_def impl_zeroize_on_drop_def
  generate_fields_def keep_variant_def keep_bindings_def filter_skip_def skip_attr_def skip_nested_def where_of_def
  is_ident_def ZEROIZE_ATTR_def

lemma expansion_tests_pass: zeroize_without_drop zeroize_with_drop zeroize_with_skip zeroize_only_drop
  unfolding zeroize_without_drop_def zeroize_with_drop_def zeroize_with_skip_def zeroize_only_drop_def
  by (simp_all add: item_defs derive_defs)

lemmas should_panic_simps = should_panic_def sublist_Cons_right

lemmas attribute_test_defs =
  zeroize_on_struct_def zeroize_on_enum_def zeroize_on_struct_field_def zeroize_on_tuple_struct_field_def
  zeroize_on_second_field_def zeroize_on_tuple_enum_variant_field_def zeroize_on_enum_variant_field_def
  zeroize_on_enum_second_variant_field_def zeroize_on_enum_variant_def zeroize_on_enum_second_variant_def
  zeroize_skip_on_struct_def zeroize_skip_on_enum_def zeroize_duplicate_skip_def zeroize_duplicate_skip_list_def
  zeroize_duplicate_skip_enum_def zeroize_bound_struct_def zeroize_bound_enum_def zeroize_bound_enum_variant_field_def
  zeroize_bound_no_value_def

lemma attribute_tests_pass:
  "zeroize_on_struct pb" "zeroize_on_enum pb" "zeroize_on_struct_field pb"
  "zeroize_on_tuple_struct_field pb" "zeroize_on_second_field pb" "zeroize_on_tuple_enum_variant_field pb"
  "zeroize_on_enum_variant_field pb" "zeroize_on_enum_second_variant_field pb" "zeroize_on_enum_variant pb"
  "zeroize_on_enum_second_variant pb" "zeroize_skip_on_struct pb" "zeroize_skip_on_enum pb"
  "zeroize_duplicate_skip pb" "zeroize_duplicate_skip_list pb" "zeroize_duplicate_skip_enum pb"
  "zeroize_bound_struct pb" "zeroize_bound_enum pb" "zeroize_bound_enum_variant_field pb"
  "zeroize_bound_no_value pb"
  unfolding attribute_test_defs
  by (simp_all add: item_defs derive_defs should_panic_simps quoted_def)

lemma bound_tests_pass:
  assumes "pb ''T: MyTrait'' = Ok [''T: MyTrait'']"
    and "pb ''T'' = Err (''LitStr { token: '' @ quoted ''T'' @ '' } (expected `:`)'')"
  shows "zeroize_with_bound pb" "zeroize_duplicate_bound pb" "zeroize_duplicate_bound_list pb"
    "zeroize_bound_no_where_predicate pb"
  unfolding zeroize_with_bound_def zeroize_duplicate_bound_def zeroize_duplicate_bound_list_def
    zeroize_bound_no_where_predicate_def
  by (simp_all add: assms item_defs derive_defs should_panic_simps quoted_def)

end
