(* ===== verification/Zeroize_Tests.thy ===== *)
theory Zeroize_Tests
  imports Rust_Tests Zeroize_Derived
begin

text \<open>
  The tests of \<^verbatim>\<open>zeroize/tests/zeroize.rs\<close> and \<^verbatim>\<open>zeroize/tests/zeroize_derive.rs\<close> and the examples in the documentation of
  \<^verbatim>\<open>zeroize/src/lib.rs\<close>, translated and run on the memory model.

  A test takes the memory it starts in and the addresses of its values; the results hold for all of them.  Left out are
  tests that only have to compile (\<open>asref\<close>, \<open>derive_zeroize_on_drop_generic\<close>), the ignored test of \<open>CString\<close>, and those with items of
  several owning fields, with a bound or with \<open>Deref\<close> (\<open>derive_struct_test\<close>, \<open>derive_struct_skip\<close>, \<open>derive_enum_skip\<close>, \<open>derive_bound\<close>,
  \<open>derive_deref\<close>), which the general theorems on derived code cover or, for \<open>Deref\<close>, the model does not have.
\<close>

section \<open>Values in memory\<close>

definition zeroize_test :: "ty \<Rightarrow> bytes \<Rightarrow> bytes \<Rightarrow> nat \<Rightarrow> mem \<Rightarrow> unit outcome" where
  "zeroize_test Z before after a m =
     and_then (zeroize Z a (poke m a before)) (\<lambda>m. assert_eq (peek m a (length after)) after)"

definition drop_test :: "ty \<Rightarrow> bytes \<Rightarrow> bytes \<Rightarrow> nat \<Rightarrow> mem \<Rightarrow> unit outcome" where
  "drop_test Z before after a m =
     and_then (drop_in_place Z a (poke m a before)) (\<lambda>m. assert_eq (peek m a (length after)) after)"

text \<open>The bytes of a small integer.\<close>

definition int_bytes :: "bool \<Rightarrow> nat \<Rightarrow> u8 \<Rightarrow> bytes" where
  "int_bytes little_endian n v = (if little_endian then v # replicate (n - 1) 0 else replicate (n - 1) 0 @ [v])"

definition u64_type :: ty where
  "u64_type = default_is_zeroes (replicate 8 0)"

definition ZeroizedOnDrop :: ty where
  "ZeroizedOnDrop = u64_type\<lparr>drop_in_place := (\<lambda>self m. zeroize u64_type self m)\<rparr>"

section \<open>The tests of the crate\<close>

definition test_non_zero :: "bool \<Rightarrow> nat \<Rightarrow> mem \<Rightarrow> unit outcome" where
  "test_non_zero le a m =
     all_of (map (\<lambda>n. zeroize_test (non_zero le n) (int_bytes le n 42) (int_bytes le n 1) a m)
       [1, 2, 4, 8, 16, 8, 1, 2, 4, 8, 16, 8])"

definition zeroize_byte_arrays :: "nat \<Rightarrow> mem \<Rightarrow> unit outcome" where
  "zeroize_byte_arrays = zeroize_test (array_of 137 u8_type) (replicate 137 42) (replicate 137 0)"

definition zeroize_on_drop_byte_arrays :: "bool \<Rightarrow> nat \<Rightarrow> mem \<Rightarrow> unit outcome" where
  "zeroize_on_drop_byte_arrays le = drop_test (array_of 1 ZeroizedOnDrop) (int_bytes le 8 42) (int_bytes le 8 0)"

definition zeroize_maybeuninit_byte_arrays :: "bool \<Rightarrow> nat \<Rightarrow> mem \<Rightarrow> unit outcome" where
  "zeroize_maybeuninit_byte_arrays le a m =
     and_then (uninit_slice_zeroize 8 a 64 (poke m a (concat (replicate 64 (int_bytes le 8 42))))) (\<lambda>m.
       assert_eq (peek m a 512) (replicate 512 0))"

definition zeroize_check_zerosize_types :: "unit outcome" where
  "zeroize_check_zerosize_types = assert_eq (size_of zero_sized) 0"

definition zeroize_check_tuple :: "nat \<Rightarrow> mem \<Rightarrow> unit outcome" where
  "zeroize_check_tuple a m =
     all_of [zeroize_test (tuple 1 [(0, u8_type)]) [42] [0] a m,
             zeroize_test (tuple 2 [(0, u8_type), (1, u8_type)]) [42, 42] [0, 0] a m]"

definition zeroize_on_drop_check_tuple :: "bool \<Rightarrow> nat \<Rightarrow> mem \<Rightarrow> unit outcome" where
  "zeroize_on_drop_check_tuple le a m =
     all_of [drop_test (tuple 8 [(0, ZeroizedOnDrop)]) (int_bytes le 8 42) (replicate 8 0) a m,
             drop_test (tuple 16 [(0, ZeroizedOnDrop), (8, ZeroizedOnDrop)])
               (int_bytes le 8 42 @ int_bytes le 8 42) (replicate 16 0) a m]"

definition zeroize_vec :: "bool \<Rightarrow> nat \<Rightarrow> mem \<Rightarrow> unit outcome" where
  "zeroize_vec le ptr m =
     (let vec = \<lparr>vec_ptr = ptr, vec_cap = 3, vec_len = 3\<rparr>; m = poke m ptr (concat (replicate 3 (int_bytes le 4 42))) in
      and_then (vec_zeroize (default_is_zeroes (replicate 4 0)) vec m) (\<lambda>(vec, m). assert_that (vec_len vec = 0)))"

definition zeroize_vec_entire_capacity :: "bool \<Rightarrow> nat \<Rightarrow> mem \<Rightarrow> unit outcome" where
  "zeroize_vec_entire_capacity le ptr m =
     (let vec = \<lparr>vec_ptr = ptr, vec_cap = 2, vec_len = 2\<rparr>; m = poke m ptr (concat (replicate 2 (int_bytes le 8 42)));
          vec = vec\<lparr>vec_len := 1\<rparr> in
      and_then (vec_zeroize (panic_on_non_zero_drop 8) vec m) (\<lambda>(vec, m).
        let vec = vec\<lparr>vec_len := 2\<rparr> in
        and_then (drop_slice (panic_on_non_zero_drop 8) (vec_ptr vec) (vec_len vec) m) (\<lambda>_. Return ())))"

definition zeroize_string :: "nat \<Rightarrow> nat \<Rightarrow> mem \<Rightarrow> unit outcome" where
  "zeroize_string cap ptr m =
     (let text = ascii ''Hello, world!''; string = \<lparr>vec_ptr = ptr, vec_cap = cap, vec_len = length text\<rparr> in
      and_then (string_zeroize string (poke m ptr text)) (\<lambda>(string, m). assert_that (vec_len string = 0)))"

definition zeroize_string_entire_capacity :: "nat \<Rightarrow> nat \<Rightarrow> mem \<Rightarrow> unit outcome" where
  "zeroize_string_entire_capacity cap ptr m =
     (let string = \<lparr>vec_ptr = ptr, vec_cap = cap, vec_len = 13\<rparr>; string = string\<lparr>vec_len := 5\<rparr> in
      and_then (string_zeroize string (poke m ptr (ascii ''Hello, world!''))) (\<lambda>(string, m).
        let as_vec = string\<lparr>vec_len := vec_cap string\<rparr> in
        assert_that (\<forall>byte \<in> set (peek m (vec_ptr as_vec) (vec_len as_vec)). byte = 0)))"

definition zeroize_box :: "nat \<Rightarrow> mem \<Rightarrow> unit outcome" where
  "zeroize_box = zeroize_test (array_of 3 u8_type) [42, 42, 42] [0, 0, 0]"

subsection \<open>They pass\<close>

lemma zeroize_flat: "zeroize (default_is_zeroes d) a m = Return (poke m a d)"
  by (simp add: default_is_zeroes_def volatile_write_def)

lemma zeroize_u8: "zeroize u8_type a m = Return (poke m a [0])"
  by (simp add: u8_type_def zeroize_flat)

lemma zeroize_byte_array: "zeroize (array_of n u8_type) a m = Return (poke m a (replicate n 0))"
proof -
  have "concat (replicate n [0 :: u8]) = replicate n 0" by (induction n) auto
  then show ?thesis by (simp add: array_of_def u8_type_def iter_mut_zeroize_default)
qed

lemma drop_ZeroizedOnDrop: "drop_in_place ZeroizedOnDrop a m = Return (poke m a (replicate 8 0))"
  by (simp add: ZeroizedOnDrop_def u64_type_def zeroize_flat)

lemma zeroize_test_iff: "zeroize Z a (poke m a before) = Return m' \<Longrightarrow> passes (zeroize_test Z before after a m) \<longleftrightarrow> peek m' a (length after) = after"
  by (simp add: zeroize_test_def)

lemma drop_test_iff: "drop_in_place Z a (poke m a before) = Return m' \<Longrightarrow> passes (drop_test Z before after a m) \<longleftrightarrow> peek m' a (length after) = after"
  by (simp add: drop_test_def)

lemma peek_poke_len: "length bs = n \<Longrightarrow> peek (poke m a bs) a n = bs"
  by auto

lemma poke_poke: "length xs = length ys \<Longrightarrow> poke (poke m a xs) a ys = poke m a ys"
  by (auto simp: poke_def fun_eq_iff)

lemma length_int_bytes: "0 < n \<Longrightarrow> length (int_bytes le n v) = n"
  by (simp add: int_bytes_def)

lemma zeroize_array_tests_pass:
  "passes (zeroize_byte_arrays a m)" "passes (zeroize_box a m)" "passes (zeroize_on_drop_byte_arrays le a m)"
  "passes (zeroize_maybeuninit_byte_arrays le a m)" "passes zeroize_check_zerosize_types"
proof -
  show "passes (zeroize_byte_arrays a m)" "passes (zeroize_box a m)"
    by (simp_all add: zeroize_byte_arrays_def zeroize_box_def zeroize_test_def zeroize_byte_array peek_poke_len numeral_eq_Suc)
  show "passes (zeroize_on_drop_byte_arrays le a m)"
    by (simp add: zeroize_on_drop_byte_arrays_def drop_test_def array_of_def drop_ZeroizedOnDrop peek_poke_len length_int_bytes)
       (simp add: int_bytes_def numeral_eq_Suc)
  show "passes (zeroize_maybeuninit_byte_arrays le a m)"
    by (simp add: zeroize_maybeuninit_byte_arrays_def uninit_slice_zeroize_eq isize_MAX_def peek_poke_len)
  show "passes zeroize_check_zerosize_types"
    by (simp add: zeroize_check_zerosize_types_def zero_sized_def)
qed

lemma non_zero_test_passes: "passes (test_non_zero le a m)"
  by (simp add: test_non_zero_def passes_all_of zeroize_test_def non_zero_def int_bytes_def volatile_write_def peek_poke_len Let_def)

lemma tuple_tests_pass: "passes (zeroize_check_tuple a m)" "passes (zeroize_on_drop_check_tuple le a m)"
proof -
  show "passes (zeroize_check_tuple a m)"
    using poke_append [of _ a "[0]" "[0]"]
    by (simp add: zeroize_check_tuple_def passes_all_of zeroize_test_def tuple_def zeroize_u8 peek_poke_len)
  show "passes (zeroize_on_drop_check_tuple le a m)"
    using poke_append [of _ a "replicate 8 0" "replicate 8 0"]
    by (simp add: zeroize_on_drop_check_tuple_def passes_all_of drop_test_def tuple_def drop_ZeroizedOnDrop peek_poke_len
        flip: replicate_add)
qed

lemma zero_elements_drop:
  "drop_slice (panic_on_non_zero_drop 8) ptr 2 (poke m ptr (replicate 16 0)) = Return (poke m ptr (replicate 16 0))"
proof -
  have "peek (poke m ptr (replicate 16 0)) (ptr + i) 8 = replicate 8 0" if "i \<le> 8" for i
    using that by (auto simp: peek_def poke_def intro!: nth_equalityI)
  from this [of 0] this [of 8] show ?thesis
    by (simp add: numeral_2_eq_2 panic_on_non_zero_drop_def default_is_zeroes_def)
qed

lemma vec_tests_pass: "passes (zeroize_vec le ptr m)" "passes (zeroize_vec_entire_capacity le ptr m)"
proof -
  have "vec_zeroize (default_is_zeroes (replicate 4 0)) \<lparr>vec_ptr = ptr, vec_cap = 3, vec_len = 3\<rparr> m' =
      Return (\<lparr>vec_ptr = ptr, vec_cap = 3, vec_len = 0\<rparr>, poke m' ptr (replicate 12 0))" for m'
    using vec_zeroize_flat [OF default_is_zeroes_law, of "\<lparr>vec_ptr = ptr, vec_cap = 3, vec_len = 3\<rparr>" "replicate 4 0" m']
    by (simp add: isize_MAX_def default_is_zeroes_def)
  then show "passes (zeroize_vec le ptr m)" by (simp add: zeroize_vec_def Let_def)
  have "vec_zeroize (panic_on_non_zero_drop 8) \<lparr>vec_ptr = ptr, vec_cap = 2, vec_len = 1\<rparr> m' =
      Return (\<lparr>vec_ptr = ptr, vec_cap = 2, vec_len = 0\<rparr>, poke m' ptr (replicate 16 0))" for m'
    using vec_zeroize_flat [OF strict_law.zeroize_law_axioms, of "\<lparr>vec_ptr = ptr, vec_cap = 2, vec_len = 1\<rparr>" 8 m']
    by (simp add: isize_MAX_def panic_on_non_zero_drop_def default_is_zeroes_def)
  then show "passes (zeroize_vec_entire_capacity le ptr m)"
    by (simp add: zeroize_vec_entire_capacity_def zero_elements_drop Let_def)
qed

lemma string_tests_pass:
  assumes "13 \<le> cap" "cap \<le> isize_MAX"
  shows "passes (zeroize_string cap ptr m)" "passes (zeroize_string_entire_capacity cap ptr m)"
proof -
  have z: "string_zeroize \<lparr>vec_ptr = ptr, vec_cap = cap, vec_len = n\<rparr> m' =
      Return (\<lparr>vec_ptr = ptr, vec_cap = cap, vec_len = 0\<rparr>, poke m' ptr (replicate cap 0))" if "n \<le> 13" for n m'
    using vec_zeroize_flat [OF u8_law.zeroize_law_axioms, of "\<lparr>vec_ptr = ptr, vec_cap = cap, vec_len = n\<rparr>" m'] that assms
    by (simp add: string_zeroize_def u8_type_def default_is_zeroes_def)
  show "passes (zeroize_string cap ptr m)" by (simp add: zeroize_string_def z ascii_def)
  show "passes (zeroize_string_entire_capacity cap ptr m)"
    by (simp add: zeroize_string_entire_capacity_def z peek_poke_len)
qed

section \<open>Examples of the documentation\<close>

definition usage_example :: "nat \<Rightarrow> nat \<Rightarrow> mem \<Rightarrow> (rvec \<times> mem) outcome" where
  "usage_example cap ptr m =
     (let text = ascii ''Air shield password: 1,2,3,4,5'';
          secret = \<lparr>vec_ptr = ptr, vec_cap = cap, vec_len = length text\<rparr>
      in vec_zeroize u8_type secret (poke m ptr text))"

definition zeroizing_example :: "nat \<Rightarrow> nat \<Rightarrow> mem \<Rightarrow> mem outcome" where
  "zeroizing_example tmp secret m =
     (let Z = array_of 5 u8_type;
          m = zeroizing_new Z secret tmp (poke m tmp (replicate 5 0));
          m = poke m (zeroizing_deref_mut secret) [1, 2, 3, 4, 5]
      in and_then (assert_eq (zeroizing_as_ref (\<lambda>a m. peek m a 5) secret m) [1, 2, 3, 4, 5]) (\<lambda>_.
           drop_in_place (zeroizing Z) secret m))"

text \<open>The structures of the examples and of the tests have one field, at offset 0.\<close>

definition newtype_item :: "field_ty \<Rightarrow> (field_ty, string) Structure" where
  "newtype_item ty =
     \<lparr>ast_attrs = [],
      variants = [\<lparr>prefix = None, variant_attrs = [], bindings = [\<lparr>field_attrs = [], field_type = ty\<rparr>]\<rparr>],
      infer_bounds = True, where_predicates = []\<rparr>"

definition newtype_layout :: "field_ty \<Rightarrow> item_layout" where
  "newtype_layout ty = \<lparr>item_size = size_of (snd ty), active = (\<lambda>_ _. 0), offset = (\<lambda>_ _. 0)\<rparr>"

text \<open>\<open>derive(Zeroize)\<close>, \<open>derive(ZeroizeOnDrop)\<close>, and both.\<close>

type_synonym derives = "(field_ty, string) Structure \<Rightarrow> (field_ty, string) impl list outcome"

definition derive_both :: "(string \<Rightarrow> (string, string list) result) \<Rightarrow> derives" where
  "derive_both pb s =
     and_then (derive_zeroize pb s) (\<lambda>i. and_then (derive_zeroize_on_drop s) (\<lambda>j. Return (i @ j)))"

definition newtype :: "derives \<Rightarrow> field_ty \<Rightarrow> ty outcome" where
  "newtype derives ty =
     and_then (derives (newtype_item ty)) (\<lambda>impls. Return (derived_type (newtype_layout ty) (newtype_item ty) impls))"

definition MyStruct_drop :: "derives \<Rightarrow> nat \<Rightarrow> mem \<Rightarrow> mem outcome" where
  "MyStruct_drop derives a m = and_then (newtype derives (False, array_of 32 u8_type)) (\<lambda>Z. drop_in_place Z a m)"

lemma usage_example_erases:
  assumes "length ''Air shield password: 1,2,3,4,5'' \<le> cap" "cap \<le> isize_MAX"
  shows "\<exists>v m'. usage_example cap ptr m = Return (v, m') \<and> peek m' ptr cap = replicate cap 0"
  using vec_zeroize_flat [OF u8_law.zeroize_law_axioms,
      of "\<lparr>vec_ptr = ptr, vec_cap = cap, vec_len = length ''Air shield password: 1,2,3,4,5''\<rparr>"] assms
  by (simp add: usage_example_def u8_type_def default_is_zeroes_def ascii_def peek_poke_len)

lemma drop_slice_u8: "drop_slice u8_type a n m = Return m"
  by (induction n arbitrary: a) (simp_all add: u8_type_def default_is_zeroes_def)

lemma drop_byte_array: "drop_in_place (array_of n u8_type) a m = Return m"
  by (simp add: array_of_def drop_slice_u8)

lemma zeroizing_example_erases:
  "\<exists>m'. zeroizing_example tmp secret m = Return m' \<and> peek m' secret 5 = replicate 5 0"
proof -
  have "peek (poke m' secret [1, 2, 3, 4, 5]) secret 5 = [1, 2, 3, 4, 5]" for m'
    by (simp add: peek_poke_len)
  then show ?thesis
    by (simp add: zeroizing_example_def zeroizing_as_ref_def zeroizing_deref_mut_def zeroizing_def zeroize_byte_array
        drop_byte_array peek_poke_len Let_def)
qed

lemma for_each_one: "for_each f [] = Return" "for_each f [x] = f x"
proof -
  show none: "for_each f [] = Return" by (simp add: fun_eq_iff)
  show "for_each f [x] = f x" by (rule ext) (simp add: none)
qed

lemmas newtype_defs = newtype_def newtype_item_def newtype_layout_def derive_both_def derived_type_def
  derived_zeroize_def run_match_def drop_glue_def [abs_def] call_field_def zeroize_or_on_drop_def for_each_one

lemmas newtype_derive_defs = derive_zeroize_def parse_def parse_variant_def attrs_default_def
  derive_zeroize_without_drop_def derive_zeroize_on_drop_def impl_zeroize_on_drop_def generate_fields_def
  keep_variant_def keep_bindings_def filter_skip_def

lemma newtype_both:
  "newtype (derive_both pb) (b, Z) = Return
     \<lparr>size_of = size_of Z, zeroize = zeroize Z,
      drop_in_place = (\<lambda>a m. and_then (zeroize_or_on_drop b Z a m) (drop_in_place Z a))\<rparr>"
  by (simp add: newtype_defs newtype_derive_defs fun_eq_iff Let_def del: and_then_eq_Return)

text \<open>A type that only derives \<open>ZeroizeOnDrop\<close> has no \<open>zeroize\<close>; the record holds one that does nothing.\<close>

lemma newtype_on_drop:
  "newtype derive_zeroize_on_drop (b, Z) = Return
     \<lparr>size_of = size_of Z, zeroize = (\<lambda>a m. Return m),
      drop_in_place = (\<lambda>a m. and_then (zeroize_or_on_drop b Z a m) (drop_in_place Z a))\<rparr>"
  by (simp add: newtype_defs newtype_derive_defs fun_eq_iff Let_def del: and_then_eq_Return)

lemma newtype_zeroize:
  "newtype (derive_zeroize pb) (b, Z) = Return \<lparr>size_of = size_of Z, zeroize = zeroize Z, drop_in_place = drop_in_place Z\<rparr>"
  by (simp add: newtype_defs newtype_derive_defs fun_eq_iff Let_def del: and_then_eq_Return)

lemma MyStruct_examples:
  "MyStruct_drop (derive_both pb) a m = Return (poke m a (replicate 32 0))"
  "MyStruct_drop (derive_zeroize pb) a m = Return m"
  "MyStruct_drop derive_zeroize_on_drop a m = Return (poke m a (replicate 32 0))"
  by (simp_all add: MyStruct_drop_def newtype_both newtype_zeroize newtype_on_drop zeroize_or_on_drop_def zeroize_byte_array
      drop_byte_array)

section \<open>The tests of the derive macros\<close>

definition derive_tuple_struct_test :: "(string \<Rightarrow> (string, string list) result) \<Rightarrow> nat \<Rightarrow> mem \<Rightarrow> unit outcome" where
  "derive_tuple_struct_test pb a m =
     and_then (newtype (derive_both pb) (False, array_of 3 u8_type)) (\<lambda>Z. zeroize_test Z [1, 2, 3] [0, 0, 0] a m)"

text \<open>\<open>enum Z { Variant1, Variant2(usize) }\<close>: a tag and a payload at offset 8.\<close>

definition enum_item :: "(field_ty, string) Structure" where
  "enum_item =
     \<lparr>ast_attrs = [],
      variants = [\<lparr>prefix = Some ''Z'', variant_attrs = [], bindings = []\<rparr>,
        \<lparr>prefix = Some ''Z'', variant_attrs = [], bindings = [\<lparr>field_attrs = [], field_type = (False, u64_type)\<rparr>]\<rparr>],
      infer_bounds = True, where_predicates = []\<rparr>"

definition enum_layout :: item_layout where
  "enum_layout = \<lparr>item_size = 16, active = (\<lambda>a m. unat (m a)), offset = (\<lambda>_ _. 8)\<rparr>"

definition derive_enum_test :: "(string \<Rightarrow> (string, string list) result) \<Rightarrow> bool \<Rightarrow> nat \<Rightarrow> mem \<Rightarrow> unit outcome" where
  "derive_enum_test pb le a m =
     and_then (derive_both pb enum_item) (\<lambda>impls.
       let tag = 1 # replicate 7 0; Z = derived_type enum_layout enum_item impls in
       zeroize_test Z (tag @ int_bytes le 8 26) (tag @ replicate 8 0) a m)"

text \<open>\<open>needs_drop\<close>: whether a \<open>Drop\<close> implementation was derived.\<close>

definition needs_drop :: "('t, 'p) impl list \<Rightarrow> bool" where
  "needs_drop impls \<longleftrightarrow> (\<exists>i \<in> set impls. case i of Drop_impl _ _ \<Rightarrow> True | _ \<Rightarrow> False)"

definition needs_drop_test :: "derives \<Rightarrow> (field_ty, string) Structure \<Rightarrow> bool \<Rightarrow> unit outcome" where
  "needs_drop_test derives item expected = and_then (derives item) (\<lambda>impls. assert_eq (needs_drop impls) expected)"

definition derive_struct_drop :: "(string \<Rightarrow> (string, string list) result) \<Rightarrow> unit outcome" where
  "derive_struct_drop pb = needs_drop_test (derive_both pb) (newtype_item (False, array_of 3 u8_type)) True"

definition derive_enum_drop :: "(string \<Rightarrow> (string, string list) result) \<Rightarrow> unit outcome" where
  "derive_enum_drop pb = needs_drop_test (derive_both pb) enum_item True"

definition derive_struct_only_drop :: "unit outcome" where
  "derive_struct_only_drop = needs_drop_test derive_zeroize_on_drop (newtype_item (False, array_of 3 u8_type)) True"

definition derive_enum_only_drop :: "unit outcome" where
  "derive_enum_only_drop = needs_drop_test derive_zeroize_on_drop enum_item True"

definition ZeroizeNoDropStruct :: "(string \<Rightarrow> (string, string list) result) \<Rightarrow> unit outcome" where
  "ZeroizeNoDropStruct pb = needs_drop_test (derive_zeroize pb) (newtype_item (False, array_of 3 u8_type)) False"

text \<open>\<open>struct X([u8; 3]); struct Z(X);\<close> with the derives of each.\<close>

definition inherit_test :: "derives \<Rightarrow> derives \<Rightarrow> nat \<Rightarrow> mem \<Rightarrow> unit outcome" where
  "inherit_test derives_X derives_Z a m =
     and_then (newtype derives_X (False, array_of 3 u8_type)) (\<lambda>X.
     and_then (newtype derives_Z (True, X)) (\<lambda>Z. drop_test Z [1, 2, 3] [0, 0, 0] a m))"

definition derive_inherit_zeroize_on_drop :: "nat \<Rightarrow> mem \<Rightarrow> unit outcome" where
  "derive_inherit_zeroize_on_drop = inherit_test derive_zeroize_on_drop derive_zeroize_on_drop"

definition derive_inherit_from_both :: "(string \<Rightarrow> (string, string list) result) \<Rightarrow> nat \<Rightarrow> mem \<Rightarrow> unit outcome" where
  "derive_inherit_from_both pb = inherit_test (derive_both pb) derive_zeroize_on_drop"

definition derive_inherit_both :: "(string \<Rightarrow> (string, string list) result) \<Rightarrow> nat \<Rightarrow> mem \<Rightarrow> unit outcome" where
  "derive_inherit_both pb = inherit_test (derive_both pb) (derive_both pb)"

lemma derive_value_tests_pass:
  "passes (derive_tuple_struct_test pb a m)" "passes (derive_inherit_zeroize_on_drop a m)"
  "passes (derive_inherit_from_both pb a m)" "passes (derive_inherit_both pb a m)"
  by (simp_all add: derive_tuple_struct_test_def derive_inherit_zeroize_on_drop_def derive_inherit_from_both_def
      derive_inherit_both_def inherit_test_def newtype_both newtype_on_drop zeroize_test_def drop_test_def
      zeroize_or_on_drop_def zeroize_byte_array drop_byte_array peek_poke_len numeral_3_eq_3)

lemma derive_drop_tests_pass:
  "passes (derive_struct_drop pb)" "passes (derive_enum_drop pb)" "passes derive_struct_only_drop"
  "passes derive_enum_only_drop" "passes (ZeroizeNoDropStruct pb)"
  by (simp_all add: derive_struct_drop_def derive_enum_drop_def derive_struct_only_drop_def derive_enum_only_drop_def
      ZeroizeNoDropStruct_def needs_drop_test_def needs_drop_def newtype_item_def enum_item_def derive_both_def
      newtype_derive_defs Let_def)

lemma derive_enum_test_passes: "passes (derive_enum_test pb le a m)"
proof -
  let ?tag = "1 # replicate 7 (0 :: u8)" and ?old = "int_bytes le 8 26"
  have "poke (poke m a (?tag @ ?old)) (a + 8) (replicate 8 0) = poke m a (?tag @ replicate 8 0)"
    using poke_append [of m a ?tag ?old] poke_append [of m a ?tag "replicate 8 0"]
      poke_poke [of ?old "replicate 8 0" "poke m a ?tag" "a + 8"] by (simp add: length_int_bytes)
  moreover have "poke m a (?tag @ ?old) a = 1" by (simp add: poke_def)
  ultimately show ?thesis
    by (simp add: derive_enum_test_def enum_item_def enum_layout_def zeroize_test_def newtype_defs newtype_derive_defs
        u64_type_def zeroize_flat peek_poke_len Let_def)
qed

end
