(* ===== verification/Doc_Tests.thy ===== *)
theory Doc_Tests
  imports Rust_Tests Block_Padding Blobby Hex_Literal Cpufeatures
begin

text \<open>
  The examples in the documentation of \<^verbatim>\<open>block-padding\<close>, \<^verbatim>\<open>blobby\<close>, \<^verbatim>\<open>hex-literal\<close> and \<^verbatim>\<open>cpufeatures\<close>, which the build runs as tests,
  and the tests of the macros \<open>hex!\<close> (\<^verbatim>\<open>hex-literal/tests\<close>) and \<open>new!\<close> (\<^verbatim>\<open>cpufeatures/tests\<close>), translated and run on the model.
\<close>

section \<open>Padding\<close>

definition padding_example :: "padding \<Rightarrow> bytes \<Rightarrow> bytes \<Rightarrow> unit outcome" where
  "padding_example P padded result =
     (let msg = ascii ''test''; pos = length msg in
      and_then (copy_at (replicate 8 0xff) 0 pos msg) (\<lambda>block.
      and_then (pad P block pos) (\<lambda>block.
      and_then (assert_eq block padded) (\<lambda>_.
      and_then (unpad P block) (\<lambda>r.
      and_then (unwrap r) (\<lambda>res. assert_eq res result))))))"

definition zero_padding_example :: "unit outcome" where
  "zero_padding_example = padding_example ZeroPadding (ascii ''test'' @ [0, 0, 0, 0]) (ascii ''test'')"

definition pkcs7_example :: "unit outcome" where
  "pkcs7_example = padding_example Pkcs7 (ascii ''test'' @ [4, 4, 4, 4]) (ascii ''test'')"

definition iso10126_example :: "unit outcome" where
  "iso10126_example = padding_example Iso10126 (ascii ''test'' @ [4, 4, 4, 4]) (ascii ''test'')"

definition ansix923_example :: "unit outcome" where
  "ansix923_example = padding_example AnsiX923 (ascii ''test'' @ [0, 0, 0, 4]) (ascii ''test'')"

definition iso7816_example :: "unit outcome" where
  "iso7816_example = padding_example Iso7816 (ascii ''test'' @ [0x80, 0, 0, 0]) (ascii ''test'')"

definition no_padding_example :: "unit outcome" where
  "no_padding_example =
     (let out = ascii ''test'' @ [0xff, 0xff, 0xff, 0xff] in padding_example NoPadding out out)"

lemma padding_examples_pass:
  "passes zero_padding_example" "passes pkcs7_example" "passes iso10126_example" "passes ansix923_example"
  "passes iso7816_example" "passes no_padding_example"
  by code_simp+

section \<open>Blobs\<close>

definition blobby_buf :: bytes where
  "blobby_buf =
     [0x02, 0x05] @ ascii ''hello'' @ [0x06] @ ascii ''world!'' @ [0x01, 0x02] @ ascii '' '' @ [0x00, 0x03, 0x06] @
     ascii '':::'' @ [0x03, 0x01, 0x00]"

text \<open>Successive calls of \<open>next\<close>, compared with what they should return.\<close>

fun assert_nexts :: "('it \<Rightarrow> ((BlobError, 'b) result option \<times> 'it) outcome) \<Rightarrow> 'it \<Rightarrow> 'b option list \<Rightarrow> unit outcome" where
  "assert_nexts next v [] = Return ()"
| "assert_nexts next v (e # es) =
     and_then (next v) (\<lambda>(r, v). and_then (assert_eq r (map_option Ok e)) (\<lambda>_. assert_nexts next v es))"

definition blobby_example :: "unit outcome" where
  "blobby_example =
     (let hello = ascii ''hello''; world = ascii ''world!''; colons = ascii '':::''; space = ascii '' '' in
      and_then (and_then (blob_new blobby_buf) unwrap) (\<lambda>v.
        all_of
          [assert_nexts blob_next v
             [Some hello, Some space, Some [], Some world, Some colons, Some world, Some hello, Some [], None],
           assert_nexts (blobn_next 2) v
             [Some [hello, space], Some [[], world], Some [colons, world], Some [hello, []], None],
           assert_nexts (blobn_next 4) v
             [Some [hello, space, [], world], Some [colons, world, hello, []], None]]))"

lemma blobby_example_passes: "passes blobby_example"
  by code_simp

section \<open>Hexadecimal literals\<close>

text \<open>The array that the tokens in the brackets stand for.\<close>

fun array_elements :: "TokenTree list \<Rightarrow> bytes option" where
  "array_elements [] = Some []"
| "array_elements [U8_Literal v] = Some [v]"
| "array_elements (U8_Literal v # Punct p # ts) = (if p = 44 then map_option ((#) v) (array_elements ts) else None)"
| "array_elements _ = None"

fun array_expr :: "TokenTree list \<Rightarrow> bytes option" where
  "array_expr [Group Bracket ts] = array_elements ts"
| "array_expr _ = None"

definition string_literal :: "string \<Rightarrow> TokenTree" where
  "string_literal s = Literal ([34] @ ascii s @ [34])"

definition assert_hex :: "string list \<Rightarrow> bytes \<Rightarrow> unit outcome" where
  "assert_hex literals expected =
     and_then (hex (map string_literal literals)) (\<lambda>ts. assert_eq (array_expr ts) (Some expected))"

abbreviation nl :: string where
  "nl \<equiv> line_feed"

definition indent :: "nat \<Rightarrow> string" where
  "indent n = replicate n CHR '' ''"

definition hex_example :: "unit outcome" where
  "hex_example =
     (let bytes = [0, 1, 2, 3, 4, 5, 6, 7, 8, 9, 10, 11, 12, 13, 14, 15] in
      all_of
        [assert_hex [''01020304''] [1, 2, 3, 4],
         assert_hex [''a1 b2 c3 d4''] [0xA1, 0xB2, 0xC3, 0xD4],
         assert_hex [''E5 E6 90 92''] [0xE5, 0xE6, 0x90, 0x92],
         assert_hex [''0a0B 0C0d''] [10, 11, 12, 13],
         assert_hex [nl @ indent 4 @ ''00010203 04050607'' @ nl @ indent 4 @ ''08090a0b 0c0d0e0f'' @ nl] bytes,
         assert_hex [''00010203 04050607'', ''08090a0b 0c0d0e0f''] bytes,
         assert_hex [''0a0B // 0c0d line comments''] [10, 11],
         assert_hex [''0a0B // line comments'' @ nl @ indent 17 @ ''0c0d''] [10, 11, 12, 13],
         assert_hex [''0a0B /* block comments */ 0c0d''] [10, 11, 12, 13],
         assert_hex [''0a0B /* multi-line'' @ nl @ indent 25 @ ''block comments'' @ nl @ indent 22 @ ''*/ 0c0d'']
           [10, 11, 12, 13]])"

definition single_literal :: "unit outcome" where
  "single_literal = assert_hex [''ff e4''] [0xff, 0xe4]"

definition empty_literals :: "unit outcome" where
  "empty_literals = all_of [assert_hex [] [], assert_hex ['''', '''', ''''] []]"

definition upper_case :: "unit outcome" where
  "upper_case =
     all_of [assert_hex [''AE DF 04 B2''] [0xae, 0xdf, 0x04, 0xb2],
             assert_hex [''FF BA 8C 00 01''] [0xff, 0xba, 0x8c, 0x00, 0x01]]"

definition mixed_case :: "unit outcome" where
  "mixed_case = assert_hex [''bF dd E4 Cd''] [0xbf, 0xdd, 0xe4, 0xcd]"

definition multiple_literals :: "unit outcome" where
  "multiple_literals =
     all_of [assert_hex [''01 dd f7 7f'', ''ee f0 d8''] [0x01, 0xdd, 0xf7, 0x7f, 0xee, 0xf0, 0xd8],
             assert_hex [''ff'', ''e8 d0'', '''', ''01 1f'', ''ab''] [0xff, 0xe8, 0xd0, 0x01, 0x1f, 0xab]]"

definition no_spacing :: "unit outcome" where
  "no_spacing =
     all_of [assert_hex [''abf0d8bb0f14''] [0xab, 0xf0, 0xd8, 0xbb, 0x0f, 0x14],
             assert_hex [''09FFd890cbcCd1d08F''] [0x09, 0xff, 0xd8, 0x90, 0xcb, 0xcc, 0xd1, 0xd0, 0x8f]]"

definition allows_various_spacing :: "unit outcome" where
  "allows_various_spacing =
     (let tab = [CHR 0x09]; br = nl @ indent 12 in
      all_of
        [assert_hex [''f'' @ br @ ''f'' @ br @ ''d'' @ br @ ''0'' @ br @ ''e'' @ br @ br @ ''8'' @ br] [0xff, 0xd0, 0xe8],
         assert_hex [''9f'' @ tab @ ''d'' @ tab @ tab @ ''1'' @ tab @ tab @ ''f07'' @ tab @ ''3'' @ tab @ tab @ ''01'' @ tab]
           [0x9f, 0xd1, 0xf0, 0x73, 0x01],
         assert_hex ['' e    e d0  9 1   f  f  ''] [0xee, 0xd0, 0x91, 0xff]])"

definition can_use_const :: "unit outcome" where
  "can_use_const =
     and_then (hex [string_literal ''ff d3 01 7f'']) (\<lambda>ts. assert_eq (map_option length (array_expr ts)) (Some 4))"

definition single_line_comments :: "unit outcome" where
  "single_line_comments =
     all_of [assert_hex [''dd 03 // comment''] [0xdd, 0x03],
             assert_hex [''00 04 f0 // a comment here'' @ nl @ indent 12 @ ''54 fe // another comment'']
               [0x00, 0x04, 0xf0, 0x54, 0xfe],
             assert_hex [''// initial comment'' @ nl @ indent 12 @ ''01 02''] [0x01, 0x02]]"

definition block_comments :: "unit outcome" where
  "block_comments =
     (let br = nl @ indent 12 in
      all_of [assert_hex [''00 01 02 /* intervening comment */ 03 04''] [0x00, 0x01, 0x02, 0x03, 0x04],
              assert_hex [''/* initial comment */ ff df dd''] [0xff, 0xdf, 0xdd],
              assert_hex [''8f ff 7d /*'' @ br @ ''comment'' @ br @ ''on'' @ br @ ''several'' @ br @ ''lines'' @ br @ ''*/'' @ br @
                          ''d0 a3''] [0x8f, 0xff, 0x7d, 0xd0, 0xa3]])"

lemma hex_tests_pass:
  "passes hex_example" "passes single_literal" "passes empty_literals" "passes upper_case" "passes mixed_case"
  "passes multiple_literals" "passes no_spacing" "passes allows_various_spacing" "passes can_use_const"
  "passes single_line_comments" "passes block_comments"
  by code_simp+

section \<open>CPU features\<close>

text \<open>
  The module that \<open>new!\<close> generates is used by one thread.  Its two uses of \<open>__unless_target_features!\<close> are arguments, and so
  are the answer of detection and what \<open>STORAGE\<close> holds at the start.
\<close>

type_synonym 'a unless = "'a \<Rightarrow> (bool \<Rightarrow> 'a) \<Rightarrow> 'a"

definition cpuid_init_test :: "(bool \<times> u8) unless \<Rightarrow> bool unless \<Rightarrow> bool \<Rightarrow> u8 \<Rightarrow> unit outcome" where
  "cpuid_init_test unless unless_get detect st =
     (let st = init unless detect st;
          token = token_get unless_get st;
          (val, st) = cpu_get unless detect st
      in assert_eq token val)"

definition cpuid_init_get_test :: "(bool \<times> u8) unless \<Rightarrow> bool unless \<Rightarrow> bool \<Rightarrow> u8 \<Rightarrow> unit outcome" where
  "cpuid_init_get_test unless unless_get detect st =
     (let (val, st) = init_get unless detect st in assert_eq val (token_get unless_get st))"

definition cpuid_example :: "(bool \<times> u8) unless \<Rightarrow> bool unless \<Rightarrow> bool \<Rightarrow> u8 \<Rightarrow> unit outcome" where
  "cpuid_example unless unless_get detect st =
     (let st = init unless detect st;
          (val, st) = cpu_get unless detect st
      in and_then (assert_eq val (token_get unless_get st)) (\<lambda>_.
         let (val, st) = init_get unless detect st in assert_eq val (token_get unless_get st)))"

lemmas cpuid_defs = cpuid_init_test_def cpuid_init_get_test_def cpuid_example_def init_def cpu_get_def init_get_def
  token_get_def init_get_body_def token_get_body_def UNINIT_def

lemma cpuid_tests_pass:
  assumes "st \<in> {UNINIT, 0, 1}"
    and "(unless, unless_get) \<in> {(x86_unless all_enabled sgx, x86_unless all_enabled sgx),
      (aarch64_unless all_enabled, aarch64_unless all_enabled), (miri_unless, miri_unless)}"
  shows "passes (cpuid_init_test unless unless_get detect st)"
    "passes (cpuid_init_get_test unless unless_get detect st)"
    "passes (cpuid_example unless unless_get detect st)"
  using assms
  by (auto simp: cpuid_defs x86_unless_def aarch64_unless_def miri_unless_def Let_def split: if_splits)

end
