(* ===== verification/Spec2Isabelle.thy ===== *)
theory Spec2Isabelle
  imports Fiat_Semantics Collectable Hybrid_Array Opaque_Debug Wycheproof Blobby_Convert Zeroize_Derived
    Buffer_Clients Dbl Cmov Hex_Literal Cpufeatures Inout Block_Padding
    Unit_Tests Buffer_Tests Derive_Tests Zeroize_Tests Doc_Tests
begin

text \<open>
  A verification development of the utility crates of this repository: small, independent Rust libraries
  that cryptographic code is built on.  Each crate is one or two theories, and this
  theory joins them and holds what spans crates.

  \<^bold>\<open>Parts and theories.\<close>

  \<^item> \<^verbatim>\<open>Rust_Prelude\<close>: machine integers as words, \<open>Result\<close>, calls that return or panic (\<open>outcome\<close>, sequenced by
    \<open>and_then\<close>), slices with their bounds checks, byte orders, and the shared lemmas.
  \<^item> \<^verbatim>\<open>Block_Padding\<close> (\<^verbatim>\<open>block-padding/src/lib.rs\<close>): the schemes \<open>ZeroPadding\<close>, \<open>Pkcs7\<close>, \<open>Iso10126\<close>, \<open>AnsiX923\<close>, \<open>Iso7816\<close>,
    \<open>NoPadding\<close> as a datatype; \<open>pad\<close>, \<open>unpad\<close> and \<open>unpad_blocks\<close> dispatch on it like the trait does.
  \<^item> \<^verbatim>\<open>Block_Buffer\<close> (\<^verbatim>\<open>block-buffer/src/lib.rs\<close>, \<^verbatim>\<open>sealed.rs\<close>): the buffer is a record of its bytes and its kind-specific position;
    the sealed trait is a record of functions with the instances \<open>Eager\<close> and \<open>Lazy\<close>; the compression
    closure is a function on an abstract state.
  \<^item> \<^verbatim>\<open>Read_Buffer\<close> (\<^verbatim>\<open>block-buffer/src/read.rs\<close>): the buffer that keeps its position in its own first byte; the generator
    closure is a state-passing function.
  \<^item> \<^verbatim>\<open>Buffer_Machines\<close>: both buffers as machines that answer operations, beside the machines that they are meant to be, a list of
    pending bytes and a cursor into a stream.
  \<^item> \<^verbatim>\<open>Buffer_Clients\<close>: a hash function and a stream cipher written against the operations of \<^verbatim>\<open>Block_Buffer\<close>, \<^verbatim>\<open>Read_Buffer\<close> and
    \<^verbatim>\<open>Inout\<close>; they are clients, not code of the repository.
  \<^item> \<^verbatim>\<open>Dbl\<close> (\<^verbatim>\<open>dbl/src/lib.rs\<close>): doubling and halving in GF(2^n), n = 64, 128, 256, word by word as the code does.
  \<^item> \<^verbatim>\<open>Cmov\<close> (\<^verbatim>\<open>cmov/src\<close>): the portable masks and the inline assembly of both architectures; the undefined bits of a register
    that holds a narrower operand are arguments.
  \<^item> \<^verbatim>\<open>Blobby\<close> (\<^verbatim>\<open>blobby/src/lib.rs\<close>): variable-length quantities, \<open>encode_blobs\<close>, the iterator and its grouped variants.
  \<^item> \<^verbatim>\<open>Hex_Literal\<close> (\<^verbatim>\<open>hex-literal/src/lib.rs\<close>, \<^verbatim>\<open>comments.rs\<close>): the comment state machine and the macro on token trees.
  \<^item> \<^verbatim>\<open>Inout\<close> (\<^verbatim>\<open>inout/src\<close>): pointers into one memory of bytes, so that aliasing of input and output is
    visible; \<open>InOut\<close>, \<open>InOutBuf\<close>, its iterator, \<open>InOutBufReserved\<close> and \<open>PaddedInOutBuf\<close>.  It uses \<^verbatim>\<open>Block_Padding\<close> for
    \<open>into_padded_blocks\<close>.
  \<^item> \<^verbatim>\<open>Cpufeatures\<close> (\<^verbatim>\<open>cpufeatures/src\<close>): the feature tables and checks per platform, the functions of the generated module, and
    the same accesses interleaved by any number of threads as a step relation.
  \<^item> \<^verbatim>\<open>Zeroize\<close> (\<^verbatim>\<open>zeroize/src\<close>): a type with its \<open>Zeroize\<close> implementation is a record over a memory of bytes; the
    generic implementations are functions on these records.
  \<^item> \<^verbatim>\<open>Zeroize_On_Drop\<close> (\<^verbatim>\<open>zeroize/src/lib.rs\<close>): the marker trait \<open>ZeroizeOnDrop\<close>, whose implementations are the rules of an inductive
    predicate, and the conversions of \<open>Zeroizing\<close>.
  \<^item> \<^verbatim>\<open>Zeroize_Derive\<close> (\<^verbatim>\<open>zeroize/derive/src/lib.rs\<close>): attributes, items and generated implementations as syntax; the macro
    is a function from items to implementations.  \<^verbatim>\<open>Zeroize_Derived\<close> runs these implementations over the
    memory and the types of \<^verbatim>\<open>Zeroize\<close>; an item with the derived \<open>drop\<close> keeps the contract of \<^verbatim>\<open>Zeroize_On_Drop\<close> again.
  \<^item> \<^verbatim>\<open>Blobby_Convert\<close> (\<^verbatim>\<open>blobby/examples/convert.rs\<close>) and \<^verbatim>\<open>Wycheproof\<close> (\<^verbatim>\<open>wycheproof2blb/src\<close>): two programs that write
    and read the format of \<^verbatim>\<open>Blobby\<close>; the JSON parser, the \<^verbatim>\<open>hex\<close> crate and the file system are arguments.
  \<^item> \<^verbatim>\<open>Fiat_Constify\<close> and \<^verbatim>\<open>Fiat_Semantics\<close> (\<^verbatim>\<open>fiat-constify/src/main.rs\<close>): the syntax of the functions it rewrites and the
    rewriting itself; a meaning for statements, functions and files before it (with mutable references) and after (with values).
  \<^item> \<^verbatim>\<open>Hybrid_Array\<close> (\<^verbatim>\<open>hybrid-array/src/lib.rs\<close>), \<^verbatim>\<open>Collectable\<close> (\<^verbatim>\<open>collectable/src/lib.rs\<close>) and \<^verbatim>\<open>Opaque_Debug\<close>
    (\<^verbatim>\<open>opaque-debug/src/lib.rs\<close>): arrays with a type-level size, the traits of fallible collections, the opaque \<open>Debug\<close> macro.
  \<^item> \<^verbatim>\<open>Rust_Tests\<close>, \<^verbatim>\<open>Unit_Tests\<close>, \<^verbatim>\<open>Buffer_Tests\<close>, \<^verbatim>\<open>Derive_Tests\<close>, \<^verbatim>\<open>Zeroize_Tests\<close>, \<^verbatim>\<open>Doc_Tests\<close>: the tests and the documentation's examples
    of the crates, translated one by one (\<^verbatim>\<open>Zeroize_Tests\<close> says which are left out) and run on the model: they all pass there, panics with their messages included.  This is a check of the
    model against what the authors of the code expect of it, and the definitions of the tests are the only ones that are not about the crates' own code.

  \<^bold>\<open>What is shown.\<close>  Padding: what is padded is unpadded, the strict schemes accept exactly padded blocks, no call leaves its
  slice.  Buffers: any split of the input gives the compression function the same blocks, closing with a length
  gives the documented final blocks, serialisation is a bijection onto its canonical arrays, and
  the unchecked position is in range in every state that the public operations reach, as long as the closures given to an eager
  buffer return; what a panic of such a closure leaves behind is shown as well.  Reading: the delivered bytes are
  a prefix of the generated stream.  Both buffers answer every sequence of operations as their abstract machines do, so a collision of a hash
  function built on the block buffer is one of its compression function, and a stream cipher built on the read buffer and the in-out buffer
  is its own inverse however the data is cut.  Doubling: multiplication by x modulo the polynomial, with its inverse.  Conditional
  moves: all backends implement one function, aarch64 exactly under a condition on undefined bits that the code leaves out.  Blobs: round trip,
  canonical quantities, deduplication, and what happens with a file cut off at any place.  Hexadecimal: agreement with a
  reference decoder on all literals, panics included, and which runs of asterisks close a comment.  In-out buffers: exclusive or, splitting, iteration for equal or
  disjoint regions.  Features: all interleavings agree with detection, or with the constant where the answer is fixed at compile time, a token
  means that the storage is initialised, no thread waits for another, and detection tests the table's bits.  Zeroize: a contract for \<open>zeroize\<close> that vectors preserve, hence nested vectors are erased completely, and so are options
  of them;
  which bytes each type marked \<open>ZeroizeOnDrop\<close> erases when it is dropped, and that
  \<open>clone_from\<close> leaves nothing of the old value; what the derive macros accept, and that the implementations they generate erase the fields that are not skipped, on
  \<open>zeroize\<close> and on drop.  Files: what the converter and the test-vector tool write is read back as it was, and which test
  cases are taken.  Constify: the rewritten functions of a file return what the original ones write, the defaults are of the
  right type, and when the tool ends.  Arrays: sizes, bounds and the order of calls.  Below: padding, processing and unpadding through an
  in-out buffer is the identity.

  \<^bold>\<open>Interfaces.\<close>  The locale \<open>gf_block\<close> has what the three block sizes of doubling share, \<open>cmov_backend\<close> is the
  contract of a conditional-move backend, \<open>zeroize_law\<close> that of a \<open>Zeroize\<close> implementation, extended by
  \<open>vec_law\<close> with the layout of vectors, which is again an instance of \<open>zeroize_law\<close>, and by \<open>moved_law\<close> for values that
  are moved after \<open>zeroize\<close>; these extend \<open>owned_region\<close>, what a value
  owns, and so does \<open>zeroize_on_drop\<close>, the promise of the marker trait, of which \<open>Zeroizing\<close> of a lawful type is an instance; \<open>simulation\<close> relates
  an implementation to the machine it refines, and \<open>pending_buffer\<close> has what the two kinds of block buffer share in that; \<open>padding_scheme\<close>, \<open>reversible_padding\<close> and
  \<open>canonical_padding\<close> grade the padding schemes by what they promise, and \<open>buffer_kind\<close> is the sealed trait of the
  block buffer.  \<open>blob_format\<close> is what the two programs rely on in the blob format, \<open>test_loop\<close> the shape that the six
  test generators share, \<open>array_ops\<close> the array trait and \<open>try_extendable\<close> the contract of a collection.  Each is
  interpreted on the definitions of the code.

  \<^bold>\<open>Bounds and choices.\<close>  \<open>usize\<close> values that count elements of a slice are natural numbers; where the code narrows or may
  wrap, words of that width are used, and overflow checks are panics.  Block sizes are 1 to 255, as the
  type-level bounds of the crates require.  Loops are recursive functions and terminate; the only number of steps
  given from outside is that of \<open>iter_take\<close>, for which every number at least the length gives the whole
  iteration, and the only recursion that may not end is \<open>default_for\<close> of \<^verbatim>\<open>Fiat_Constify\<close>, a partial function whose
  termination is characterised by the type aliases it follows.  Arguments of definitions stand for what is outside the repository: compression
  functions and generators, CPUID and the operating system, the allocator and memory layouts, undefined register bits.

  \<^bold>\<open>Not modelled.\<close>  Derived traits (\<open>Debug\<close>, \<open>PartialEq\<close>, \<open>Hash\<close>) and re-exports; the declarations of traits, whose methods are modelled at
  their implementations; timing (constant-time claims) and what an optimiser may do to volatile writes; what the crates of others do
  (\<^verbatim>\<open>syn\<close>, \<^verbatim>\<open>quote\<close>, \<^verbatim>\<open>synstructure\<close>, serde, \<^verbatim>\<open>typenum\<close>, \<^verbatim>\<open>generic-array\<close>), beyond the values they hand to the code; the
  types, mutability and borrows of the programs that \<^verbatim>\<open>fiat-constify\<close> rewrites.  With these, every item of the implementation files has a
  definition.
\<close>

section \<open>Padding a message through an in-out buffer\<close>

text \<open>
  (C5) Padding, block processing and unpadding compose to the identity.  Take a message in a valid
  \<open>InOutBufReserved\<close>, in place or between two buffers, a reversible padding scheme and a block transformation
  \<open>f\<close> with inverse \<open>g\<close>.  If the output has room for one more block than the message fills,
  \<open>into_padded_blocks\<close> followed by \<open>f\<close> on every block writes its output over the start of the output
  region and nothing else, and applying \<open>g\<close> to the blocks of that output and calling \<open>unpad_blocks\<close> gives
  back the message.  Otherwise the result is \<open>PadError\<close>.
\<close>

theorem padded_message_roundtrip:
  assumes "reserved_valid mem self" and "pad_TYPE P = Reversible" and "0 < bs" and "bs \<le> 255 \<or> P = Iso7816"
    and "\<forall>x. length x = bs \<longrightarrow> length (f x) = bs \<and> g (f x) = x"
    and "msg = take (r_in_len self) (drop (r_in self) mem)"
  shows "if bs * (length msg div bs) + bs \<le> r_out_len self
         then \<exists>out. process_padded f P bs mem self = Return (Ok (out, overwrite mem (r_out self) out)) \<and>
           unpad_blocks (pad_TYPE P) (unpad P) bs (map g (chunks_of bs (length out div bs) out)) = Return (Ok msg)
         else process_padded f P bs mem self = Return (Err PadError)"
proof (cases "bs * (length msg div bs) + bs \<le> r_out_len self")
  case True
  define nb where "nb = length msg div bs"
  obtain tail0 tail out where t: "length tail0 = bs" "take (length msg - bs * nb) tail0 = drop (bs * nb) msg"
      "pad P tail0 (length msg - bs * nb) = Return tail" "out = concat (map f (chunks_of bs nb msg @ [tail]))"
      "length out = bs * nb + bs"
    and out: "process_padded f P bs mem self = Return (Ok (out, overwrite mem (r_out self) out))"
    using process_padded_output [OF assms(1-4) _ assms(6) nb_def, of f] assms(5) True nb_def by auto
  have le: "nb * bs \<le> length msg" by (simp add: nb_def)
  have tl: "length tail = bs" using padding_scheme.pad_length [OF every_scheme t(3)] t(1) by simp
  define bl where "bl = chunks_of bs nb msg @ [tail]"
  have bl: "\<And>b. b \<in> set bl \<Longrightarrow> length b = bs"
    using tl chunks_of_block_length [OF le] by (auto simp: bl_def)
  have "length out div bs = length (map f bl)" using t(5) assms(3) by (simp add: bl_def)
  moreover have "chunks_of bs (length (map f bl)) (concat (map f bl) @ []) = map f bl"
    by (rule chunks_of_concat) (use bl assms(5) in auto)
  ultimately have "chunks_of bs (length out div bs) out = map f bl" using t(4) by (simp add: bl_def)
  then have "map g (chunks_of bs (length out div bs) out) = bl"
    using bl assms(5) by (simp add: map_idI)
  moreover have "unpad_blocks (pad_TYPE P) (unpad P) bs (chunks_of bs nb msg @ [tail]) =
      Return (Ok (concat (chunks_of bs nb msg) @ take (length msg - bs * nb) tail0))"
    by (rule reversible_padding.unpad_blocks_pad [OF reversible_scheme [OF assms(2)]])
       (use t chunks_of_block_length [OF le] in auto)
  moreover have "concat (chunks_of bs nb msg) @ drop (bs * nb) msg = msg"
    using concat_chunks_of [OF le] by (simp add: mult.commute)
  ultimately have "unpad_blocks (pad_TYPE P) (unpad P) bs (map g (chunks_of bs (length out div bs) out)) = Return (Ok msg)"
    using t(2) by (simp add: bl_def)
  with True out show ?thesis by auto
next
  case False
  then show ?thesis
    using into_padded_reversible [OF assms(1-4) assms(6) refl] by (simp add: process_padded_def)
qed

theorem padded_message_roundtrip_witness:
  "if 4 * (length [1, 2, 3, 4, 5 :: u8] div 4) + 4 \<le> r_out_len \<lparr>r_in = 0, r_out = 0, r_in_len = 5, r_out_len = 8\<rparr>
   then \<exists>out. process_padded (map (\<lambda>b. b XOR 0xff)) Pkcs7 4 [1, 2, 3, 4, 5, 6, 7, 8]
          \<lparr>r_in = 0, r_out = 0, r_in_len = 5, r_out_len = 8\<rparr> =
          Return (Ok (out, overwrite [1, 2, 3, 4, 5, 6, 7, 8] (r_out \<lparr>r_in = 0, r_out = 0, r_in_len = 5, r_out_len = 8\<rparr>) out)) \<and>
     unpad_blocks (pad_TYPE Pkcs7) (unpad Pkcs7) 4 (map (map (\<lambda>b. b XOR 0xff)) (chunks_of 4 (length out div 4) out)) =
       Return (Ok [1, 2, 3, 4, 5])
   else process_padded (map (\<lambda>b. b XOR 0xff)) Pkcs7 4 [1, 2, 3, 4, 5, 6, 7, 8]
          \<lparr>r_in = 0, r_out = 0, r_in_len = 5, r_out_len = 8\<rparr> = Return (Err PadError)"
  by (rule padded_message_roundtrip) (auto simp: reserved_valid_def xor.assoc comp_def)

end
